(* ===== verification/Prelude.thy ===== *)
theory Prelude
  imports Main "HOL-Library.Word" "HOL-Library.Monad_Syntax" "HOL-Library.Multiset"
begin

text \<open>
  Shared ground of the development: the collections of facts the component proofs use, the
  byte type, and lemmas on lists that several components need (overwriting a range of a byte
  sequence, as \<open>memcpy\<close> into a buffer and \<open>pwrite\<close> into a file do).
\<close>

unbundle bit_operations_syntax

named_theorems codec_simps \<open>table and word facts of the byte codecs\<close>
named_theorems seq_simps \<open>facts on overwritten byte sequences\<close>

type_synonym byte = "8 word"

subsection \<open>Overwriting a range of a sequence\<close>

text \<open>
  \<open>splice z xs o ys\<close> is \<open>xs\<close> with \<open>ys\<close> written over it from position \<open>o\<close> on. A gap between the
  end of \<open>xs\<close> and \<open>o\<close> is filled with \<open>z\<close>, as a file is filled with zero bytes.
\<close>

definition splice_at :: "'a \<Rightarrow> 'a list \<Rightarrow> nat \<Rightarrow> 'a list \<Rightarrow> 'a list" where
  "splice_at z xs off ys =
     take off xs @ replicate (off - length xs) z @ ys @ drop (off + length ys) xs"

lemma length_splice_at [seq_simps, simp]:
  "length (splice_at z xs off ys) = max (length xs) (off + length ys)"
  by (simp add: splice_at_def)

lemma splice_at_Nil_inside [seq_simps]: "off \<le> length xs \<Longrightarrow> splice_at z xs off [] = xs"
  by (simp add: splice_at_def)

lemma splice_at_end [seq_simps]: "splice_at z xs (length xs) ys = xs @ ys"
  by (simp add: splice_at_def)

lemma nth_splice_at [seq_simps]:
  assumes "i < max (length xs) (off + length ys)"
  shows "splice_at z xs off ys ! i =
    (if off \<le> i \<and> i < off + length ys then ys ! (i - off)
     else if i < length xs then xs ! i else z)"
  using assms by (auto simp: splice_at_def nth_append min_def)

lemma splice_at_splice_at_adjacent [seq_simps]:
  assumes "off \<le> length xs"
  shows "splice_at z (splice_at z xs off ys) (off + length ys) zs = splice_at z xs off (ys @ zs)"
proof (rule nth_equalityI)
  show "length (splice_at z (splice_at z xs off ys) (off + length ys) zs) =
    length (splice_at z xs off (ys @ zs))" by simp
next
  fix i
  assume "i < length (splice_at z (splice_at z xs off ys) (off + length ys) zs)"
  then show "splice_at z (splice_at z xs off ys) (off + length ys) zs ! i =
    splice_at z xs off (ys @ zs) ! i"
    using assms by (auto simp: nth_splice_at nth_append)
qed


subsection \<open>Bytes\<close>

text \<open>Equality of bytes bit by bit, and statements about all bytes as checks of 256 values.\<close>

lemma byte_eqI:
  assumes "\<And>n. n \<in> {0, 1, 2, 3, 4, 5, 6, 7} \<Longrightarrow> bit (a::byte) n = bit b n"
  shows "a = b"
proof (rule bit_word_eqI)
  fix n assume "n < LENGTH(8)"
  then have "n \<in> {0, 1, 2, 3, 4, 5, 6, 7}" by auto
  then show "bit a n = bit b n" by (rule assms)
qed

lemma unat_byte_less [simp]: "unat (b::byte) < 256"
  using unsigned_less [of b, where ?'a = nat] by simp

text \<open>A statement about every byte holds when it holds for the 256 numerals.\<close>

lemma byte_exhaust256:
  assumes "\<forall>n\<in>set [0..<256]. P (of_nat n)"
  shows "P (b::byte)"
proof -
  have "unat b \<in> set [0..<256]" by simp
  with assms have "P (of_nat (unat b))" by blast
  then show ?thesis by simp
qed

definition nib_hi :: "byte \<Rightarrow> byte" where
  "nib_hi d = drop_bit 4 (d AND 0xF0)"

definition nib_lo :: "byte \<Rightarrow> byte" where
  "nib_lo d = d AND 0x0F"

lemma nibbles_join [codec_simps]: "push_bit 4 (nib_hi d) OR nib_lo d = d"
  unfolding nib_hi_def nib_lo_def by (rule byte_eqI) (auto simp: bit_simps)

lemma nib_lo_less [codec_simps]: "unat (nib_lo d) < 16"
  using word_and_le1 [of d "0x0F"] by (simp add: word_le_nat_alt nib_lo_def)

lemma nib_hi_less [codec_simps]: "unat (nib_hi d) < 16"
  by (simp add: nib_hi_def drop_bit_eq_div unat_div_distrib less_mult_imp_div_less)

lemma nibble_pairs:
  "\<forall>m\<in>set [0..<16]. \<forall>n\<in>set [0..<16].
     nib_hi (push_bit 4 (of_nat m) OR of_nat n) = of_nat m \<and>
     nib_lo (push_bit 4 (of_nat m) OR of_nat n) = of_nat n"
  by code_simp

lemma nibbles_split [codec_simps]:
  assumes "unat a < 16" "unat b < 16"
  shows "nib_hi (push_bit 4 a OR b) = a" and "nib_lo (push_bit 4 a OR b) = b"
  using assms nibble_pairs [THEN bspec, THEN bspec, of "unat a" "unat b"] by simp_all

subsection \<open>Outcomes of a step\<close>

text \<open>
  A step of a C program ends with a result, in \<open>abort()\<close> (the code's \<open>EV_ABORT\<close>), in a loop that
  waits for something that nothing in the step changes, or in an access to memory that is not there
  (a null or freed pointer, an index outside an array).
\<close>

datatype 'r outcome = Done 'r | Aborted | Spins | Bad_access

primrec obind :: "'a outcome \<Rightarrow> ('a \<Rightarrow> 'b outcome) \<Rightarrow> 'b outcome" where
  "obind (Done x) f = f x"
| "obind Aborted f = Aborted"
| "obind Spins f = Spins"
| "obind Bad_access f = Bad_access"

lemma obind_cong [fundef_cong]:
  "m = m' \<Longrightarrow> (\<And>x. m' = Done x \<Longrightarrow> f x = g x) \<Longrightarrow> obind m f = obind m' g"
  by (cases m') auto

lemma obind_eq_Done [simp]: "obind m f = Done y \<longleftrightarrow> (\<exists>x. m = Done x \<and> f x = Done y)"
  by (cases m) auto

lemma obind_assoc: "obind (obind m f) g = obind m (\<lambda>x. obind (f x) g)"
  by (cases m) simp_all

definition of_ptr :: "'a option \<Rightarrow> 'a outcome" where
  "of_ptr p = (case p of None \<Rightarrow> Bad_access | Some x \<Rightarrow> Done x)"

lemma of_ptr_simps [simp]: "of_ptr None = Bad_access" "of_ptr (Some x) = Done x"
  by (simp_all add: of_ptr_def)

text \<open>\<open>memcpy(dst + doff, src + soff, n)\<close>, both ranges inside their buffers.\<close>

definition memcpy :: "byte list \<Rightarrow> nat \<Rightarrow> byte list \<Rightarrow> nat \<Rightarrow> nat \<Rightarrow> byte list outcome" where
  "memcpy dst doff src soff n =
     (if doff + n \<le> length dst \<and> soff + n \<le> length src
      then Done (splice_at 0 dst doff (take n (drop soff src))) else Bad_access)"

lemma memcpy_Done:
  "doff + n \<le> length dst \<Longrightarrow> soff + n \<le> length src \<Longrightarrow>
   memcpy dst doff src soff n = Done (splice_at 0 dst doff (take n (drop soff src)))"
  by (simp add: memcpy_def)

text \<open>Conversion of a \<open>size_t\<close> to C's \<open>int\<close>.\<close>

definition c_int :: "nat \<Rightarrow> int" where
  "c_int n = sint (of_nat n :: 32 word)"

lemma c_int_small [simp]: "n < 2147483648 \<Longrightarrow> c_int n = int n"
  by (simp add: c_int_def signed_of_nat signed_take_bit_int_eq_self)

subsection \<open>Refinement of a specification by steps\<close>

text \<open>
  Running a list of operations, and the interface of a system whose every enabled operation ends
  with a result, keeps an invariant and does to the abstraction what the specification says.
\<close>

fun run_steps :: "('op \<Rightarrow> 's \<Rightarrow> 's outcome) \<Rightarrow> 'op list \<Rightarrow> 's \<Rightarrow> 's outcome" where
  "run_steps step [] s = Done s"
| "run_steps step (x # xs) s = obind (step x s) (run_steps step xs)"

locale simulation =
  fixes inv :: "'s \<Rightarrow> bool"
    and abs :: "'s \<Rightarrow> 'a"
    and ok :: "'op \<Rightarrow> bool"
    and step :: "'op \<Rightarrow> 's \<Rightarrow> 's outcome"
    and spec :: "'op \<Rightarrow> 'a \<Rightarrow> 'a"
  assumes step_law: "inv s \<Longrightarrow> ok x \<Longrightarrow> \<exists>s'. step x s = Done s' \<and> inv s' \<and> abs s' = spec x (abs s)"
begin

lemma run_law:
  "inv s \<Longrightarrow> list_all ok xs \<Longrightarrow>
   \<exists>s'. run_steps step xs s = Done s' \<and> inv s' \<and> abs s' = fold spec xs (abs s)"
proof (induction xs arbitrary: s)
  case (Cons x xs)
  then obtain s1 where "step x s = Done s1" "inv s1" "abs s1 = spec x (abs s)"
    using step_law by fastforce
  with Cons show ?case by fastforce
qed simp

end

subsection \<open>Reachable states\<close>

text \<open>
  The states a system reaches from its start states by calls whose guard holds; \<open>post\<close> picks the next
  state from what a call returns. The interface of a system that keeps an invariant and never crashes.
\<close>

inductive reach :: "('s \<Rightarrow> bool) \<Rightarrow> ('op \<Rightarrow> 's \<Rightarrow> bool) \<Rightarrow> ('op \<Rightarrow> 's \<Rightarrow> 'r outcome) \<Rightarrow> ('r \<Rightarrow> 's) \<Rightarrow> 's \<Rightarrow> bool"
  for start ok exec post where
  reach_start: "start s \<Longrightarrow> reach start ok exec post s"
| reach_step: "reach start ok exec post s \<Longrightarrow> ok x s \<Longrightarrow> exec x s = Done r \<Longrightarrow> reach start ok exec post (post r)"

locale guarded_system =
  fixes start :: "'s \<Rightarrow> bool"
    and ok :: "'op \<Rightarrow> 's \<Rightarrow> bool"
    and exec :: "'op \<Rightarrow> 's \<Rightarrow> 'r outcome"
    and post :: "'r \<Rightarrow> 's"
    and inv :: "'s \<Rightarrow> bool"
  assumes start_law: "start s \<Longrightarrow> inv s"
    and exec_law: "inv s \<Longrightarrow> ok x s \<Longrightarrow> exec x s = Spins \<or> (\<exists>r. exec x s = Done r \<and> inv (post r))"
begin

lemma reach_inv: "reach start ok exec post s \<Longrightarrow> inv s"
proof (induction rule: reach.induct)
  case (reach_step s x r)
  with exec_law [of s x] show ?case by auto
qed (rule start_law)

lemma reach_no_crash:
  "reach start ok exec post s \<Longrightarrow> ok x s \<Longrightarrow> exec x s \<noteq> Aborted \<and> exec x s \<noteq> Bad_access"
  using exec_law [OF reach_inv] by fastforce

end

lemma sum_list_upd:
  fixes f :: "'a \<Rightarrow> 'b::comm_monoid_add"
  shows "i < length xs \<Longrightarrow> sum_list (map f (xs[i := x])) + f (xs ! i) = sum_list (map f xs) + f x"
proof (induction xs arbitrary: i)
  case (Cons y xs)
  then show ?case by (cases i) (simp_all add: add.commute add.left_commute add.assoc)
qed simp

text \<open>A run of a system through a list of operations, each allowed where it is made, ends in a reachable state.\<close>

fun run_all :: "('op \<Rightarrow> 's \<Rightarrow> bool) \<Rightarrow> ('op \<Rightarrow> 's \<Rightarrow> 'r outcome) \<Rightarrow> ('r \<Rightarrow> 's) \<Rightarrow> 'op list \<Rightarrow> 's \<Rightarrow> 's option" where
  "run_all ok exec post [] s = Some s"
| "run_all ok exec post (x # xs) s =
     (if ok x s then (case exec x s of Done r \<Rightarrow> run_all ok exec post xs (post r) | _ \<Rightarrow> None) else None)"

lemma run_all_reach: "reach start ok exec post s \<Longrightarrow> run_all ok exec post xs s = Some s' \<Longrightarrow> reach start ok exec post s'"
  by (induction xs arbitrary: s) (auto split: if_splits outcome.splits intro: reach_step)

end
