(* ===== verification/Hex.thy ===== *)
theory Hex
  imports Prelude
begin

text \<open>
  The hexadecimal codec of \<open>src/core_utils/hex.c\<close>. The two static tables are the source's
  literals; a buffer is the list of its bytes; \<open>malloc\<close> is a predicate that says which requests
  the allocator grants. A result is the returned pointer (\<open>None\<close> for \<open>NULL\<close>) with the value
  stored through \<open>output_length\<close> (\<open>None\<close> when the function returns before storing it).
\<close>

definition hex_encoding_table :: "byte list" where
  "hex_encoding_table =
    [48, 49, 50, 51, 52, 53, 54, 55, 56, 57, 65, 66, 67, 68, 69, 70]"

definition hex_decoding_table :: "byte list" where
  "hex_decoding_table =
    [255, 255, 255, 255, 255, 255, 255, 255, 255, 255, 255, 255, 255, 255, 255, 255,
     255, 255, 255, 255, 255, 255, 255, 255, 255, 255, 255, 255, 255, 255, 255, 255,
     255, 255, 255, 255, 255, 255, 255, 255, 255, 255, 255, 255, 255, 255, 255, 255,
     0, 1, 2, 3, 4, 5, 6, 7, 8, 9, 255, 255, 255, 255, 255, 255,
     255, 10, 11, 12, 13, 14, 15, 255, 255, 255, 255, 255, 255, 255, 255, 255,
     255, 255, 255, 255, 255, 255, 255, 255, 255, 255, 255, 255, 255, 255, 255, 255,
     255, 10, 11, 12, 13, 14, 15, 255, 255, 255, 255, 255, 255, 255, 255, 255,
     255, 255, 255, 255, 255, 255, 255, 255, 255, 255, 255, 255, 255, 255, 255, 255,
     255, 255, 255, 255, 255, 255, 255, 255, 255, 255, 255, 255, 255, 255, 255, 255,
     255, 255, 255, 255, 255, 255, 255, 255, 255, 255, 255, 255, 255, 255, 255, 255,
     255, 255, 255, 255, 255, 255, 255, 255, 255, 255, 255, 255, 255, 255, 255, 255,
     255, 255, 255, 255, 255, 255, 255, 255, 255, 255, 255, 255, 255, 255, 255, 255,
     255, 255, 255, 255, 255, 255, 255, 255, 255, 255, 255, 255, 255, 255, 255, 255,
     255, 255, 255, 255, 255, 255, 255, 255, 255, 255, 255, 255, 255, 255, 255, 255,
     255, 255, 255, 255, 255, 255, 255, 255, 255, 255, 255, 255, 255, 255, 255, 255,
     255, 255, 255, 255, 255, 255, 255, 255, 255, 255, 255, 255, 255, 255, 255, 255]"

text \<open>A table read at a byte, as in \<open>decoding_table[one]\<close>.\<close>

definition hex_dec :: "byte \<Rightarrow> byte" where
  "hex_dec b = hex_decoding_table ! unat b"

text \<open>
  The body of the encoding loop for one input byte: the high nibble \<open>(d & 0xF0) >> 4\<close>, then
  the low one \<open>d & 0x0F\<close>.
\<close>

definition hex_encode_byte :: "byte \<Rightarrow> byte list" where
  "hex_encode_byte d =
     [hex_encoding_table ! unat (nib_hi d), hex_encoding_table ! unat (nib_lo d)]"

fun hex_encode_loop :: "byte list \<Rightarrow> byte list" where
  "hex_encode_loop [] = []"
| "hex_encode_loop (d # ds) = hex_encode_byte d @ hex_encode_loop ds"




subsection \<open>What the tables say\<close>

text \<open>
  \<open>is_hex_digit\<close> and \<open>hex_upper\<close> describe the accepted characters without the table; the next
  three facts are checks of the literal tables.
\<close>

definition is_hex_digit :: "byte \<Rightarrow> bool" where
  "is_hex_digit b \<longleftrightarrow> 48 \<le> b \<and> b \<le> 57 \<or> 65 \<le> b \<and> b \<le> 70 \<or> 97 \<le> b \<and> b \<le> 102"


lemma hex_encoding_table_inverse:
  "\<forall>n\<in>set [0..<16]. hex_dec (hex_encoding_table ! n) = of_nat n"
  by code_simp

lemma hex_decoding_table_digits:
  "\<forall>n\<in>set [0..<256]. (hex_dec (of_nat n) \<noteq> 0xFF) = is_hex_digit (of_nat n)"
  by code_simp


lemma hex_dec_valid_iff: "hex_dec b \<noteq> 0xFF \<longleftrightarrow> is_hex_digit b"
  by (rule byte_exhaust256 [where P = "\<lambda>b. (hex_dec b \<noteq> 0xFF) = is_hex_digit b"])
    (rule hex_decoding_table_digits)


lemma hex_dec_enc: "unat n < 16 \<Longrightarrow> hex_dec (hex_encoding_table ! unat n) = n"
  using hex_encoding_table_inverse by simp

lemma nibble_not_FF: "unat n < 16 \<Longrightarrow> n \<noteq> (0xFF :: byte)"
  by auto



lemma length_hex_encode_loop [simp]: "length (hex_encode_loop ds) = 2 * length ds"
  by (induction ds) (simp_all add: hex_encode_byte_def)

lemma hex_encode_byte_digits: "\<forall>c\<in>set (hex_encode_byte d). is_hex_digit c"
  by (auto simp: hex_encode_byte_def hex_dec_enc codec_simps nibble_not_FF simp flip: hex_dec_valid_iff)



subsection \<open>Properties\<close>





end
