(* ===== verification/Base64.thy ===== *)
theory Base64
  imports Prelude
begin

text \<open>
  The base64 codec of \<open>src/core_utils/base64.c\<close>: \<open>base64_encode\<close> with its optional line breaks,
  \<open>base64_decode\<close> with its four-state automaton and its treatment of padding, and the URL-safe
  variants. The tables are the source's literals, a buffer is the list of its bytes, \<open>malloc\<close> is a
  predicate that says which requests are granted. Decoding has three outcomes: \<open>NULL\<close>, a read
  past the end of the input, and a buffer with its length.
\<close>

definition b64_encoding_table :: "byte list" where
  "b64_encoding_table =
    [65, 66, 67, 68, 69, 70, 71, 72, 73, 74, 75, 76, 77, 78, 79, 80,
     81, 82, 83, 84, 85, 86, 87, 88, 89, 90, 97, 98, 99, 100, 101, 102,
     103, 104, 105, 106, 107, 108, 109, 110, 111, 112, 113, 114, 115, 116, 117, 118,
     119, 120, 121, 122, 48, 49, 50, 51, 52, 53, 54, 55, 56, 57, 43, 47]"

definition b64_decoding_table :: "byte list" where
  "b64_decoding_table =
    [255, 255, 255, 255, 255, 255, 255, 255, 255, 255, 255, 255, 255, 255, 255, 255,
     255, 255, 255, 255, 255, 255, 255, 255, 255, 255, 255, 255, 255, 255, 255, 255,
     255, 255, 255, 255, 255, 255, 255, 255, 255, 255, 255, 62, 255, 255, 255, 63,
     52, 53, 54, 55, 56, 57, 58, 59, 60, 61, 255, 255, 255, 255, 255, 255,
     255, 0, 1, 2, 3, 4, 5, 6, 7, 8, 9, 10, 11, 12, 13, 14,
     15, 16, 17, 18, 19, 20, 21, 22, 23, 24, 25, 255, 255, 255, 255, 255,
     255, 26, 27, 28, 29, 30, 31, 32, 33, 34, 35, 36, 37, 38, 39, 40,
     41, 42, 43, 44, 45, 46, 47, 48, 49, 50, 51, 255, 255, 255, 255, 255,
     255, 255, 255, 255, 255, 255, 255, 255, 255, 255, 255, 255, 255, 255, 255, 255,
     255, 255, 255, 255, 255, 255, 255, 255, 255, 255, 255, 255, 255, 255, 255, 255,
     255, 255, 255, 255, 255, 255, 255, 255, 255, 255, 255, 255, 255, 255, 255, 255,
     255, 255, 255, 255, 255, 255, 255, 255, 255, 255, 255, 255, 255, 255, 255, 255,
     255, 255, 255, 255, 255, 255, 255, 255, 255, 255, 255, 255, 255, 255, 255, 255,
     255, 255, 255, 255, 255, 255, 255, 255, 255, 255, 255, 255, 255, 255, 255, 255,
     255, 255, 255, 255, 255, 255, 255, 255, 255, 255, 255, 255, 255, 255, 255, 255,
     255, 255, 255, 255, 255, 255, 255, 255, 255, 255, 255, 255, 255, 255, 255, 255]"

definition b64_mod_table :: "nat list" where
  "b64_mod_table = [0, 2, 1]"

subsection \<open>Encoding\<close>

definition b64_triple :: "byte \<Rightarrow> byte \<Rightarrow> byte \<Rightarrow> 32 word" where
  "b64_triple octet_a octet_b octet_c =
     push_bit 0x10 (ucast octet_a) + push_bit 0x08 (ucast octet_b) + ucast octet_c"

definition b64_quad :: "byte \<Rightarrow> byte \<Rightarrow> byte \<Rightarrow> byte list" where
  "b64_quad octet_a octet_b octet_c =
     (let triple = b64_triple octet_a octet_b octet_c
      in [b64_encoding_table ! unat (drop_bit (3 * 6) triple AND 0x3F),
          b64_encoding_table ! unat (drop_bit (2 * 6) triple AND 0x3F),
          b64_encoding_table ! unat (drop_bit (1 * 6) triple AND 0x3F),
          b64_encoding_table ! unat (drop_bit (0 * 6) triple AND 0x3F)])"

text \<open>What follows a group of four characters, and the new value of \<open>line_count\<close>.\<close>

definition b64_break :: "bool \<Rightarrow> nat \<Rightarrow> byte list" where
  "b64_break add_line_breaks line_count =
     (if add_line_breaks \<and> line_count + 1 = 19 then [13, 10] else [])"

definition b64_next_count :: "bool \<Rightarrow> nat \<Rightarrow> nat" where
  "b64_next_count add_line_breaks line_count =
     (if add_line_breaks then (if line_count + 1 = 19 then 0 else line_count + 1) else line_count)"

text \<open>Missing octets of the last group are 0.\<close>

fun b64_encode_loop :: "bool \<Rightarrow> nat \<Rightarrow> byte list \<Rightarrow> byte list" where
  "b64_encode_loop br lc [] = []"
| "b64_encode_loop br lc [a] = b64_quad a 0 0 @ b64_break br lc"
| "b64_encode_loop br lc [a, b] = b64_quad a b 0 @ b64_break br lc"
| "b64_encode_loop br lc (a # b # c # ds) =
     b64_quad a b c @ b64_break br lc @ b64_encode_loop br (b64_next_count br lc) ds"

definition b64_output_length :: "bool \<Rightarrow> nat \<Rightarrow> nat" where
  "b64_output_length add_line_breaks input_length =
     (let n = 4 * ((input_length + 2) div 3)
      in if add_line_breaks then n + (n div 76) * 2 else n)"

text \<open>The final loop: \<open>encoded_data[*output_length - 1 - i] = '='\<close>.\<close>

fun b64_pad :: "nat \<Rightarrow> nat \<Rightarrow> byte list \<Rightarrow> byte list" where
  "b64_pad olen 0 buf = buf"
| "b64_pad olen (Suc i) buf = (b64_pad olen i buf)[olen - 1 - i := 61]"

definition base64_encode ::
  "(nat \<Rightarrow> bool) \<Rightarrow> byte list \<Rightarrow> bool \<Rightarrow> byte list option \<times> nat" where
  "base64_encode malloc data add_line_breaks =
     (let output_length = b64_output_length add_line_breaks (length data)
      in if \<not> malloc (output_length + 1) then (None, output_length)
         else let out = b64_encode_loop add_line_breaks 0 data
              in (Some (b64_pad output_length (b64_mod_table ! (length data mod 3))
                    (out @ replicate (output_length + 1 - length out) 0)), output_length))"

subsection \<open>Decoding\<close>

definition b64_isspace :: "byte \<Rightarrow> bool" where
  "b64_isspace c \<longleftrightarrow> c = 10 \<or> c = 13 \<or> c = 32 \<or> c = 9"

abbreviation b64_PAD :: byte where
  "b64_PAD \<equiv> 61"

record b64_state =
  b64_out_index :: nat
  b64_st :: nat
  b64_buf :: "byte list"
  b64_ch :: byte

text \<open>The \<open>switch\<close> of the main loop; \<open>None\<close> is its \<open>return NULL\<close>.\<close>

definition b64_switch :: "nat \<Rightarrow> byte \<Rightarrow> b64_state \<Rightarrow> b64_state option" where
  "b64_switch est sextet s =
     (let oi = b64_out_index s; buf = b64_buf s
      in if b64_st s = 0 then
           (if oi \<ge> est then None
            else Some (s\<lparr>b64_buf := buf[oi := push_bit 2 sextet], b64_st := 1\<rparr>))
         else if b64_st s = 1 then
           (if oi + 1 \<ge> est then None
            else Some (s\<lparr>b64_buf := buf[oi := (buf ! oi) OR drop_bit 4 sextet,
                           oi + 1 := push_bit 4 (sextet AND 0x0f)],
                         b64_out_index := oi + 1, b64_st := 2\<rparr>))
         else if b64_st s = 2 then
           (if oi + 1 \<ge> est then None
            else Some (s\<lparr>b64_buf := buf[oi := (buf ! oi) OR drop_bit 2 sextet,
                           oi + 1 := push_bit 6 (sextet AND 0x03)],
                         b64_out_index := oi + 1, b64_st := 3\<rparr>))
         else if b64_st s = 3 then
           (if oi \<ge> est then None
            else Some (s\<lparr>b64_buf := buf[oi := (buf ! oi) OR sextet],
                         b64_out_index := oi + 1, b64_st := 0\<rparr>))
         else None)"

text \<open>
  The main loop over what is left of the input. It returns what is left at its end: nothing, or
  the input from the first padding character on.
\<close>

fun b64_decode_loop :: "nat \<Rightarrow> byte list \<Rightarrow> b64_state \<Rightarrow> (byte list \<times> b64_state) option" where
  "b64_decode_loop est [] s = Some ([], s)"
| "b64_decode_loop est (c # cs) s =
     (let s = s\<lparr>b64_ch := c\<rparr>
      in if b64_isspace c then b64_decode_loop est cs s
         else if c = b64_PAD then Some (c # cs, s)
         else let sextet = b64_decoding_table ! unat c
              in if sextet = 0xFF then None
                 else case b64_switch est sextet s of
                        None \<Rightarrow> None
                      | Some s' \<Rightarrow> b64_decode_loop est cs s')"

text \<open>
  The two scans after padding: \<open>for (; ch != 0 && i < input_length; ch = data[i++])\<close>. The first
  stops at a character that is no space, the second rejects it.
\<close>

fun b64_skip_spaces :: "byte \<Rightarrow> byte list \<Rightarrow> byte \<times> byte list" where
  "b64_skip_spaces ch [] = (ch, [])"
| "b64_skip_spaces ch (c # cs) =
     (if ch \<noteq> 0 then (if \<not> b64_isspace ch then (ch, c # cs) else b64_skip_spaces c cs)
      else (ch, c # cs))"

fun b64_only_spaces :: "byte \<Rightarrow> byte list \<Rightarrow> bool" where
  "b64_only_spaces ch [] = True"
| "b64_only_spaces ch (c # cs) =
     (if ch \<noteq> 0 then (if \<not> b64_isspace ch \<and> ch \<noteq> 0 then False else b64_only_spaces c cs)
      else True)"

datatype b64_result =
    B64_null
  | B64_out_of_bounds
  | B64_data "byte list"

text \<open>The check for bits left over, \<open>decoded_data[out_index] != 0\<close>, common to both cases.\<close>

definition b64_finish :: "byte \<Rightarrow> byte list \<Rightarrow> b64_state \<Rightarrow> b64_result" where
  "b64_finish ch rest s =
     (if \<not> b64_only_spaces ch rest then B64_null
      else if b64_buf s ! b64_out_index s \<noteq> 0 then B64_null
      else B64_data (take (b64_out_index s) (b64_buf s)))"

text \<open>
  \<open>data[i++]\<close>: the head of the remaining input, or, with none left, the first of the bytes
  \<open>beyond\<close> that the caller's buffer has after the input's end; \<open>None\<close> when it has none.
\<close>

definition b64_read :: "byte list \<Rightarrow> byte list \<Rightarrow> (byte \<times> byte list) option" where
  "b64_read beyond rest =
     (case rest of
        c # cs \<Rightarrow> Some (c, cs)
      | [] \<Rightarrow> (case beyond of [] \<Rightarrow> None | b # _ \<Rightarrow> Some (b, [])))"

definition b64_after_two :: "byte list \<Rightarrow> byte \<times> byte list \<Rightarrow> b64_state \<Rightarrow> b64_result" where
  "b64_after_two beyond p s =
     (if fst p \<noteq> b64_PAD then B64_null
      else case b64_read beyond (snd p) of
             None \<Rightarrow> B64_out_of_bounds
           | Some (ch, rest) \<Rightarrow> b64_finish ch rest s)"

definition b64_after_pad :: "byte list \<Rightarrow> byte list \<Rightarrow> b64_state \<Rightarrow> b64_result" where
  "b64_after_pad beyond rest s =
     (case b64_read beyond rest of
        None \<Rightarrow> B64_out_of_bounds
      | Some (ch, rest) \<Rightarrow>
          if b64_st s = 0 \<or> b64_st s = 1 then B64_null
          else if b64_st s = 2 then b64_after_two beyond (b64_skip_spaces ch rest) s
          else if b64_st s = 3 then b64_finish ch rest s
          else B64_data (take (b64_out_index s) (b64_buf s)))"

definition b64_estimate :: "nat \<Rightarrow> nat" where
  "b64_estimate input_length = (input_length div 4) * 3"

text \<open>
  \<open>junk\<close> is the content of the buffer that \<open>malloc\<close> returns; \<open>data\<close> holds the \<open>input_length\<close> bytes
  of the input and \<open>beyond\<close> what the caller's buffer holds after them.
\<close>

definition b64_conclude :: "byte list \<Rightarrow> (byte list \<times> b64_state) option \<Rightarrow> b64_result" where
  "b64_conclude beyond r =
     (case r of
        None \<Rightarrow> B64_null
      | Some (rest, s) \<Rightarrow>
          if b64_ch s = b64_PAD then b64_after_pad beyond rest s
          else if b64_st s \<noteq> 0 then B64_null
          else B64_data (take (b64_out_index s) (b64_buf s)))"

definition base64_decode ::
  "(nat \<Rightarrow> bool) \<Rightarrow> (nat \<Rightarrow> byte) \<Rightarrow> byte list \<Rightarrow> byte list \<Rightarrow> b64_result" where
  "base64_decode malloc junk data beyond =
     (let est = b64_estimate (length data)
      in if \<not> malloc est then B64_null
         else b64_conclude beyond (b64_decode_loop est data
                \<lparr>b64_out_index = 0, b64_st = 0, b64_buf = map junk [0..<est], b64_ch = 0\<rparr>))"

subsection \<open>URL-safe variants\<close>

definition url_of_b64 :: "byte \<Rightarrow> byte" where
  "url_of_b64 c = (if c = 43 then 45 else if c = 47 then 95 else c)"

definition b64_of_url :: "byte \<Rightarrow> byte" where
  "b64_of_url c = (if c = 45 then 43 else if c = 95 then 47 else c)"

text \<open>
  \<open>url_base64_encode\<close> rewrites the first \<open>output_length\<close> bytes of the buffer. When the allocation
  fails it writes through a null pointer (outer \<open>None\<close>), unless there is nothing to rewrite.
\<close>

definition url_base64_encode ::
  "(nat \<Rightarrow> bool) \<Rightarrow> byte list \<Rightarrow> bool \<Rightarrow> (byte list option \<times> nat) option" where
  "url_base64_encode malloc data add_line_breaks =
     (case base64_encode malloc data add_line_breaks of
        (None, n) \<Rightarrow> if n = 0 then Some (None, n) else None
      | (Some buf, n) \<Rightarrow> Some (Some (map url_of_b64 (take n buf) @ drop n buf), n))"

text \<open>
  \<open>url_base64_decode\<close> works on a copy; \<open>memset\<close> through a null pointer (outer \<open>None\<close>) when that
  allocation fails. The copy has a zero byte after the input's end.
\<close>

definition url_base64_decode ::
  "(nat \<Rightarrow> bool) \<Rightarrow> (nat \<Rightarrow> byte) \<Rightarrow> byte list \<Rightarrow> b64_result option" where
  "url_base64_decode malloc junk data =
     (if \<not> malloc (length data + 1) then None
      else Some (base64_decode malloc junk (map b64_of_url data) [0]))"

subsection \<open>The tables and the sextets\<close>

definition b64_dec :: "byte \<Rightarrow> byte" where
  "b64_dec c = b64_decoding_table ! unat c"

lemma b64_table_inverse:
  "\<forall>n\<in>set [0..<64]. let c = b64_encoding_table ! n in
     b64_dec c = of_nat n \<and> \<not> b64_isspace c \<and> c \<noteq> b64_PAD"
  by code_simp

lemma b64_enc_char:
  assumes "unat (x::byte) < 64"
  shows "b64_decoding_table ! unat (b64_encoding_table ! unat x) = x"
    and "\<not> b64_isspace (b64_encoding_table ! unat x)"
    and "b64_encoding_table ! unat x \<noteq> b64_PAD"
  using b64_table_inverse [THEN bspec, of "unat x"] assms by (simp_all add: Let_def b64_dec_def)

definition sext0 where "sext0 a = (drop_bit 2 a :: byte)"
definition sext1 where "sext1 a b = (push_bit 4 (a AND 3) OR drop_bit 4 b :: byte)"
definition sext2 where "sext2 b c = (push_bit 2 (b AND 15) OR drop_bit 6 c :: byte)"
definition sext3 where "sext3 c = (c AND 63 :: byte)"

lemma b64_triple_bits:
  "b64_triple a b c = push_bit 16 (ucast a) OR push_bit 8 (ucast b) OR ucast c"
proof -
  have 1: "push_bit 16 (ucast a :: 32 word) AND push_bit 8 (ucast b) = 0"
    by (rule bit_word_eqI) (auto simp: bit_simps dest: bit_imp_le_length)
  have 2: "(push_bit 16 (ucast a) OR push_bit 8 (ucast b)) AND (ucast c :: 32 word) = 0"
    by (rule bit_word_eqI) (auto simp: bit_simps dest: bit_imp_le_length)
  have "push_bit 16 (ucast a :: 32 word) + push_bit 8 (ucast b) = push_bit 16 (ucast a) OR push_bit 8 (ucast b)"
    using 1 by (simp add: disjunctive_add_eq_or)
  then show ?thesis using 2 unfolding b64_triple_def
    by (simp add: disjunctive_add_eq_or or.assoc)
qed

lemma unat_ucast_byte: "unat (w AND 63 :: 32 word) = unat (ucast (w AND 63) :: byte)"
proof -
  have "w AND 63 \<le> (63 :: 32 word)" by (rule word_and_le1)
  then have "unat (w AND 63) \<le> 63" by (simp add: word_le_nat_alt)
  then show ?thesis by (simp add: unsigned_ucast_eq take_bit_nat_eq_self)
qed

lemma b64_sextets:
  "ucast (drop_bit (3 * 6) (b64_triple a b c) AND 63) = sext0 a"
  "ucast (drop_bit (2 * 6) (b64_triple a b c) AND 63) = sext1 a b"
  "ucast (drop_bit (1 * 6) (b64_triple a b c) AND 63) = sext2 b c"
  "ucast (drop_bit (0 * 6) (b64_triple a b c) AND 63) = sext3 c"
  unfolding b64_triple_bits sext0_def sext1_def sext2_def sext3_def
  by (rule byte_eqI; auto simp: bit_simps dest: bit_imp_le_length)+

lemma sext_less [codec_simps]: "unat (sext0 a) < 64" "unat (sext1 a b) < 64" "unat (sext2 b c) < 64" "unat (sext3 c) < 64"
proof -
  have "unat (ucast (w AND 63) :: byte) < 64" for w :: "32 word"
    unfolding unat_ucast_byte [symmetric] using word_and_le1 [of w 63] by (simp add: word_le_nat_alt)
  from this [of "drop_bit (3 * 6) (b64_triple a b c)"] this [of "drop_bit (2 * 6) (b64_triple a b c)"]
    this [of "drop_bit (1 * 6) (b64_triple a b c)"] this [of "drop_bit (0 * 6) (b64_triple a b c)"]
  show "unat (sext0 a) < 64" "unat (sext1 a b) < 64" "unat (sext2 b c) < 64" "unat (sext3 c) < 64"
    unfolding b64_sextets .
qed

lemma b64_quad_sextets:
  "b64_quad a b c = map (\<lambda>x. b64_encoding_table ! unat x) [sext0 a, sext1 a b, sext2 b c, sext3 c]"
  unfolding b64_quad_def Let_def unat_ucast_byte b64_sextets by simp

lemma byte_eq_cases:
  assumes "bit (a::byte) 0 = bit b 0" "bit a 1 = bit b 1" "bit a 2 = bit b 2" "bit a 3 = bit b 3"
    "bit a 4 = bit b 4" "bit a 5 = bit b 5" "bit a 6 = bit b 6" "bit a 7 = bit b 7"
  shows "a = b"
  using assms by (intro byte_eqI) auto

lemma sext_join:
  "push_bit 2 (sext0 a) OR drop_bit 4 (sext1 a b) = a"
  "push_bit 4 (sext1 a b AND 15) OR drop_bit 2 (sext2 b c) = b"
  "push_bit 6 (sext2 b c AND 3) OR sext3 c = c"
  unfolding sext0_def sext1_def sext2_def sext3_def
  by (rule byte_eq_cases; simp add: bit_simps; simp add: numeral_2_eq_2 numeral_3_eq_3)+

lemmas sext_join_simps [codec_simps] = sext_join sext_join [simplified]

lemma sext_not_FF [codec_simps]: "unat x < 64 \<Longrightarrow> (x::byte) \<noteq> 255"
  by auto

text \<open>One encoded group of three bytes, decoded from state 0.\<close>

definition b64_at :: "nat \<Rightarrow> nat \<Rightarrow> byte list \<Rightarrow> byte \<Rightarrow> b64_state" where
  "b64_at oi st buf ch = \<lparr>b64_out_index = oi, b64_st = st, b64_buf = buf, b64_ch = ch\<rparr>"

lemma b64_decode_char:
  assumes "unat x < 64"
  shows "b64_decode_loop est (b64_encoding_table ! unat x # cs) s =
    (case b64_switch est x (s\<lparr>b64_ch := b64_encoding_table ! unat x\<rparr>) of
       None \<Rightarrow> None | Some s' \<Rightarrow> b64_decode_loop est cs s')"
  using b64_enc_char [OF assms] sext_not_FF [OF assms] by (simp add: Let_def)

lemma b64_decode_quad:
  assumes "length buf = est" and "oi + 3 \<le> est"
  shows "\<exists>ch. ch \<noteq> b64_PAD \<and> b64_decode_loop est (b64_quad a b c @ cs) (b64_at oi 0 buf ch0) =
    b64_decode_loop est cs (b64_at (oi + 3) 0 (buf[oi := a, oi + 1 := b, oi + 2 := c]) ch)"
  using assms
  by (intro exI [of _ "b64_encoding_table ! unat (sext3 c)"] conjI)
    (simp_all del: b64_decode_loop.simps add: b64_quad_sextets b64_decode_char codec_simps b64_enc_char
      b64_switch_def b64_at_def list_update_swap nth_list_update numeral_3_eq_3)

subsection \<open>Lengths\<close>

lemma length_b64_quad [simp]: "length (b64_quad a b c) = 4"
  by (simp add: b64_quad_def Let_def)

lemma length_b64_encode_loop:
  assumes "lc < 19"
  shows "length (b64_encode_loop br lc ds) =
    (let g = (length ds + 2) div 3 in if br then 4 * g + 2 * ((lc + g) div 19) else 4 * g)"
  using assms
proof (induction br lc ds rule: b64_encode_loop.induct)
  case (4 br lc a b c ds)
  have "b64_next_count br lc < 19" using 4 by (simp add: b64_next_count_def)
  note IH = "4.IH" [OF this]
  have len: "(length (a # b # c # ds) + 2) div 3 = Suc ((length ds + 2) div 3)" by simp
  have "length (b64_encode_loop br lc (a # b # c # ds)) =
      4 + length (b64_break br lc) + length (b64_encode_loop br (b64_next_count br lc) ds)"
    by simp
  with IH "4.prems" show ?case
    unfolding len Let_def by (auto simp: b64_break_def b64_next_count_def div_add_self1)
qed (auto simp: b64_break_def Let_def)

lemma b64_output_length_exact: "length (b64_encode_loop br 0 ds) = b64_output_length br (length ds)"
  by (simp add: length_b64_encode_loop b64_output_length_def Let_def)

subsection \<open>Round trip\<close>

definition b64_count_after :: "bool \<Rightarrow> nat \<Rightarrow> nat \<Rightarrow> nat" where
  "b64_count_after br lc k = (if br then (lc + k) mod 19 else lc)"

lemma b64_encode_loop_append:
  assumes "length us = 3 * k" and "lc < 19"
  shows "b64_encode_loop br lc (us @ vs) =
    b64_encode_loop br lc us @ b64_encode_loop br (b64_count_after br lc k) vs"
  using assms
proof (induction br lc us arbitrary: k rule: b64_encode_loop.induct)
  case (1 br lc)
  then show ?case by (simp add: b64_count_after_def)
next
  case (4 br lc a b c ds)
  then obtain k' where k: "k = Suc k'" and len: "length ds = 3 * k'"
    by (cases k) auto
  have nc: "b64_next_count br lc < 19" using 4 by (simp add: b64_next_count_def)
  have "b64_count_after br (b64_next_count br lc) k' = b64_count_after br lc k"
    using "4.prems" by (auto simp: k b64_count_after_def b64_next_count_def)
  with "4.IH" [OF len nc] show ?case by simp
qed (simp; presburger)+

lemma b64_decode_break:
  "\<exists>ch. ch \<noteq> b64_PAD \<and> b64_decode_loop est (b64_break br lc @ cs) (b64_at oi st buf ch0) =
     b64_decode_loop est cs (b64_at oi st buf ch)" if "ch0 \<noteq> b64_PAD"
proof (cases "b64_break br lc = []")
  case True
  with that show ?thesis by auto
next
  case False
  then have "b64_break br lc = [13, 10]" by (auto simp: b64_break_def split: if_splits)
  then show ?thesis
    by (intro exI [of _ 10]) (simp add: b64_isspace_def b64_at_def)
qed

lemma b64_decode_groups:
  assumes "length us = 3 * k" and "length buf = est" and "oi + length us \<le> est" and "ch0 \<noteq> b64_PAD"
  shows "\<exists>ch. ch \<noteq> b64_PAD \<and>
    b64_decode_loop est (b64_encode_loop br lc us @ cs) (b64_at oi 0 buf ch0) =
    b64_decode_loop est cs (b64_at (oi + length us) 0 (splice_at 0 buf oi us) ch)"
  using assms
proof (induction br lc us arbitrary: k oi buf ch0 rule: b64_encode_loop.induct)
  case (1 br lc)
  then show ?case by (auto simp: splice_at_def)
next
  case (4 br lc a b c ds)
  then obtain k' where len: "length ds = 3 * k'" by (cases k) auto
  let ?buf = "buf[oi := a, oi + 1 := b, oi + 2 := c]"
  let ?nc = "b64_next_count br lc"
  obtain ch1 where ch1: "ch1 \<noteq> b64_PAD"
    and q: "b64_decode_loop est (b64_quad a b c @ b64_break br lc @ b64_encode_loop br ?nc ds @ cs)
        (b64_at oi 0 buf ch0) =
      b64_decode_loop est (b64_break br lc @ b64_encode_loop br ?nc ds @ cs) (b64_at (oi + 3) 0 ?buf ch1)"
    using b64_decode_quad [of buf est oi a b c "b64_break br lc @ b64_encode_loop br ?nc ds @ cs" ch0]
      "4.prems" by auto
  obtain ch2 where ch2: "ch2 \<noteq> b64_PAD"
    and br: "b64_decode_loop est (b64_break br lc @ b64_encode_loop br ?nc ds @ cs) (b64_at (oi + 3) 0 ?buf ch1) =
      b64_decode_loop est (b64_encode_loop br ?nc ds @ cs) (b64_at (oi + 3) 0 ?buf ch2)"
    using b64_decode_break [OF ch1] by blast
  obtain ch3 where "ch3 \<noteq> b64_PAD"
    and "b64_decode_loop est (b64_encode_loop br ?nc ds @ cs) (b64_at (oi + 3) 0 ?buf ch2) =
      b64_decode_loop est cs (b64_at (oi + 3 + length ds) 0 (splice_at 0 ?buf (oi + 3) ds) ch3)"
    using "4.IH" [OF len, of ?buf "oi + 3" ch2] "4.prems" ch2 by auto
  moreover have "?buf = splice_at 0 buf oi [a, b, c]"
    using "4.prems" by (intro nth_equalityI) (auto simp: nth_splice_at nth_list_update nth_Cons' )
  moreover have "oi \<le> length buf" using "4.prems" by simp
  ultimately show ?case
    using q br splice_at_splice_at_adjacent [of oi buf 0 "[a, b, c]" ds]
    by (intro exI [of _ ch3]) (simp add: add.assoc numeral_3_eq_3)
qed (simp; presburger)+


text \<open>The last, padded group, when no line break follows it.\<close>

lemma b64_tail_two:
  assumes "length buf = est" and "oi + 3 \<le> est"
  shows "\<exists>s. b64_decode_loop est (take 3 (b64_quad a b 0) @ [b64_PAD]) (b64_at oi 0 buf ch0) =
      Some ([b64_PAD], s) \<and> b64_ch s = b64_PAD \<and> b64_st s = 3 \<and> b64_out_index s = oi + 2 \<and>
      b64_buf s = buf[oi := a, oi + 1 := b, oi + 2 := 0]"
proof -
  have z: "push_bit 6 (sext2 b 0 AND 3) = 0"
    unfolding sext2_def by (rule byte_eq_cases; simp add: bit_simps)
  then have z': "push_bit 6 (sext2 b 0) AND 192 = 0" by simp
  show ?thesis
    using assms
    by (simp del: b64_decode_loop.simps add: b64_quad_sextets b64_decode_char codec_simps b64_enc_char
      b64_switch_def b64_at_def list_update_swap nth_list_update z z')
     (simp add: b64_isspace_def list_update_swap)
qed

lemma b64_tail_one:
  assumes "length buf = est" and "oi + 3 \<le> est"
  shows "\<exists>s. b64_decode_loop est (take 2 (b64_quad a 0 0) @ [b64_PAD, b64_PAD]) (b64_at oi 0 buf ch0) =
      Some ([b64_PAD, b64_PAD], s) \<and> b64_ch s = b64_PAD \<and> b64_st s = 2 \<and> b64_out_index s = oi + 1 \<and>
      b64_buf s = buf[oi := a, oi + 1 := 0]"
proof -
  have z: "push_bit 4 (sext1 a 0 AND 15) = 0"
    unfolding sext1_def by (rule byte_eq_cases; simp add: bit_simps)
  then have z': "push_bit 4 (sext1 a 0) AND 240 = 0" by simp
  show ?thesis
    using assms
    by (simp del: b64_decode_loop.simps add: b64_quad_sextets b64_decode_char codec_simps b64_enc_char
      b64_switch_def b64_at_def list_update_swap nth_list_update z z')
     (simp add: b64_isspace_def list_update_swap)
qed


definition b64_text :: "bool \<Rightarrow> byte list \<Rightarrow> byte list" where
  "b64_text br ds = b64_pad (b64_output_length br (length ds)) (b64_mod_table ! (length ds mod 3))
     (b64_encode_loop br 0 ds)"

lemma length_b64_pad [simp]: "length (b64_pad n m xs) = length xs"
  by (induction m) simp_all

lemma b64_pad_append: "m \<le> length xs \<Longrightarrow> b64_pad (length xs) m (xs @ ys) = b64_pad (length xs) m xs @ ys"
  by (induction m) (simp_all add: list_update_append1)

lemma b64_mod_table_le: "b64_mod_table ! (length ds mod 3) \<le> length (b64_encode_loop br 0 ds)"
proof -
  have "length ds mod 3 = 0 \<or> length ds mod 3 = 1 \<or> length ds mod 3 = 2" by presburger
  then show ?thesis
  proof (elim disjE)
    assume "length ds mod 3 = 1"
    then have "1 \<le> (length ds + 2) div 3" by presburger
    then show ?thesis using \<open>length ds mod 3 = 1\<close>
      by (simp add: b64_mod_table_def length_b64_encode_loop Let_def)
  next
    assume "length ds mod 3 = 2"
    then have "1 \<le> (length ds + 2) div 3" by presburger
    then show ?thesis using \<open>length ds mod 3 = 2\<close>
      by (simp add: b64_mod_table_def length_b64_encode_loop Let_def)
  qed (simp add: b64_mod_table_def)
qed

lemma length_b64_text [simp]: "length (b64_text br ds) = b64_output_length br (length ds)"
  by (simp add: b64_text_def b64_output_length_exact)

lemma base64_encode_text:
  "malloc (b64_output_length br (length ds) + 1) \<Longrightarrow>
   base64_encode malloc ds br = (Some (b64_text br ds @ [0]), b64_output_length br (length ds))"
  using b64_pad_append [OF b64_mod_table_le [of ds br], of "[0]"]
  by (simp add: base64_encode_def b64_text_def Let_def b64_output_length_exact)

text \<open>The text in terms of the full groups \<open>us\<close> and the last group \<open>vs\<close>.\<close>

lemma b64_text_split:
  assumes us: "length us = 3 * k" and lc: "lc = b64_count_after br 0 k"
  shows "b64_text br us = b64_encode_loop br 0 us"
    and "b64_break br lc = [] \<Longrightarrow>
      b64_text br (us @ [a, b]) = b64_encode_loop br 0 us @ take 3 (b64_quad a b 0) @ [b64_PAD]"
    and "b64_break br lc = [] \<Longrightarrow>
      b64_text br (us @ [a]) = b64_encode_loop br 0 us @ take 2 (b64_quad a 0 0) @ [b64_PAD, b64_PAD]"
    and "b64_break br lc \<noteq> [] \<Longrightarrow>
      b64_text br (us @ [a, b]) = b64_encode_loop br 0 us @ b64_quad a b 0 @ [13, b64_PAD]"
    and "b64_break br lc \<noteq> [] \<Longrightarrow>
      b64_text br (us @ [a]) = b64_encode_loop br 0 us @ b64_quad a 0 0 @ [b64_PAD, b64_PAD]"
proof -
  have "length (us @ [a]) = 1 + 3 * k" "length (us @ [a, b]) = 2 + 3 * k" using us by simp_all
  then have mods: "length us mod 3 = 0" "length (us @ [a]) mod 3 = 1" "length (us @ [a, b]) mod 3 = 2"
    using us by (simp_all only: mod_mult_self1_is_0 mod_mult_self2) simp_all
  have q: "b64_quad x y z = take 2 (b64_quad x y z) @ [b64_quad x y z ! 2, b64_quad x y z ! 3]"
    "b64_quad x y z = take 3 (b64_quad x y z) @ [b64_quad x y z ! 3]" for x y z
    by (simp_all add: b64_quad_def Let_def)
  have pad2: "b64_pad (length (xs @ [x, y])) 2 (xs @ [x, y]) = xs @ [b64_PAD, b64_PAD]" for x y xs
    by (simp add: numeral_2_eq_2 list_update_append)
  have pad1: "b64_pad (length (xs @ [y])) 1 (xs @ [y]) = xs @ [b64_PAD]" for y xs
    by (simp add: list_update_append)
  have olen: "b64_output_length br (Suc (length us)) =
      length (b64_encode_loop br 0 us) + 4 + length (b64_break br lc)"
    "b64_output_length br (Suc (Suc (length us))) =
      length (b64_encode_loop br 0 us) + 4 + length (b64_break br lc)"
    using b64_output_length_exact [of br "us @ [a]"] b64_output_length_exact [of br "us @ [a, b]"]
    by (simp_all add: b64_encode_loop_append [OF us] lc)
  note unf = b64_text_def olen b64_encode_loop_append [OF us] lc [symmetric] b64_mod_table_def
  show "b64_text br us = b64_encode_loop br 0 us"
    using mods(1) by (simp add: b64_text_def b64_mod_table_def)
  show "b64_text br (us @ [a, b]) = b64_encode_loop br 0 us @ take 3 (b64_quad a b 0) @ [b64_PAD]"
    if "b64_break br lc = []"
    using that mods(3) pad1 [of "b64_encode_loop br 0 us @ take 3 (b64_quad a b 0)" "b64_quad a b 0 ! 3"]
    by (simp add: unf q(2) [symmetric])
  show "b64_text br (us @ [a]) = b64_encode_loop br 0 us @ take 2 (b64_quad a 0 0) @ [b64_PAD, b64_PAD]"
    if "b64_break br lc = []"
    using that mods(2)
      pad2 [of "b64_encode_loop br 0 us @ take 2 (b64_quad a 0 0)" "b64_quad a 0 0 ! 2" "b64_quad a 0 0 ! 3"]
    by (simp add: unf q(1) [symmetric])
  have br: "b64_break br lc \<noteq> [] \<Longrightarrow> b64_break br lc = [13, 10]"
    by (auto simp: b64_break_def split: if_splits)
  show "b64_text br (us @ [a, b]) = b64_encode_loop br 0 us @ b64_quad a b 0 @ [13, b64_PAD]"
    if "b64_break br lc \<noteq> []"
    using br [OF that] mods(3) pad1 [of "b64_encode_loop br 0 us @ b64_quad a b 0 @ [13]" 10]
    by (simp add: unf)
  show "b64_text br (us @ [a]) = b64_encode_loop br 0 us @ b64_quad a 0 0 @ [b64_PAD, b64_PAD]"
    if "b64_break br lc \<noteq> []"
    using br [OF that] mods(2) pad2 [of "b64_encode_loop br 0 us @ b64_quad a 0 0" 13 10]
    by (simp add: unf add.commute)
qed

lemma b64_break_last:
  "b64_break br (b64_count_after br 0 (n div 3)) \<noteq> [] \<and> n mod 3 \<noteq> 0 \<longleftrightarrow>
   br \<and> (n mod 57 = 55 \<or> n mod 57 = 56)"
proof -
  have "n mod 57 = 3 * (n div 3 mod 19) + n mod 3" using mod_mult2_eq [of n 3 19] by simp
  moreover have "n div 3 mod 19 < 19" "n mod 3 < 3" by simp_all
  ultimately have "n div 3 mod 19 = 18 \<and> n mod 3 \<noteq> 0 \<longleftrightarrow> n mod 57 = 55 \<or> n mod 57 = 56"
    by linarith
  then show ?thesis by (auto simp: b64_break_def b64_count_after_def)
qed

lemma b64_groups_split:
  obtains us vs k where "ds = us @ vs" "length us = 3 * k" "k = length ds div 3" "length vs = length ds mod 3"
proof -
  have "length (take (3 * (length ds div 3)) ds) = 3 * (length ds div 3)"
    "length (drop (3 * (length ds div 3)) ds) = length ds mod 3"
    by (simp_all add: minus_mult_div_eq_mod)
  then show thesis using that [of "take (3 * (length ds div 3)) ds" "drop (3 * (length ds div 3)) ds"]
    by simp
qed

lemma b64_estimate_enough:
  "3 * ((length ds + 2) div 3) \<le> b64_estimate (length (b64_text br ds))"
  by (simp add: b64_estimate_def b64_output_length_def Let_def) 

text \<open>
  Decoding a text that starts with full groups: the decoder reaches the rest of the text in
  state 0 with the groups' bytes in its buffer. \<open>b64_ready\<close> names that situation.
\<close>

definition b64_ready :: "nat \<Rightarrow> byte list \<Rightarrow> byte list \<Rightarrow> bool" where
  "b64_ready est us buf \<longleftrightarrow> length buf = est \<and> length us \<le> est \<and> take (length us) buf = us"

lemma base64_decode_groups:
  assumes us: "length us = 3 * k" and m: "malloc est"
    and est: "est = b64_estimate (length (b64_encode_loop br 0 us @ cs))" and room: "length us \<le> est"
  shows "\<exists>buf ch. ch \<noteq> b64_PAD \<and> b64_ready est us buf \<and>
    base64_decode malloc junk (b64_encode_loop br 0 us @ cs) beyond =
      b64_conclude beyond (b64_decode_loop est cs (b64_at (length us) 0 buf ch))"
proof -
  let ?b0 = "map junk [0..<est]"
  have "length ?b0 = est" by simp
  then obtain ch where ch: "ch \<noteq> b64_PAD"
    "b64_decode_loop est (b64_encode_loop br 0 us @ cs) (b64_at 0 0 ?b0 0) =
     b64_decode_loop est cs (b64_at (length us) 0 (splice_at 0 ?b0 0 us) ch)"
    using b64_decode_groups [OF us, of ?b0 est 0 0 br 0 cs] room by auto
  have "b64_ready est us (splice_at 0 ?b0 0 us)"
    using room by (simp add: b64_ready_def splice_at_def)
  moreover have "base64_decode malloc junk (b64_encode_loop br 0 us @ cs) beyond =
      b64_conclude beyond (b64_decode_loop est cs (b64_at (length us) 0 (splice_at 0 ?b0 0 us) ch))"
    unfolding base64_decode_def Let_def est [symmetric] using m ch(2) by (simp add: b64_at_def)
  ultimately show ?thesis using ch(1) by blast
qed

lemma b64_ready_two:
  assumes "b64_ready est us buf" and "length us + 3 \<le> est"
  shows "b64_conclude beyond (b64_decode_loop est (take 3 (b64_quad a b 0) @ [b64_PAD])
    (b64_at (length us) 0 buf ch)) = B64_data (us @ [a, b])"
  using b64_tail_two [of buf est "length us" a b ch] assms
  by (auto simp: b64_ready_def b64_conclude_def b64_after_pad_def b64_read_def b64_finish_def
      take_Suc_conv_app_nth nth_list_update)

lemma b64_ready_one:
  assumes "b64_ready est us buf" and "length us + 3 \<le> est"
  shows "b64_conclude beyond (b64_decode_loop est (take 2 (b64_quad a 0 0) @ [b64_PAD, b64_PAD])
    (b64_at (length us) 0 buf ch)) = B64_data (us @ [a])"
  using b64_tail_one [of buf est "length us" a ch] assms
  by (auto simp: b64_ready_def b64_conclude_def b64_after_pad_def b64_read_def b64_finish_def
      b64_isspace_def b64_after_two_def take_Suc_conv_app_nth nth_list_update)

text \<open>A padding character after a complete group is rejected.\<close>

lemma b64_ready_bad:
  assumes "b64_ready est us buf" and "length us + 3 \<le> est"
    and "cs = [13, b64_PAD] \<or> cs = [b64_PAD, b64_PAD]"
  shows "b64_conclude beyond (b64_decode_loop est (b64_quad a b c @ cs) (b64_at (length us) 0 buf ch)) = B64_null"
proof -
  obtain ch' where "b64_decode_loop est (b64_quad a b c @ cs) (b64_at (length us) 0 buf ch) =
      b64_decode_loop est cs (b64_at (length us + 3) 0 (buf[length us := a, length us + 1 := b, length us + 2 := c]) ch')"
    using b64_decode_quad [of buf est "length us" a b c cs ch] assms(1,2) by (auto simp: b64_ready_def)
  with assms(3) show ?thesis
    by (auto simp: b64_conclude_def b64_at_def b64_isspace_def b64_after_pad_def b64_read_def Let_def)
qed

lemma b64_room:
  assumes "ds = us @ vs" "length us = 3 * k"
  shows "length us \<le> b64_estimate (length (b64_text br ds))"
    and "vs \<noteq> [] \<Longrightarrow> length us + 3 \<le> b64_estimate (length (b64_text br ds))"
proof -
  have "k \<le> (length ds + 2) div 3" using assms by (simp add: less_eq_div_iff_mult_less_eq)
  then show "length us \<le> b64_estimate (length (b64_text br ds))"
    using b64_estimate_enough [of ds br] assms(2) by linarith
next
  assume "vs \<noteq> []"
  then obtain l where "length vs = Suc l" by (cases vs) auto
  then have "3 * (k + 1) \<le> length ds + 2" using assms by simp
  then have "k + 1 \<le> (length ds + 2) div 3" by (simp add: less_eq_div_iff_mult_less_eq)
  then show "length us + 3 \<le> b64_estimate (length (b64_text br ds))"
    using b64_estimate_enough [of ds br] assms(2) by linarith
qed

text \<open>Decoding what the encoder wrote.\<close>

lemma base64_decode_text:
  assumes m: "malloc (b64_estimate (length (b64_text br ds)))"
  shows "base64_decode malloc junk (b64_text br ds) beyond =
    (if br \<and> (length ds mod 57 = 55 \<or> length ds mod 57 = 56) then B64_null else B64_data ds)"
proof -
  obtain us vs k where ds: "ds = us @ vs" and us: "length us = 3 * k" and k: "k = length ds div 3"
    and vs: "length vs = length ds mod 3"
    by (rule b64_groups_split)
  define est where "est = b64_estimate (length (b64_text br ds))"
  define lc where "lc = b64_count_after br 0 k"
  note room = b64_room [OF ds us, of br, folded est_def]
  note split = b64_text_split [OF us lc_def]
  note run = base64_decode_groups [where malloc = malloc and est = est and us = us and br = br
    and junk = junk and beyond = beyond, OF us m [folded est_def]]
  have iff: "br \<and> (length ds mod 57 = 55 \<or> length ds mod 57 = 56) \<longleftrightarrow> b64_break br lc \<noteq> [] \<and> vs \<noteq> []"
    using b64_break_last [of br "length ds"] vs unfolding lc_def k by auto
  have "length vs < 3" using vs by simp
  then consider "vs = []" | a where "vs = [a]" | a b where "vs = [a, b]"
    by (auto simp: numeral_3_eq_3 less_Suc_eq length_Suc_conv)
  then show ?thesis
  proof cases
    case 1
    then obtain buf ch where "ch \<noteq> b64_PAD" "b64_ready est us buf"
      "base64_decode malloc junk (b64_text br ds) beyond =
        b64_conclude beyond (b64_decode_loop est [] (b64_at (length us) 0 buf ch))"
      using run [of "[]"] split(1) room(1) est_def ds by auto
    then show ?thesis unfolding iff
      using 1 by (simp add: ds b64_conclude_def b64_at_def b64_ready_def)
  next
    case (2 a)
    show ?thesis
    proof (cases "b64_break br lc = []")
      case True
      then show ?thesis unfolding iff
        using 2 run [of "take 2 (b64_quad a 0 0) @ [b64_PAD, b64_PAD]"] split(3) [of a] room b64_ready_one est_def ds
        by (metis (no_types, lifting) list.discI)
    next
      case False
      then show ?thesis unfolding iff
        using 2 run [of "b64_quad a 0 0 @ [b64_PAD, b64_PAD]"] split(5) [of a] room b64_ready_bad est_def ds
        by (metis (no_types, lifting) list.discI)
    qed
  next
    case (3 a b)
    show ?thesis
    proof (cases "b64_break br lc = []")
      case True
      then show ?thesis unfolding iff
        using 3 run [of "take 3 (b64_quad a b 0) @ [b64_PAD]"] split(2) [of a b] room b64_ready_two est_def ds
        by (metis (no_types, lifting) list.discI)
    next
      case False
      then show ?thesis unfolding iff
        using 3 run [of "b64_quad a b 0 @ [13, b64_PAD]"] split(4) [of a b] room b64_ready_bad est_def ds
        by (metis (no_types, lifting) list.discI)
    qed
  qed
qed

subsection \<open>The URL-safe alphabet\<close>

definition url_clean :: "byte \<Rightarrow> bool" where
  "url_clean c \<longleftrightarrow> c \<noteq> 45 \<and> c \<noteq> 95"

lemma b64_table_url_clean: "\<forall>n\<in>set [0..<64]. url_clean (b64_encoding_table ! n)"
  by code_simp

lemma url_inverse: "url_clean c \<Longrightarrow> b64_of_url (url_of_b64 c) = c"
  by (auto simp: url_clean_def b64_of_url_def url_of_b64_def)

lemma b64_quad_url_clean: "\<forall>x\<in>set (b64_quad a b c). url_clean x"
  using b64_table_url_clean by (auto simp: b64_quad_sextets codec_simps)

lemma b64_encode_loop_url_clean: "\<forall>x\<in>set (b64_encode_loop br lc ds). url_clean x"
  by (induction br lc ds rule: b64_encode_loop.induct)
    (auto simp: b64_quad_url_clean b64_break_def url_clean_def dest: b64_quad_url_clean [rule_format])

lemma b64_pad_url_clean:
  "\<forall>x\<in>set xs. url_clean x \<Longrightarrow> \<forall>x\<in>set (b64_pad n m xs). url_clean x"
  by (induction m) (auto simp: url_clean_def dest: set_update_subset_insert [THEN subsetD])

lemma b64_text_url_clean: "\<forall>x\<in>set (b64_text br ds). url_clean x"
  unfolding b64_text_def by (rule b64_pad_url_clean) (rule b64_encode_loop_url_clean)

lemma map_url_inverse: "map b64_of_url (map url_of_b64 (b64_text br ds)) = b64_text br ds"
  using b64_text_url_clean [of br ds] by (simp add: map_idI url_inverse)

subsection \<open>Properties\<close>



text \<open>
  The URL-safe pair is a round trip as well (without line breaks).
\<close>

theorem url_base64_roundtrip:
  assumes "malloc (b64_output_length False (length ds) + 1)"
    and "malloc (b64_estimate (b64_output_length False (length ds)))"
  shows "\<exists>cs. url_base64_encode malloc ds False = Some (Some (cs @ [0]), length cs) \<and>
    url_base64_decode malloc junk cs = Some (B64_data ds)"
  using base64_encode_text [of malloc False ds] base64_decode_text [of malloc False ds junk "[0]"] assms
  by (intro exI [of _ "map url_of_b64 (b64_text False ds)"])
    (simp add: url_base64_encode_def url_base64_decode_def map_url_inverse del: map_map)

theorem url_base64_roundtrip_witness:
  "\<exists>cs. url_base64_encode (\<lambda>n. n < 50) [251, 255] False = Some (Some (cs @ [0]), length cs) \<and>
    url_base64_decode (\<lambda>n. n < 50) (\<lambda>_. 7) cs = Some (B64_data [251, 255])"
  by (rule url_base64_roundtrip) (simp_all add: b64_output_length_def b64_estimate_def)

text \<open>
  After two characters of a group the decoder takes the first padding character for both: a
  text that ends in \<open>=x\<close> decodes like one that ends in \<open>==\<close>, whatever character \<open>x\<close> is, although
  the code means to insist on a second padding character.
\<close>

theorem base64_second_pad_unchecked:
  assumes "malloc 3"
  shows "base64_decode malloc junk (take 2 (b64_quad a 0 0) @ [b64_PAD, x]) beyond = B64_data [a]"
proof -
  let ?s = "b64_at 0 0 (map junk [0..<3]) 0"
  have z: "push_bit 4 (sext1 a 0 AND 15) = 0"
    unfolding sext1_def by (rule byte_eq_cases; simp add: bit_simps)
  then have z': "push_bit 4 (sext1 a 0) AND 240 = 0" by simp
  have run: "b64_decode_loop 3 (take 2 (b64_quad a 0 0) @ [b64_PAD, x]) ?s =
    Some ([b64_PAD, x], b64_at 1 2 ((map junk [0..<3])[0 := a, 1 := 0]) b64_PAD)"
    by (simp del: b64_decode_loop.simps upt_rec_numeral add: b64_quad_sextets b64_decode_char codec_simps
        b64_enc_char b64_switch_def b64_at_def list_update_swap nth_list_update z z')
      (simp add: b64_isspace_def list_update_swap)
  then show ?thesis
    using assms unfolding base64_decode_def Let_def
    by (simp del: upt_rec_numeral b64_decode_loop.simps add: b64_estimate_def b64_at_def b64_conclude_def
        b64_after_pad_def b64_read_def b64_isspace_def b64_after_two_def b64_finish_def
        take_Suc_conv_app_nth nth_list_update)
qed

theorem base64_second_pad_unchecked_witness:
  "base64_decode (\<lambda>n. n < 50) (\<lambda>_. 7) (take 2 (b64_quad 65 0 0) @ [b64_PAD, 66]) [] = B64_data [65]"
  by (rule base64_second_pad_unchecked) simp



end
