(* ===== verification/EvQueue.thy ===== *)
theory EvQueue
  imports Prelude
begin

text \<open>
  The linked queue of \<open>src/evds/ev_queue.c\<close>, run by one thread: nodes in a heap, the queue header
  with its \<open>head\<close> (whose low bit marks a claimed node) and \<open>tail\<close>, and every operation of the file.
  The outcome of an operation is that of the prelude; it spins when it waits for a change that only
  another thread could make.
  The interface that the other components rely on is the locale \<open>fifo_queue\<close>, interpreted here on
  these operations.
\<close>

text \<open>\<open>uintptr_t\<close> values of \<open>head\<close>: null, an address, an address with the low bit set.\<close>

datatype hptr = HNull | HPtr nat | HMark nat

abbreviation EVQ_MAGIC_LIVE :: "64 word" where
  "EVQ_MAGIC_LIVE \<equiv> 0xC0FFEE1234ABCDEF"

abbreviation EVQ_MAGIC_FREED :: "64 word" where
  "EVQ_MAGIC_FREED \<equiv> 0xDEADF00DDEADF00D"

text \<open>A node; its \<open>id\<close>, a serial number that is only printed, is left out.\<close>

record 'a evq_node =
  nd_data :: "'a option"
  nd_next :: "nat option"
  nd_inflight :: bool
  nd_magic :: "64 word"

text \<open>
  \<open>q_heap\<close> holds the allocated nodes and \<open>q_brk\<close> is the address that the next \<open>malloc\<close> returns.
  \<open>e_count\<close> and \<open>d_count\<close> are C \<open>int\<close> counters.
\<close>

record 'a ev_queue =
  q_head :: hptr
  q_tail :: "nat option"
  e_count :: "32 word"
  d_count :: "32 word"
  q_heap :: "nat \<Rightarrow> 'a evq_node option"
  q_brk :: nat

definition create_ev_queue :: "'a ev_queue" where
  "create_ev_queue =
     \<lparr>q_head = HNull, q_tail = None, e_count = 0, d_count = 0, q_heap = (\<lambda>_. None), q_brk = 1\<rparr>"

definition peek :: "'a ev_queue \<Rightarrow> bool" where
  "peek q \<longleftrightarrow> q_head q \<noteq> HNull"

definition queue_empty :: "'a ev_queue \<Rightarrow> bool" where
  "queue_empty q \<longleftrightarrow> q_tail q = None"

text \<open>The assignments to the node that was the tail: in flight, the magic check, the link.\<close>

definition evq_link :: "'a ev_queue \<Rightarrow> nat \<Rightarrow> nat \<Rightarrow> 'a ev_queue outcome" where
  "evq_link q old_tail ptr =
     (case q_heap q old_tail of
        None \<Rightarrow> Bad_access
      | Some t \<Rightarrow>
          if nd_magic t \<noteq> EVQ_MAGIC_LIVE then Aborted
          else Done (q\<lparr>q_heap := (q_heap q)
                 (old_tail := Some (t\<lparr>nd_next := Some ptr, nd_inflight := False\<rparr>))\<rparr>))"

definition enqueue :: "'a ev_queue \<Rightarrow> 'a option \<Rightarrow> 'a ev_queue outcome" where
  "enqueue q data =
     (let ptr = q_brk q;
          node = \<lparr>nd_data = data, nd_next = None, nd_inflight = False, nd_magic = EVQ_MAGIC_LIVE\<rparr>;
          q1 = q\<lparr>q_heap := (q_heap q)(ptr := Some node), q_brk := Suc ptr,
                  q_tail := Some ptr, e_count := e_count q + 1\<rparr>
      in case q_tail q of
           Some old_tail \<Rightarrow> evq_link q1 old_tail ptr
         | None \<Rightarrow> Done (q1\<lparr>q_head := HPtr ptr\<rparr>))"

text \<open>
  The middle of \<open>dequeue\<close> and \<open>try_dequeue\<close>, after the head \<open>h\<close> has been marked: the successor to
  install, and the tail. When \<open>h\<close> has no successor the tail is cleared by compare-and-swap if it
  still is \<open>h\<close>; otherwise the loop waits for the successor's link, which no one sets.
\<close>

definition evq_unlink :: "'a ev_queue \<Rightarrow> nat \<Rightarrow> (nat option \<times> 'a ev_queue) outcome" where
  "evq_unlink q h =
     (case q_heap q h of
        None \<Rightarrow> Bad_access
      | Some n \<Rightarrow>
          (case nd_next n of
             Some nxt \<Rightarrow> Done (Some nxt, q)
           | None \<Rightarrow> if q_tail q = Some h then Done (None, q\<lparr>q_tail := None\<rparr>) else Spins))"

definition hptr_of :: "nat option \<Rightarrow> hptr" where
  "hptr_of p = (case p of None \<Rightarrow> HNull | Some a \<Rightarrow> HPtr a)"

text \<open>The second compare-and-swap on \<open>head\<close>: it expects the marked pointer.\<close>

definition evq_advance :: "'a ev_queue \<Rightarrow> nat \<Rightarrow> nat option \<Rightarrow> 'a ev_queue outcome" where
  "evq_advance q h nxt =
     (if q_head q = HMark h then Done (q\<lparr>q_head := hptr_of nxt\<rparr>) else Aborted)"

definition evq_free :: "'a ev_queue \<Rightarrow> nat \<Rightarrow> 'a ev_queue" where
  "evq_free q h = q\<lparr>q_heap := (q_heap q)(h := None)\<rparr>"

text \<open>The end of \<open>dequeue\<close>: the checks on the removed node, then it is freed.\<close>

definition evq_release :: "'a ev_queue \<Rightarrow> nat \<Rightarrow> ('a option \<times> 'a ev_queue) outcome" where
  "evq_release q h =
     (let q1 = q\<lparr>d_count := d_count q + 1\<rparr>
      in case q_heap q h of
           None \<Rightarrow> Bad_access
         | Some n \<Rightarrow>
             if nd_inflight n then Aborted
             else if nd_magic n \<noteq> EVQ_MAGIC_LIVE then Aborted
             else Done (nd_data n, evq_free q1 h))"

text \<open>
  The second read of \<open>tail\<close>, which \<open>dequeue\<close> asserts to be non-null, sees the value tested at the
  start when no other thread runs.
\<close>

definition dequeue :: "'a ev_queue \<Rightarrow> ('a option \<times> 'a ev_queue) outcome" where
  "dequeue q =
     (case q_tail q of
        None \<Rightarrow> Done (None, q)
      | Some _ \<Rightarrow>
          (case q_head q of
             HNull \<Rightarrow> Spins
           | HMark _ \<Rightarrow> Spins
           | HPtr h \<Rightarrow>
               (case evq_unlink (q\<lparr>q_head := HMark h\<rparr>) h of
                  Done (nxt, q1) \<Rightarrow>
                    (case evq_advance q1 h nxt of
                       Done q2 \<Rightarrow> evq_release q2 h
                     | Aborted \<Rightarrow> Aborted | Spins \<Rightarrow> Spins | Bad_access \<Rightarrow> Bad_access)
                | Aborted \<Rightarrow> Aborted | Spins \<Rightarrow> Spins | Bad_access \<Rightarrow> Bad_access)))"

text \<open>
  \<open>try_dequeue\<close> gives up with \<open>-1\<close> when the head is claimed; it returns its status with what it
  stores through \<open>retptrptr\<close>. It frees the node without the checks of \<open>dequeue\<close>.
\<close>

definition try_dequeue :: "'a ev_queue \<Rightarrow> (int \<times> 'a option \<times> 'a ev_queue) outcome" where
  "try_dequeue q =
     (case q_tail q of
        None \<Rightarrow> Done (0, None, q)
      | Some _ \<Rightarrow>
          (case q_head q of
             HNull \<Rightarrow> Done (0, None, q)
           | HMark _ \<Rightarrow> Done (-1, None, q)
           | HPtr h \<Rightarrow>
               (case evq_unlink (q\<lparr>q_head := HMark h\<rparr>) h of
                  Done (nxt, q1) \<Rightarrow>
                    (case evq_advance q1 h nxt of
                       Done q2 \<Rightarrow>
                         (case q_heap q2 h of
                            None \<Rightarrow> Bad_access
                          | Some n \<Rightarrow> Done (0, nd_data n, evq_free q2 h))
                     | Aborted \<Rightarrow> Aborted | Spins \<Rightarrow> Spins | Bad_access \<Rightarrow> Bad_access)
                | Aborted \<Rightarrow> Aborted | Spins \<Rightarrow> Spins | Bad_access \<Rightarrow> Bad_access)))"

text \<open>
  \<open>debug_queue\<close> walks the nodes from \<open>head\<close> and hands the data of each to the caller's function; the
  model collects them. The fuel bounds the nodes visited; \<open>q_brk\<close>, the number of nodes ever
  allocated, is enough for a chain without a cycle.
\<close>

fun evq_walk :: "nat \<Rightarrow> (nat \<Rightarrow> 'a evq_node option) \<Rightarrow> nat option \<Rightarrow> 'a option list outcome" where
  "evq_walk fuel h None = Done []"
| "evq_walk 0 h (Some a) = Spins"
| "evq_walk (Suc fuel) h (Some a) =
     (case h a of
        None \<Rightarrow> Bad_access
      | Some n \<Rightarrow>
          (case evq_walk fuel h (nd_next n) of
             Done ds \<Rightarrow> Done (nd_data n # ds)
           | Aborted \<Rightarrow> Aborted | Spins \<Rightarrow> Spins | Bad_access \<Rightarrow> Bad_access))"

definition debug_queue :: "'a ev_queue \<Rightarrow> 'a option list outcome" where
  "debug_queue q =
     (case q_head q of
        HNull \<Rightarrow> Done []
      | HPtr a \<Rightarrow> evq_walk (q_brk q) (q_heap q) (Some a)
      | HMark _ \<Rightarrow> Bad_access)"

text \<open>
  \<open>while ((qe = dequeue(q_ptr))) free(qe);\<close> of \<open>destroy_ev_queue\<close>: the freed elements in order and
  the queue at the end. \<open>wf_destroy_ev_queue\<close> runs the same loop without freeing the elements.
\<close>

fun destroy_ev_queue :: "nat \<Rightarrow> 'a ev_queue \<Rightarrow> ('a list \<times> 'a ev_queue) outcome" where
  "destroy_ev_queue 0 q = Spins"
| "destroy_ev_queue (Suc fuel) q =
     (case dequeue q of
        Done (None, q1) \<Rightarrow> Done ([], q1)
      | Done (Some qe, q1) \<Rightarrow>
          (case destroy_ev_queue fuel q1 of
             Done (freed, q2) \<Rightarrow> Done (qe # freed, q2)
           | Aborted \<Rightarrow> Aborted | Spins \<Rightarrow> Spins | Bad_access \<Rightarrow> Bad_access)
      | Aborted \<Rightarrow> Aborted | Spins \<Rightarrow> Spins | Bad_access \<Rightarrow> Bad_access)"

subsection \<open>The retirement ring\<close>

text \<open>
  \<open>evq_retire_node\<close> keeps the last \<open>EVQ_QUARANTINE_MAX\<close> removed nodes in a ring before it frees
  them. The result is the node to free, if any.
\<close>

abbreviation EVQ_QUARANTINE_MAX :: nat where
  "EVQ_QUARANTINE_MAX \<equiv> 64"

record 'n evq_ring =
  quarantine :: "'n list"
  q_len :: nat
  q_head_i :: nat

definition evq_retire_node :: "'n evq_ring \<Rightarrow> 'n \<Rightarrow> 'n option \<times> 'n evq_ring" where
  "evq_retire_node r n =
     (if q_len r < EVQ_QUARANTINE_MAX then
        let idx = (q_head_i r + q_len r) mod EVQ_QUARANTINE_MAX
        in (None, r\<lparr>quarantine := (quarantine r)[idx := n], q_len := q_len r + 1\<rparr>)
      else
        let to_free = quarantine r ! q_head_i r
        in (Some to_free, r\<lparr>quarantine := (quarantine r)[q_head_i r := n],
                            q_head_i := (q_head_i r + 1) mod EVQ_QUARANTINE_MAX\<rparr>))"

subsection \<open>The chain of nodes\<close>

fun evq_chain :: "(nat \<Rightarrow> 'a evq_node option) \<Rightarrow> nat option \<Rightarrow> nat list \<Rightarrow> bool" where
  "evq_chain h p [] \<longleftrightarrow> p = None"
| "evq_chain h p (a # as) \<longleftrightarrow> p = Some a \<and> (\<exists>n. h a = Some n \<and> evq_chain h (nd_next n) as)"

definition node_ok :: "'a evq_node option \<Rightarrow> bool" where
  "node_ok n \<longleftrightarrow> (\<exists>m. n = Some m \<and> nd_magic m = EVQ_MAGIC_LIVE \<and> \<not> nd_inflight m)"

definition evq_nodes :: "'a ev_queue \<Rightarrow> nat list \<Rightarrow> bool" where
  "evq_nodes q as \<longleftrightarrow>
     q_head q = hptr_of (if as = [] then None else Some (hd as)) \<and>
     q_tail q = (if as = [] then None else Some (last as)) \<and>
     evq_chain (q_heap q) (if as = [] then None else Some (hd as)) as \<and>
     distinct as \<and> (\<forall>a\<in>set as. a < q_brk q \<and> node_ok (q_heap q a))"

definition evq_inv :: "'a ev_queue \<Rightarrow> bool" where
  "evq_inv q \<longleftrightarrow> (\<exists>as. evq_nodes q as)"

definition evq_list :: "'a ev_queue \<Rightarrow> 'a option list" where
  "evq_list q = (case debug_queue q of Done ds \<Rightarrow> ds | _ \<Rightarrow> [])"

lemma evq_chain_upd [simp]: "a \<notin> set as \<Longrightarrow> evq_chain (h(a := n)) p as = evq_chain h p as"
  by (induction as arbitrary: p) auto

lemma evq_chain_snoc:
  "evq_chain h p (as @ [b]) \<Longrightarrow> h b = Some m \<Longrightarrow> b \<notin> set as \<Longrightarrow> c \<notin> set (as @ [b]) \<Longrightarrow>
   h c = Some k \<Longrightarrow> nd_next k = None \<Longrightarrow>
   evq_chain (h(b := Some (m\<lparr>nd_next := Some c, nd_inflight := False\<rparr>))) p (as @ [b, c])"
  by (induction as arbitrary: p) auto

lemma evq_chain_last: "evq_chain h p (as @ [b]) \<Longrightarrow> \<exists>m. h b = Some m \<and> nd_next m = None"
  by (induction as arbitrary: p) auto

lemma evq_walk_chain:
  "evq_chain h p as \<Longrightarrow> length as \<le> fuel \<Longrightarrow> evq_walk fuel h p = Done (map (\<lambda>a. nd_data (the (h a))) as)"
proof (induction as arbitrary: p fuel)
  case (Cons a as)
  then obtain f where "fuel = Suc f" by (cases fuel) auto
  with Cons show ?case by auto
qed simp

lemma evq_nodes_length: "evq_nodes q as \<Longrightarrow> length as \<le> q_brk q"
proof -
  assume n: "evq_nodes q as"
  then have "set as \<subseteq> {..<q_brk q}" by (auto simp: evq_nodes_def)
  then have "card (set as) \<le> q_brk q" using card_mono [of "{..<q_brk q}"] by fastforce
  with n show ?thesis by (simp add: evq_nodes_def distinct_card)
qed

lemma evq_list_nodes: "evq_nodes q as \<Longrightarrow> evq_list q = map (\<lambda>a. nd_data (the (q_heap q a))) as"
  using evq_nodes_length [of q as] evq_walk_chain [of "q_heap q" _ as "q_brk q"]
  by (cases as) (auto simp: evq_nodes_def evq_list_def debug_queue_def hptr_of_def)

lemma evq_nodes_create: "evq_nodes create_ev_queue []"
  by (simp add: evq_nodes_def create_ev_queue_def hptr_of_def)

lemma evq_nodes_enqueue:
  assumes "evq_nodes q as"
  shows "\<exists>q'. enqueue q d = Done q' \<and> evq_nodes q' (as @ [q_brk q]) \<and> evq_list q' = evq_list q @ [d]"
proof (cases as rule: rev_cases)
  case Nil
  with assms have "\<exists>q'. enqueue q d = Done q' \<and> evq_nodes q' [q_brk q] \<and> nd_data (the (q_heap q' (q_brk q))) = d"
    by (auto simp: enqueue_def evq_nodes_def hptr_of_def node_ok_def Let_def)
  with Nil assms show ?thesis using evq_list_nodes by fastforce
next
  case (snoc bs b)
  let ?p = "q_brk q"
  let ?node = "\<lparr>nd_data = d, nd_next = None, nd_inflight = False, nd_magic = EVQ_MAGIC_LIVE\<rparr>"
  from assms snoc obtain m where m: "q_heap q b = Some m" "nd_magic m = EVQ_MAGIC_LIVE" "nd_next m = None"
    using evq_chain_last [of "q_heap q" _ bs b] by (auto simp: evq_nodes_def node_ok_def)
  have fresh: "?p \<notin> set as" "b < ?p" using assms snoc by (auto simp: evq_nodes_def)
  let ?h = "(q_heap q)(?p := Some ?node, b := Some (m\<lparr>nd_next := Some ?p, nd_inflight := False\<rparr>))"
  let ?q = "q\<lparr>q_heap := ?h, q_brk := Suc ?p, q_tail := Some ?p, e_count := e_count q + 1\<rparr>"
  have enq: "enqueue q d = Done ?q"
    using assms snoc m fresh by (auto simp: enqueue_def evq_nodes_def evq_link_def Let_def)
  have "evq_chain (q_heap q) (Some (hd as)) (bs @ [b])" "b \<notin> set bs"
    using assms snoc by (auto simp: evq_nodes_def)
  then have "evq_chain ?h (Some (hd as)) (bs @ [b, ?p])"
    using evq_chain_snoc [of "(q_heap q)(?p := Some ?node)" "Some (hd as)" bs b m ?p ?node] m fresh snoc
    by auto
  then have "evq_nodes ?q (as @ [?p])"
    using assms snoc fresh m unfolding evq_nodes_def
    by (auto simp: node_ok_def hd_append hptr_of_def)
  moreover have "evq_list ?q = evq_list q @ [d]"
    using evq_list_nodes [OF calculation] evq_list_nodes [OF assms] m fresh snoc by auto
  ultimately show ?thesis using enq by blast
qed

lemma evq_nodes_dequeue:
  assumes "evq_nodes q (a # as)"
  shows "\<exists>q'. dequeue q = Done (nd_data (the (q_heap q a)), q') \<and> evq_nodes q' as \<and> evq_list q' = tl (evq_list q)"
proof -
  from assms obtain n where n: "q_heap q a = Some n" "nd_magic n = EVQ_MAGIC_LIVE" "\<not> nd_inflight n"
    "evq_chain (q_heap q) (nd_next n) as" "q_head q = HPtr a" "a \<notin> set as"
    by (auto simp: evq_nodes_def node_ok_def hptr_of_def)
  have nx: "nd_next n = (if as = [] then None else Some (hd as))" using n(4) by (cases as) auto
  let ?q = "q\<lparr>q_head := hptr_of (nd_next n), q_tail := (if as = [] then None else q_tail q),
    d_count := d_count q + 1, q_heap := (q_heap q)(a := None)\<rparr>"
  have d: "dequeue q = Done (nd_data n, ?q)"
    using assms n nx
    by (auto simp: dequeue_def evq_unlink_def evq_advance_def evq_release_def evq_free_def evq_nodes_def Let_def hptr_of_def)
  have "evq_nodes ?q as"
    using assms n nx by (auto simp: evq_nodes_def node_ok_def)
  moreover have "evq_list ?q = tl (evq_list q)"
    using evq_list_nodes [OF calculation] evq_list_nodes [OF assms] n by auto
  ultimately show ?thesis using d n(1) by auto
qed

lemma evq_nodes_try_dequeue:
  assumes "evq_nodes q (a # as)"
  shows "\<exists>q'. try_dequeue q = Done (0, nd_data (the (q_heap q a)), q') \<and> evq_nodes q' as \<and>
    evq_list q' = tl (evq_list q)"
proof -
  from evq_nodes_dequeue [OF assms] obtain q1 where
    q1: "dequeue q = Done (nd_data (the (q_heap q a)), q1)" "evq_nodes q1 as" "evq_list q1 = tl (evq_list q)" by blast
  from assms have nn: "q_tail q \<noteq> None" "q_head q = HPtr a" by (auto simp: evq_nodes_def hptr_of_def)
  let ?q = "q1\<lparr>d_count := d_count q\<rparr>"
  have "try_dequeue q = Done (0, nd_data (the (q_heap q a)), ?q)"
    using q1(1) nn
    by (auto simp: dequeue_def try_dequeue_def evq_release_def evq_free_def evq_unlink_def evq_advance_def Let_def
        split: outcome.splits option.splits if_splits)
  moreover have "evq_nodes ?q as" using q1(2) by (simp add: evq_nodes_def)
  moreover have "evq_list ?q = evq_list q1"
    using evq_list_nodes [OF calculation(2)] evq_list_nodes [OF q1(2)] by simp
  ultimately show ?thesis using q1(3) by auto
qed

lemma evq_nodes_empty_iff: "evq_nodes q as \<Longrightarrow> evq_list q = [] \<longleftrightarrow> as = []"
  by (simp add: evq_list_nodes)

lemma evq_inv_empty:
  assumes "evq_inv q" "evq_list q = []"
  shows "q_tail q = None" "q_head q = HNull"
proof -
  from assms have "evq_nodes q []" using evq_nodes_empty_iff by (auto simp: evq_inv_def)
  then show "q_tail q = None" "q_head q = HNull" by (auto simp: evq_nodes_def hptr_of_def)
qed

lemma evq_inv_cons:
  assumes "evq_inv q" "evq_list q = d # ds"
  obtains a as where "evq_nodes q (a # as)" "d = nd_data (the (q_heap q a))"
proof -
  from assms(1) obtain as where n: "evq_nodes q as" by (auto simp: evq_inv_def)
  with assms(2) evq_list_nodes show ?thesis using that by (cases as) fastforce+
qed

lemma debug_queue_inv:
  assumes "evq_inv q"
  shows "debug_queue q = Done (evq_list q)"
proof -
  from assms obtain as where n: "evq_nodes q as" by (auto simp: evq_inv_def)
  with evq_nodes_length [of q as] evq_walk_chain [of "q_heap q" _ as "q_brk q"] evq_list_nodes [OF n]
  show ?thesis by (cases as) (auto simp: evq_nodes_def debug_queue_def hptr_of_def)
qed

subsection \<open>The interface\<close>

datatype 'a qop = Enq "'a option" | Deq

text \<open>
  A client of a queue: a sequence of operations, the values the dequeues return, in order, and the
  queue at the end.
\<close>

fun queue_run ::
  "('q \<Rightarrow> 'a option \<Rightarrow> 'q outcome) \<Rightarrow> ('q \<Rightarrow> ('a option \<times> 'q) outcome) \<Rightarrow> 'a qop list \<Rightarrow> 'q \<Rightarrow>
     ('a option list \<times> 'q) outcome" where
  "queue_run enq deq [] q = Done ([], q)"
| "queue_run enq deq (Enq d # ops) q =
     (case enq q d of
        Done q1 \<Rightarrow> queue_run enq deq ops q1
      | Aborted \<Rightarrow> Aborted | Spins \<Rightarrow> Spins | Bad_access \<Rightarrow> Bad_access)"
| "queue_run enq deq (Deq # ops) q =
     (case deq q of
        Done (r, q1) \<Rightarrow>
          (case queue_run enq deq ops q1 of
             Done (rs, q2) \<Rightarrow> Done (r # rs, q2)
           | Aborted \<Rightarrow> Aborted | Spins \<Rightarrow> Spins | Bad_access \<Rightarrow> Bad_access)
      | Aborted \<Rightarrow> Aborted | Spins \<Rightarrow> Spins | Bad_access \<Rightarrow> Bad_access)"

text \<open>What the operations mean on a list; an empty queue gives a null pointer.\<close>

fun fifo_run :: "'a qop list \<Rightarrow> 'a option list \<Rightarrow> 'a option list \<times> 'a option list" where
  "fifo_run [] xs = ([], xs)"
| "fifo_run (Enq d # ops) xs = fifo_run ops (xs @ [d])"
| "fifo_run (Deq # ops) [] = (let (rs, ys) = fifo_run ops [] in (None # rs, ys))"
| "fifo_run (Deq # ops) (x # xs) = (let (rs, ys) = fifo_run ops xs in (x # rs, ys))"

locale fifo_queue =
  fixes invar :: "'q \<Rightarrow> bool"
    and contents :: "'q \<Rightarrow> 'a option list"
    and new :: 'q
    and enq :: "'q \<Rightarrow> 'a option \<Rightarrow> 'q outcome"
    and deq :: "'q \<Rightarrow> ('a option \<times> 'q) outcome"
  assumes new_invar: "invar new"
    and new_contents: "contents new = []"
    and enq_law: "invar q \<Longrightarrow> \<exists>q'. enq q d = Done q' \<and> invar q' \<and> contents q' = contents q @ [d]"
    and deq_empty_law: "invar q \<Longrightarrow> contents q = [] \<Longrightarrow> deq q = Done (None, q)"
    and deq_law: "invar q \<Longrightarrow> contents q = d # ds \<Longrightarrow>
      \<exists>q'. deq q = Done (d, q') \<and> invar q' \<and> contents q' = ds"
begin

lemma run_refines:
  "invar q \<Longrightarrow>
   \<exists>q'. queue_run enq deq ops q = Done (fst (fifo_run ops (contents q)), q') \<and> invar q' \<and>
        contents q' = snd (fifo_run ops (contents q))"
proof (induction ops arbitrary: q)
  case (Cons op ops)
  show ?case
  proof (cases op)
    case (Enq d)
    with Cons.prems enq_law [of q d] show ?thesis using Cons.IH by fastforce
  next
    case Deq
    show ?thesis
    proof (cases "contents q")
      case Nil
      with Deq Cons.prems Cons.IH [of q] deq_empty_law [of q] show ?thesis by (auto split: prod.splits)
    next
      case (Cons d ds)
      with Deq Cons.prems deq_law [of q d ds] obtain q' where
        "deq q = Done (d, q')" "invar q'" "contents q' = ds" by blast
      with Deq Cons Cons.IH [of q'] show ?thesis by (auto split: prod.splits)
    qed
  qed
qed simp

lemma new_run_refines:
  "\<exists>q'. queue_run enq deq ops new = Done (fst (fifo_run ops []), q') \<and> invar q' \<and>
        contents q' = snd (fifo_run ops [])"
  using run_refines [OF new_invar] by (simp add: new_contents)

end

interpretation evq: fifo_queue evq_inv evq_list create_ev_queue enqueue dequeue
proof
  show "evq_inv create_ev_queue" using evq_nodes_create by (auto simp: evq_inv_def)
  show "evq_list create_ev_queue = []" using evq_list_nodes [OF evq_nodes_create] by simp
next
  fix q :: "'a ev_queue" and d
  assume "evq_inv q"
  then show "\<exists>q'. enqueue q d = Done q' \<and> evq_inv q' \<and> evq_list q' = evq_list q @ [d]"
    using evq_nodes_enqueue by (fastforce simp: evq_inv_def)
next
  fix q :: "'a ev_queue"
  assume "evq_inv q" "evq_list q = []"
  then show "dequeue q = Done (None, q)" using evq_inv_empty(1) [of q] by (simp add: dequeue_def)
next
  fix q :: "'a ev_queue" and d ds
  assume "evq_inv q" and l: "evq_list q = d # ds"
  then obtain a as where "evq_nodes q (a # as)" "d = nd_data (the (q_heap q a))" by (rule evq_inv_cons)
  then show "\<exists>q'. dequeue q = Done (d, q') \<and> evq_inv q' \<and> evq_list q' = ds"
    using evq_nodes_dequeue [of q a as] l by (auto simp: evq_inv_def)
qed

text \<open>
  C34. Any sequence of \<open>enqueue\<close> and \<open>dequeue\<close> calls of one thread on a created \<open>ev_queue\<close> runs to
  its end (no abort, no endless wait, no access to freed memory) and the dequeues return exactly what
  a list queue returns; the elements left, which \<open>debug_queue\<close> visits, are those of the list queue.
\<close>

theorem ev_queue_refines_fifo:
  "\<exists>q. queue_run enqueue dequeue ops create_ev_queue = Done (fst (fifo_run ops []), q) \<and>
       debug_queue q = Done (snd (fifo_run ops []))"
proof -
  from evq.new_run_refines [of ops] obtain q where
    q: "queue_run enqueue dequeue ops create_ev_queue = Done (fst (fifo_run ops []), q)" "evq_inv q"
       "evq_list q = snd (fifo_run ops [])" by blast
  from q(2) have "debug_queue q = Done (evq_list q)" by (rule debug_queue_inv)
  with q show ?thesis by simp
qed

lemma destroy_ev_queue_list:
  "evq_inv q \<Longrightarrow> evq_list q = map Some xs \<Longrightarrow> length xs < fuel \<Longrightarrow>
   \<exists>q'. destroy_ev_queue fuel q = Done (xs, q') \<and> evq_inv q' \<and> evq_list q' = []"
proof (induction xs arbitrary: q fuel)
  case Nil
  then show ?case using evq.deq_empty_law [of q] by (cases fuel) auto
next
  case (Cons x xs)
  then obtain f where f: "fuel = Suc f" "length xs < f" by (cases fuel) auto
  from Cons.prems evq.deq_law [of q "Some x" "map Some xs"] obtain q1 where
    "dequeue q = Done (Some x, q1)" "evq_inv q1" "evq_list q1 = map Some xs" by auto
  with Cons.IH [of q1 f] f show ?case by auto
qed

text \<open>
  \<open>destroy_ev_queue\<close> on a queue filled by enqueues of non-null elements ends after one dequeue
  per element and one more: it frees every element exactly once, in the order they were enqueued,
  and leaves no node behind.
\<close>

theorem destroy_ev_queue_frees_all:
  "\<exists>q q'. queue_run enqueue dequeue (map (\<lambda>x. Enq (Some x)) xs) create_ev_queue = Done ([], q) \<and>
          destroy_ev_queue (Suc (length xs)) q = Done (xs, q') \<and> queue_empty q' \<and>
          debug_queue q' = Done []"
proof -
  have run: "fifo_run (map (\<lambda>x. Enq (Some x)) xs) ys = ([], ys @ map Some xs)" for ys
    by (induction xs arbitrary: ys) auto
  from evq.new_run_refines [of "map (\<lambda>x. Enq (Some x)) xs"] obtain q where
    q: "queue_run enqueue dequeue (map (\<lambda>x. Enq (Some x)) xs) create_ev_queue = Done ([], q)" "evq_inv q"
       "evq_list q = map Some xs" by (auto simp: run)
  from destroy_ev_queue_list [OF q(2,3), of "Suc (length xs)"] obtain q' where
    q': "destroy_ev_queue (Suc (length xs)) q = Done (xs, q')" "evq_inv q'" "evq_list q' = []" by auto
  with q evq_inv_empty [of q'] debug_queue_inv [of q'] show ?thesis by (auto simp: queue_empty_def)
qed

text \<open>
  On a well-formed queue \<open>try_dequeue\<close> never gives up: it returns 0, stores a null pointer and
  leaves an empty queue as it is, and removes the first element of any other one.
\<close>

theorem try_dequeue_takes_first:
  assumes "evq_inv q"
  shows "\<exists>q'. try_dequeue q = Done (0, (case evq_list q of [] \<Rightarrow> None | d # ds \<Rightarrow> d), q') \<and>
              evq_inv q' \<and> evq_list q' = tl (evq_list q)"
proof (cases "evq_list q")
  case Nil
  with assms evq_inv_empty [of q] show ?thesis by (simp add: try_dequeue_def)
next
  case (Cons d ds)
  with assms obtain a as where "evq_nodes q (a # as)" "d = nd_data (the (q_heap q a))" by (rule evq_inv_cons)
  with Cons evq_nodes_try_dequeue [of q a as] show ?thesis by (auto simp: evq_inv_def)
qed

theorem try_dequeue_takes_first_witness:
  "\<exists>q. try_dequeue (create_ev_queue :: nat ev_queue) = Done (0, None, q) \<and> evq_list q = []"
proof -
  have "evq_list (create_ev_queue :: nat ev_queue) = []" by code_simp
  then show ?thesis using try_dequeue_takes_first [of "create_ev_queue :: nat ev_queue"] evq.new_invar by auto
qed

subsection \<open>The retirement ring refines a bounded list\<close>

definition ring_list :: "'n evq_ring \<Rightarrow> 'n list" where
  "ring_list r = map (\<lambda>k. quarantine r ! ((q_head_i r + k) mod EVQ_QUARANTINE_MAX)) [0..<q_len r]"

definition ring_inv :: "'n evq_ring \<Rightarrow> bool" where
  "ring_inv r \<longleftrightarrow> length (quarantine r) = EVQ_QUARANTINE_MAX \<and> q_len r \<le> EVQ_QUARANTINE_MAX \<and>
     q_head_i r < EVQ_QUARANTINE_MAX"

fun retire_run :: "'n evq_ring \<Rightarrow> 'n list \<Rightarrow> 'n list \<times> 'n evq_ring" where
  "retire_run r [] = ([], r)"
| "retire_run r (n # ns) =
     (let (f, r1) = evq_retire_node r n; (fs, r2) = retire_run r1 ns
      in ((case f of None \<Rightarrow> fs | Some x \<Rightarrow> x # fs), r2))"

lemma mod_add_inj:
  assumes "(h + i) mod m = (h + j) mod m" "i < m" "j < (m::nat)"
  shows "i = j"
proof (rule linorder_wlog [of "\<lambda>i j. (h + i) mod m = (h + j) mod m \<longrightarrow> i < m \<longrightarrow> j < m \<longrightarrow> i = j", rule_format])
  fix i j :: nat
  assume "i \<le> j" and e: "(h + i) mod m = (h + j) mod m" and "i < m" "j < m"
  from mod_eq_nat2E [OF e] \<open>i \<le> j\<close> obtain s where "h + j = h + i + m * s" by auto
  with \<open>j < m\<close> show "i = j" by (cases s) auto
qed (use assms in auto)

lemma evq_retire_node_list:
  assumes "ring_inv r" "evq_retire_node r n = (f, r')"
  shows "ring_inv r' \<and>
    (if q_len r < EVQ_QUARANTINE_MAX then f = None \<and> ring_list r' = ring_list r @ [n]
     else f = Some (hd (ring_list r)) \<and> ring_list r' = tl (ring_list r) @ [n])"
proof (cases "q_len r < EVQ_QUARANTINE_MAX")
  case True
  let ?i = "(q_head_i r + q_len r) mod EVQ_QUARANTINE_MAX"
  have r': "f = None" "r' = r\<lparr>quarantine := (quarantine r)[?i := n], q_len := q_len r + 1\<rparr>"
    using assms(2) True by (auto simp: evq_retire_node_def Let_def)
  have "(quarantine r)[?i := n] ! ((q_head_i r + k) mod EVQ_QUARANTINE_MAX) =
      quarantine r ! ((q_head_i r + k) mod EVQ_QUARANTINE_MAX)" if "k < q_len r" for k
    using mod_add_inj [of "q_head_i r" k EVQ_QUARANTINE_MAX "q_len r"] that True
    by (metis less_trans nat_neq_iff nth_list_update_neq)
  then have "ring_list r' = ring_list r @ [n]"
    using assms(1) r' by (simp add: ring_list_def ring_inv_def)
  with True r' assms(1) show ?thesis by (simp add: ring_inv_def)
next
  case False
  let ?h = "q_head_i r" and ?M = "EVQ_QUARANTINE_MAX"
  have full: "q_len r = ?M" "?h < ?M" "length (quarantine r) = ?M"
    using assms(1) False by (auto simp: ring_inv_def)
  have r': "f = Some (quarantine r ! ?h)"
    "r' = r\<lparr>quarantine := (quarantine r)[?h := n], q_head_i := (?h + 1) mod ?M\<rparr>"
    using assms(2) False by (auto simp: evq_retire_node_def Let_def)
  have ne: "(?h + 1 + k) mod ?M \<noteq> ?h" if "k < 63" for k
    using mod_add_inj [of ?h "k + 1" ?M 0] that full(2) by (auto simp: add.assoc)
  have split: "[0..<?M] = [0..<63] @ [63]" "[0..<?M] = 0 # map Suc [0..<63]"
    using upt_Suc_append [of 0 63] upt_conv_Cons [of 0 64] by (simp_all add: map_Suc_upt del: upt_Suc)
  have "ring_list r' = map (\<lambda>k. quarantine r ! ((?h + 1 + k) mod ?M)) [0..<63] @ [n]"
    using full r' ne unfolding ring_list_def
    by (force simp: split(1) mod_simps add.assoc nth_list_update simp del: upt_Suc)
  moreover have "ring_list r = quarantine r ! ?h # map (\<lambda>k. quarantine r ! ((?h + 1 + k) mod ?M)) [0..<63]"
    using full unfolding ring_list_def by (simp add: split(2) comp_def)
  ultimately show ?thesis using full r' by (simp add: ring_inv_def)
qed

lemma ring_list_length [simp]: "length (ring_list r) = q_len r"
  by (simp add: ring_list_def)

text \<open>
  Retiring the nodes \<open>ns\<close> one after the other into a ring that holds \<open>ring_list r\<close> frees the
  oldest of them all in their order of retirement, each once, and keeps exactly the last 64 (or all of
  them, while there are fewer): a node is freed only after 64 later retirements.
\<close>

theorem retire_run_keeps_last_64:
  assumes "ring_inv r"
  shows "fst (retire_run r ns) @ ring_list (snd (retire_run r ns)) = ring_list r @ ns \<and>
    length (ring_list (snd (retire_run r ns))) = min EVQ_QUARANTINE_MAX (length (ring_list r @ ns))"
  using assms
proof (induction ns arbitrary: r)
  case Nil
  then show ?case by (simp add: ring_inv_def)
next
  case (Cons n ns)
  obtain f r1 where s: "evq_retire_node r n = (f, r1)" by fastforce
  note l = evq_retire_node_list [OF Cons.prems s]
  from l Cons.IH [of r1] have ih: "fst (retire_run r1 ns) @ ring_list (snd (retire_run r1 ns)) = ring_list r1 @ ns"
    "length (ring_list (snd (retire_run r1 ns))) = min EVQ_QUARANTINE_MAX (length (ring_list r1 @ ns))" by auto
  show ?case
  proof (cases "q_len r < EVQ_QUARANTINE_MAX")
    case True
    with l ih show ?thesis by (auto simp: s split: prod.splits)
  next
    case False
    with Cons.prems have len: "q_len r = EVQ_QUARANTINE_MAX" by (simp add: ring_inv_def)
    then have "ring_list r \<noteq> []" by (metis ring_list_length list.size(3) zero_neq_numeral)
    with l ih len show ?thesis
      by (auto simp: s split: prod.splits)
  qed
qed

theorem retire_run_keeps_last_64_witness:
  "let r = \<lparr>quarantine = replicate 64 0, q_len = 0, q_head_i = 0\<rparr> in
   fst (retire_run r [0..<70]) @ ring_list (snd (retire_run r [0..<70])) = [0..<70]"
  unfolding Let_def
  using retire_run_keeps_last_64 [of "\<lparr>quarantine = replicate 64 0, q_len = 0, q_head_i = 0\<rparr>" "[0..<70]"]
  by (simp add: ring_inv_def ring_list_def [of "\<lparr>quarantine = _, q_len = _, q_head_i = _\<rparr>"] del: upt_Suc)

end
