(* ===== verification/EvQueueRace.thy ===== *)
theory EvQueueRace
  imports EvQueue
begin

text \<open>
  \<open>enqueue\<close> and \<open>dequeue\<close> of \<open>src/evds/ev_queue.c\<close> with one access to shared memory at a step, by several threads. Run
  by one thread at a time the two are the queue of \<open>EvQueue\<close>, and the other theories take each call as one step. In
  other interleavings they are not: an \<open>enqueue\<close> that finds the list just emptied, or that has linked its node and not
  yet taken its mark off the last one, makes the \<open>dequeue\<close> beside it call \<open>abort\<close>.
\<close>

text \<open>
  In \<open>enqueue\<close>, with the node and the tail it has replaced: before the exchange of the tail, the count, the mark of the old
  tail, the look at its magic number, the link, and the end of the mark; or before the exchange of the head. In
  \<open>dequeue\<close>: before the loads of tail and head, the mark of the head, the load of \<open>next\<close>, the assertion on the tail, the
  exchange of the tail, in the wait for a successor, before the exchange of the head, the count, the look at the mark,
  at the magic number, and \<open>free\<close>.
\<close>

datatype evq_pc =
    Q_idle
  | E_swap nat
  | E_count "nat option" nat
  | E_mark nat nat
  | E_magic nat nat
  | E_link nat nat
  | E_unmark nat
  | E_head nat
  | D_tail
  | D_head
  | D_mark nat
  | D_next nat
  | D_assert nat "nat option"
  | D_empty nat
  | D_wait nat
  | D_advance nat "nat option"
  | D_count nat
  | D_inflight nat
  | D_magic nat
  | D_free nat

record 'a evq_threads =
  rq :: "'a ev_queue"
  rq_pc :: "evq_pc list"

definition rq_goto :: "nat \<Rightarrow> evq_pc \<Rightarrow> 'a ev_queue \<Rightarrow> 'a evq_threads \<Rightarrow> 'a evq_threads" where
  "rq_goto i x q s = s\<lparr>rq := q, rq_pc := (rq_pc s)[i := x]\<rparr>"

definition rq_node :: "nat \<Rightarrow> 'a ev_queue \<Rightarrow> 'a evq_node outcome" where
  "rq_node a q = of_ptr (q_heap q a)"

definition rq_put :: "nat \<Rightarrow> 'a evq_node \<Rightarrow> 'a ev_queue \<Rightarrow> 'a ev_queue" where
  "rq_put a n q = q\<lparr>q_heap := (q_heap q)(a := Some n)\<rparr>"

definition enqueue_step :: "nat \<Rightarrow> 'a evq_threads \<Rightarrow> 'a evq_threads outcome" where
  "enqueue_step i s =
     (let q = rq s
      in case rq_pc s ! i of
           E_swap p \<Rightarrow> Done (rq_goto i (E_count (q_tail q) p) (q\<lparr>q_tail := Some p\<rparr>) s)
         | E_count old p \<Rightarrow>
             Done (rq_goto i (case old of None \<Rightarrow> E_head p | Some t \<Rightarrow> E_mark t p) (q\<lparr>e_count := e_count q + 1\<rparr>) s)
         | E_mark t p \<Rightarrow>
             obind (rq_node t q) (\<lambda>n. Done (rq_goto i (E_magic t p) (rq_put t (n\<lparr>nd_inflight := True\<rparr>) q) s))
         | E_magic t p \<Rightarrow>
             obind (rq_node t q) (\<lambda>n. if nd_magic n \<noteq> EVQ_MAGIC_LIVE then Aborted else Done (rq_goto i (E_link t p) q s))
         | E_link t p \<Rightarrow>
             obind (rq_node t q) (\<lambda>n. Done (rq_goto i (E_unmark t) (rq_put t (n\<lparr>nd_next := Some p\<rparr>) q) s))
         | E_unmark t \<Rightarrow>
             obind (rq_node t q) (\<lambda>n. Done (rq_goto i Q_idle (rq_put t (n\<lparr>nd_inflight := False\<rparr>) q) s))
         | E_head p \<Rightarrow> Done (rq_goto i Q_idle (q\<lparr>q_head := HPtr p\<rparr>) s)
         | _ \<Rightarrow> Spins)"

definition dequeue_step :: "nat \<Rightarrow> 'a evq_threads \<Rightarrow> 'a evq_threads outcome" where
  "dequeue_step i s =
     (let q = rq s; goto = (\<lambda>x. Done (rq_goto i x q s))
      in case rq_pc s ! i of
           D_tail \<Rightarrow> goto (if q_tail q = None then Q_idle else D_head)
         | D_head \<Rightarrow> goto (case q_head q of HPtr h \<Rightarrow> D_mark h | _ \<Rightarrow> D_tail)
         | D_mark h \<Rightarrow>
             if q_head q = HPtr h then Done (rq_goto i (D_next h) (q\<lparr>q_head := HMark h\<rparr>) s) else goto D_tail
         | D_next h \<Rightarrow> obind (rq_node h q) (\<lambda>n. goto (D_assert h (nd_next n)))
         | D_assert h nxt \<Rightarrow>
             if q_tail q = None then Aborted else goto (if nxt = None then D_empty h else D_advance h nxt)
         | D_empty h \<Rightarrow>
             if q_tail q = Some h then Done (rq_goto i (D_advance h None) (q\<lparr>q_tail := None\<rparr>) s) else goto (D_wait h)
         | D_wait h \<Rightarrow> obind (rq_node h q) (\<lambda>n. goto (if nd_next n = None then D_wait h else D_advance h (nd_next n)))
         | D_advance h nxt \<Rightarrow>
             if q_head q = HMark h then Done (rq_goto i (D_count h) (q\<lparr>q_head := hptr_of nxt\<rparr>) s) else Aborted
         | D_count h \<Rightarrow> Done (rq_goto i (D_inflight h) (q\<lparr>d_count := d_count q + 1\<rparr>) s)
         | D_inflight h \<Rightarrow> obind (rq_node h q) (\<lambda>n. if nd_inflight n then Aborted else goto (D_magic h))
         | D_magic h \<Rightarrow> obind (rq_node h q) (\<lambda>n. if nd_magic n \<noteq> EVQ_MAGIC_LIVE then Aborted else goto (D_free h))
         | D_free h \<Rightarrow> Done (rq_goto i Q_idle (evq_free q h) s)
         | _ \<Rightarrow> Spins)"

datatype 'a evq_op = Rq_enqueue nat "'a option" | Rq_dequeue nat | Rq_step nat

fun rq_ok :: "'a evq_op \<Rightarrow> 'a evq_threads \<Rightarrow> bool" where
  "rq_ok (Rq_enqueue i d) s = (i < length (rq_pc s) \<and> rq_pc s ! i = Q_idle)"
| "rq_ok (Rq_dequeue i) s = (i < length (rq_pc s) \<and> rq_pc s ! i = Q_idle)"
| "rq_ok (Rq_step i) s = (i < length (rq_pc s))"

fun in_enqueue :: "evq_pc \<Rightarrow> bool" where
  "in_enqueue (E_swap p) = True"
| "in_enqueue (E_count t p) = True"
| "in_enqueue (E_mark t p) = True"
| "in_enqueue (E_magic t p) = True"
| "in_enqueue (E_link t p) = True"
| "in_enqueue (E_unmark t) = True"
| "in_enqueue (E_head p) = True"
| "in_enqueue x = False"

text \<open>A call of \<open>enqueue\<close> has made its node, which only its thread knows.\<close>

fun rq_exec :: "'a evq_op \<Rightarrow> 'a evq_threads \<Rightarrow> 'a evq_threads outcome" where
  "rq_exec (Rq_enqueue i d) s =
     (let q = rq s; p = q_brk q
      in Done (rq_goto i (E_swap p)
           ((rq_put p \<lparr>nd_data = d, nd_next = None, nd_inflight = False, nd_magic = EVQ_MAGIC_LIVE\<rparr> q)\<lparr>q_brk := Suc p\<rparr>) s))"
| "rq_exec (Rq_dequeue i) s = Done (rq_goto i D_tail (rq s) s)"
| "rq_exec (Rq_step i) s = (if in_enqueue (rq_pc s ! i) then enqueue_step i s else dequeue_step i s)"

definition rq_start :: "nat \<Rightarrow> 'a evq_threads" where
  "rq_start n = \<lparr>rq = create_ev_queue, rq_pc = replicate n Q_idle\<rparr>"

definition rq_reach :: "nat \<Rightarrow> 'a evq_threads \<Rightarrow> bool" where
  "rq_reach n = reach (\<lambda>s. s = rq_start n) rq_ok rq_exec id"

lemmas rq_run_defs =
  rq_start_def create_ev_queue_def rq_goto_def rq_node_def rq_put_def enqueue_step_def dequeue_step_def hptr_of_def numeral_2_eq_2

text \<open>Thread 0 enqueues an element and returns.\<close>

abbreviation rq_one :: "nat evq_op list" where
  "rq_one \<equiv> [Rq_enqueue 0 (Some 7), Rq_step 0, Rq_step 0, Rq_step 0]"

lemma rq_run_reach: "run_all rq_ok rq_exec id ops (rq_start n) = Some s \<Longrightarrow> rq_reach n s"
  unfolding rq_reach_def by (rule run_all_reach [OF reach_start]) simp_all

text \<open>
  C30. Two threads can make \<open>ev_queue\<close> abort. (1) \<open>dequeue\<close> takes the last element and clears the tail; \<open>enqueue\<close> finds the
  tail null and stores its node in the head; \<open>dequeue\<close> finds the head changed, which it takes for impossible.
  (2) \<open>dequeue\<close> waits for the successor of its node; \<open>enqueue\<close> links it; before it takes off the mark
  \<open>inflight\<close>, \<open>dequeue\<close> sees it.
\<close>

theorem ev_queue_race:
  "(\<exists>s :: nat evq_threads. rq_reach 2 s \<and> (\<exists>h. rq_pc s ! 0 = D_advance h None) \<and> rq_exec (Rq_step 0) s = Aborted) \<and>
   (\<exists>s :: nat evq_threads. rq_reach 2 s \<and> (\<exists>h. rq_pc s ! 0 = D_inflight h) \<and> rq_exec (Rq_step 0) s = Aborted)"
proof
  let ?ops = "rq_one @ [Rq_dequeue 0, Rq_step 0, Rq_step 0, Rq_step 0, Rq_step 0, Rq_step 0, Rq_step 0,
    Rq_enqueue 1 (Some 8), Rq_step 1, Rq_step 1, Rq_step 1]"
  have "\<exists>s :: nat evq_threads. run_all rq_ok rq_exec id ?ops (rq_start 2) = Some s \<and>
      rq_pc s ! 0 = D_advance 1 None \<and> rq_exec (Rq_step 0) s = Aborted"
    by (simp add: rq_run_defs)
  then show "\<exists>s :: nat evq_threads. rq_reach 2 s \<and> (\<exists>h. rq_pc s ! 0 = D_advance h None) \<and> rq_exec (Rq_step 0) s = Aborted"
    using rq_run_reach by blast
next
  let ?ops = "rq_one @ [Rq_dequeue 0, Rq_step 0, Rq_step 0, Rq_step 0, Rq_step 0, Rq_step 0,
    Rq_enqueue 1 (Some 8), Rq_step 1, Rq_step 1, Rq_step 0, Rq_step 1, Rq_step 1, Rq_step 1, Rq_step 0, Rq_step 0, Rq_step 0]"
  have "\<exists>s :: nat evq_threads. run_all rq_ok rq_exec id ?ops (rq_start 2) = Some s \<and>
      rq_pc s ! 0 = D_inflight 1 \<and> rq_exec (Rq_step 0) s = Aborted"
    by (simp add: rq_run_defs)
  then show "\<exists>s :: nat evq_threads. rq_reach 2 s \<and> (\<exists>h. rq_pc s ! 0 = D_inflight h) \<and> rq_exec (Rq_step 0) s = Aborted"
    using rq_run_reach by blast
qed

end
