(* ===== verification/LinkedLists.thy ===== *)
theory LinkedLists
  imports Prelude
begin

text \<open>
  Singly linked lists with a head and a tail pointer, as \<open>ev_pqueue.c\<close>, \<open>ev_paqueue.c\<close>, \<open>ev_mpiqueue.c\<close> and \<open>ev_spiqueue.c\<close> have
  them: a node is \<open>struct __pis\<close> (\<open>struct qe_s\<close>, \<open>struct __s\<close>). The heap holds the nodes and \<open>b\<close> is the next address.
\<close>

record 'a pis =
  pi_data :: "'a option"
  pi_next :: "nat option"

fun pis_chain :: "(nat \<Rightarrow> 'a pis option) \<Rightarrow> nat option \<Rightarrow> nat list \<Rightarrow> bool" where
  "pis_chain h p [] \<longleftrightarrow> p = None"
| "pis_chain h p (a # as) \<longleftrightarrow> p = Some a \<and> (\<exists>n. h a = Some n \<and> pis_chain h (pi_next n) as)"

definition list_at :: "(nat \<Rightarrow> 'a pis option) \<Rightarrow> nat list \<Rightarrow> 'a option list" where
  "list_at h as = map (\<lambda>a. pi_data (the (h a))) as"

definition list_ok :: "nat option \<Rightarrow> nat option \<Rightarrow> (nat \<Rightarrow> 'a pis option) \<Rightarrow> nat \<Rightarrow> 'a option list \<Rightarrow> bool" where
  "list_ok p t h b ds \<longleftrightarrow>
     (\<exists>as. pis_chain h p as \<and> t = (if as = [] then None else Some (last as)) \<and> distinct as \<and> (\<forall>a\<in>set as. a < b) \<and>
       ds = list_at h as)"

lemma pis_chain_upd [simp]: "a \<notin> set as \<Longrightarrow> pis_chain (h(a := n)) p as = pis_chain h p as"
  by (induction as arbitrary: p) auto

lemma pis_chain_last: "pis_chain h p (as @ [b]) \<Longrightarrow> \<exists>m. h b = Some m \<and> pi_next m = None"
  by (induction as arbitrary: p) auto

lemma pis_chain_snoc:
  "pis_chain h p (as @ [b]) \<Longrightarrow> h b = Some m \<Longrightarrow> b \<notin> set as \<Longrightarrow> c \<notin> set (as @ [b]) \<Longrightarrow>
   h c = Some k \<Longrightarrow> pi_next k = None \<Longrightarrow> pis_chain (h(b \<mapsto> m\<lparr>pi_next := Some c\<rparr>)) p (as @ [b, c])"
  by (induction as arbitrary: p) auto

lemma list_ok_empty [simp]: "list_ok None None h b []"
  by (auto simp: list_ok_def list_at_def intro!: exI [of _ "[]"])

lemma list_ok_Nil:
  assumes "list_ok p t h b []"
  shows "p = None" "t = None"
  using assms by (auto simp: list_ok_def list_at_def)

lemma list_ok_tail: "list_ok p t h b ds \<Longrightarrow> t = None \<longleftrightarrow> ds = []"
  by (auto simp: list_ok_def list_at_def split: if_splits)

text \<open>A new node at the end: of a list without a tail it becomes the head, else the tail is linked to it.\<close>

lemma list_ok_first:
  assumes "list_ok p None h b ds"
  shows "ds = []" "list_ok (Some b) (Some b) (h(b \<mapsto> \<lparr>pi_data = d, pi_next = None\<rparr>)) (Suc b) [d]"
  using assms by (auto simp: list_ok_def list_at_def split: if_splits intro!: exI [of _ "[b]"])

lemma list_ok_snoc:
  assumes "list_ok p (Some z) h b ds"
  shows "\<exists>m. h z = Some m \<and> z \<noteq> b \<and>
    list_ok p (Some b) (h(b \<mapsto> \<lparr>pi_data = d, pi_next = None\<rparr>, z \<mapsto> m\<lparr>pi_next := Some b\<rparr>)) (Suc b) (ds @ [d])"
proof -
  obtain as where c: "pis_chain h p as" "as \<noteq> []" "z = last as" "distinct as" "\<forall>a\<in>set as. a < b" "ds = list_at h as"
    using assms by (auto simp: list_ok_def split: if_splits)
  then obtain bs where bs: "as = bs @ [z]" by (metis append_butlast_last_id)
  obtain m where m: "h z = Some m" using pis_chain_last c(1) unfolding bs by blast
  have z: "z \<noteq> b" "z \<notin> set bs" "b \<notin> set as" using c(4,5) bs by auto
  let ?h = "h(b \<mapsto> \<lparr>pi_data = d, pi_next = None\<rparr>, z \<mapsto> m\<lparr>pi_next := Some b\<rparr>)"
  have "pis_chain ?h p (bs @ [z, b])"
    using pis_chain_snoc [of "h(b \<mapsto> \<lparr>pi_data = d, pi_next = None\<rparr>)" p bs z m b] c(1) z m bs by auto
  moreover have "list_at ?h (bs @ [z, b]) = ds @ [d]" using c(6) bs m z by (auto simp: list_at_def)
  ultimately have "list_ok p (Some b) ?h (Suc b) (ds @ [d])"
    using c(4,5) bs z unfolding list_ok_def by (intro exI [of _ "bs @ [z, b]"]) auto
  with m z(1) show ?thesis by blast
qed

text \<open>The first node; without it the rest is a list, whether its memory is freed or not.\<close>

lemma list_ok_Cons:
  assumes "list_ok p t h b (d # ds)"
  shows "\<exists>a m. p = Some a \<and> h a = Some m \<and> pi_data m = d \<and> (pi_next m = None \<longleftrightarrow> ds = []) \<and> (ds = [] \<longrightarrow> t = Some a) \<and>
    list_ok (pi_next m) (if ds = [] then None else t) h b ds \<and>
    list_ok (pi_next m) (if ds = [] then None else t) (h(a := None)) b ds"
proof -
  obtain as' where c': "pis_chain h p as'" "t = (if as' = [] then None else Some (last as'))" "distinct as'" "\<forall>a\<in>set as'. a < b"
    "d # ds = list_at h as'" using assms by (auto simp: list_ok_def)
  then obtain a as where "as' = a # as" by (cases as') (auto simp: list_at_def)
  with c' obtain m where c: "p = Some a" "h a = Some m" "pis_chain h (pi_next m) as" "a \<notin> set as" "distinct as" "\<forall>x\<in>set as. x < b"
    "pi_data m = d" "ds = list_at h as" "t = Some (last (a # as))" by (auto simp: list_at_def)
  have e: "ds = [] \<longleftrightarrow> as = []" "pi_next m = None \<longleftrightarrow> as = []" using c(3,8) by (cases as; auto simp: list_at_def)+
  have "list_at (h(a := None)) as = ds" using c(4,8) by (auto simp: list_at_def)
  with c e show ?thesis unfolding list_ok_def
    by (intro exI [of _ a] exI [of _ m]) (auto intro!: exI [of _ as])
qed

text \<open>The data of the nodes of a list, read from its head; \<open>b\<close> nodes are enough, as the addresses are below \<open>b\<close>.\<close>

fun pis_walk :: "nat \<Rightarrow> (nat \<Rightarrow> 'a pis option) \<Rightarrow> nat option \<Rightarrow> 'a option list" where
  "pis_walk 0 h p = []"
| "pis_walk (Suc k) h p =
     (case p of None \<Rightarrow> [] | Some a \<Rightarrow> (case h a of None \<Rightarrow> [] | Some n \<Rightarrow> pi_data n # pis_walk k h (pi_next n)))"

lemma pis_walk_chain: "pis_chain h p as \<Longrightarrow> length as \<le> k \<Longrightarrow> pis_walk k h p = list_at h as"
proof (induction as arbitrary: p k)
  case Nil
  then show ?case by (cases k) (simp_all add: list_at_def)
next
  case (Cons a as)
  then obtain k' where "k = Suc k'" by (cases k) auto
  with Cons show ?case by (auto simp: list_at_def)
qed

lemma distinct_below_length: "distinct as \<Longrightarrow> \<forall>a\<in>set as. a < b \<Longrightarrow> length as \<le> b"
  using card_mono [of "{..<b}" "set as"] by (auto simp: distinct_card)

lemma list_ok_walk: "list_ok p t h b ds \<Longrightarrow> pis_walk b h p = ds"
  using pis_walk_chain distinct_below_length by (fastforce simp: list_ok_def)

end
