(* ===== verification/PQueue.thy ===== *)
theory PQueue
  imports EvQueue LinkedLists
begin

text \<open>
  \<open>src/evds/ev_pqueue.c\<close>, run by one thread: a queue of \<open>N\<close> linked lists that enqueues and dequeues visit in turn, each
  with two guards that keep the visits in order. The nodes of a list are a heap of their own. The counters are C
  \<open>int\<close>s that wrap around; an index outside the array of lists is \<open>Bad_access\<close>; a loop that waits for another thread
  is \<open>Spins\<close>. Together the lists are one queue, first in first out, as long as the number of enqueues fits an \<open>int\<close>.
\<close>

subsection \<open>State\<close>

record 'a pqueue_gl =
  l_head :: "nat option"
  l_tail :: "nat option"
  l_heap :: "nat \<Rightarrow> 'a pis option"
  l_brk :: nat
  e_guard :: int
  d_guard :: int

record 'a ev_pqueue =
  gl_array :: "'a pqueue_gl list"
  pq_N :: int
  enq_counter :: "32 word"
  deq_counter :: "32 word"
  ub_count :: "32 word"
  lb_count :: "32 word"

fun nearest_loop :: "nat \<Rightarrow> int \<Rightarrow> int \<Rightarrow> int" where
  "nearest_loop 0 n two_to_n = two_to_n"
| "nearest_loop (Suc k) n two_to_n = (if two_to_n \<ge> n then two_to_n else nearest_loop k n (2 * two_to_n))"

text \<open>The shifts stay below \<open>2 ^ 31\<close> for the numbers that \<open>create_ev_pqueue\<close> allows.\<close>

definition get_nearest_power_of_2 :: "int \<Rightarrow> int" where
  "get_nearest_power_of_2 n = nearest_loop 32 n 1"

definition init_ev_pqueue_s :: "int \<Rightarrow> 'a ev_pqueue" where
  "init_ev_pqueue_s N =
     \<lparr>gl_array = map (\<lambda>i. \<lparr>l_head = None, l_tail = None, l_heap = Map.empty, l_brk = 0,
                          e_guard = int i - N, d_guard = int i - N\<rparr>) [0..<nat N],
      pq_N = N, enq_counter = 0, deq_counter = 0, ub_count = 0, lb_count = 0\<rparr>"

definition create_ev_pqueue :: "int \<Rightarrow> 'a ev_pqueue outcome" where
  "create_ev_pqueue n =
     (let N = get_nearest_power_of_2 n in if n > 128 then Aborted else Done (init_ev_pqueue_s N))"

text \<open>\<open>x % y\<close> of C, which has the sign of \<open>x\<close>, and the element of an array, or \<open>Bad_access\<close>.\<close>

definition c_mod :: "int \<Rightarrow> int \<Rightarrow> int" where
  "c_mod x y = (if x < 0 then - ((- x) mod y) else x mod y)"

definition lane_at :: "int \<Rightarrow> 'a ev_pqueue \<Rightarrow> 'a pqueue_gl outcome" where
  "lane_at i q = (if 0 \<le> i \<and> i < int (length (gl_array q)) then Done (gl_array q ! nat i) else Bad_access)"

definition put_lane :: "int \<Rightarrow> 'a pqueue_gl \<Rightarrow> 'a ev_pqueue \<Rightarrow> 'a ev_pqueue" where
  "put_lane i l q = q\<lparr>gl_array := (gl_array q)[nat i := l]\<rparr>"

text \<open>\<open>FIFO_enter\<close> and \<open>dequeue_FIFO_enter\<close> wait until the guard is \<open>counter - N\<close>.\<close>

definition FIFO_enter :: "int \<Rightarrow> int \<Rightarrow> int \<Rightarrow> unit outcome" where
  "FIFO_enter guard counter N = (if counter - N \<noteq> guard then Spins else Done ())"

subsection \<open>Operations\<close>

definition pis_link :: "nat option \<Rightarrow> nat \<Rightarrow> 'a pqueue_gl \<Rightarrow> 'a pqueue_gl outcome" where
  "pis_link prev qe l =
     (case prev of
        None \<Rightarrow> Done (l\<lparr>l_head := Some qe\<rparr>)
      | Some t \<Rightarrow>
          obind (of_ptr (l_heap l t)) (\<lambda>n. Done (l\<lparr>l_heap := (l_heap l)(t \<mapsto> n\<lparr>pi_next := Some qe\<rparr>)\<rparr>)))"

definition enqueue_ev_pqueue :: "'a ev_pqueue \<Rightarrow> 'a option \<Rightarrow> 'a ev_pqueue outcome" where
  "enqueue_ev_pqueue q0 data =
     (let e_count = sint (enq_counter q0);
          q = q0\<lparr>ub_count := ub_count q0 + 1, enq_counter := enq_counter q0 + 1, lb_count := lb_count q0 + 1\<rparr>;
          index = c_mod e_count (pq_N q)
      in obind (lane_at index q) (\<lambda>l.
         let qe = l_brk l;
             l1 = l\<lparr>l_heap := (l_heap l)(qe \<mapsto> \<lparr>pi_data = data, pi_next = None\<rparr>), l_brk := Suc qe\<rparr>
         in obind (FIFO_enter (e_guard l1) e_count (pq_N q)) (\<lambda>_.
            let prev = l_tail l1; l2 = l1\<lparr>l_tail := Some qe, e_guard := e_count\<rparr>
            in obind (pis_link prev qe l2) (\<lambda>l3. Done (put_lane index l3 q)))))"

definition test_dec_retest :: "32 word \<Rightarrow> bool \<times> 32 word" where
  "test_dec_retest v =
     (if sint v > 0 then (if sint v \<le> 0 then (False, v) else (True, v - 1)) else (False, v))"

text \<open>Whether the queue is empty; otherwise one element is reserved for the caller.\<close>

definition ev_pqueue_is_empty :: "'a ev_pqueue \<Rightarrow> (bool \<times> 'a ev_pqueue) outcome" where
  "ev_pqueue_is_empty q =
     (let (r, v) = test_dec_retest (lb_count q)
      in if r then Done (False, q\<lparr>lb_count := v\<rparr>)
         else if 0 < sint (ub_count q) then Spins
         else Done (True, q))"

text \<open>The critical section of \<open>dequeue_ev_pqueue\<close>: the head moves on, and the tail is cleared behind the last node.\<close>

definition pis_unlink :: "nat \<Rightarrow> 'a pqueue_gl \<Rightarrow> 'a pqueue_gl outcome" where
  "pis_unlink first_element l =
     obind (of_ptr (l_heap l first_element)) (\<lambda>n.
       let l1 = l\<lparr>l_head := pi_next n\<rparr>
       in if pi_next n \<noteq> None then Done l1
          else if l_tail l1 = Some first_element then Done (l1\<lparr>l_tail := None\<rparr>)
          else Spins)"

definition dequeue_ev_pqueue :: "'a ev_pqueue \<Rightarrow> ('a option \<times> 'a ev_pqueue) outcome" where
  "dequeue_ev_pqueue q0 =
     obind (ev_pqueue_is_empty q0) (\<lambda>(empty, q1).
       if empty then Done (None, q1)
       else
         let d_count = sint (deq_counter q1);
             q = q1\<lparr>deq_counter := deq_counter q1 + 1, ub_count := ub_count q1 - 1\<rparr>;
             index = c_mod d_count (pq_N q)
         in obind (lane_at index q) (\<lambda>l.
            obind (FIFO_enter (d_guard l) d_count (pq_N q)) (\<lambda>_.
              case l_head l of
                None \<Rightarrow> Spins
              | Some first_element \<Rightarrow>
                  obind (pis_unlink first_element l) (\<lambda>l1.
                  obind (of_ptr (l_heap l1 first_element)) (\<lambda>n.
                    Done (pi_data n,
                      put_lane index (l1\<lparr>d_guard := d_count, l_heap := (l_heap l1)(first_element := None)\<rparr>) q))))))"

text \<open>\<open>while (NULL != (p = dequeue_ev_pqueue(*pq_ptr_ptr))) free(p)\<close>: the elements freed. \<open>wf_destroy_ev_pqueue\<close> does not free them.\<close>

fun destroy_ev_pqueue :: "nat \<Rightarrow> 'a ev_pqueue \<Rightarrow> 'a list outcome" where
  "destroy_ev_pqueue 0 q = Spins"
| "destroy_ev_pqueue (Suc fuel) q =
     obind (dequeue_ev_pqueue q) (\<lambda>(p, q1).
       case p of None \<Rightarrow> Done [] | Some x \<Rightarrow> obind (destroy_ev_pqueue fuel q1) (\<lambda>xs. Done (x # xs)))"

subsection \<open>One list\<close>

definition lane_ok :: "'a pqueue_gl \<Rightarrow> 'a option list \<Rightarrow> bool" where
  "lane_ok l ds \<longleftrightarrow> list_ok (l_head l) (l_tail l) (l_heap l) (l_brk l) ds"

lemma lane_enqueue:
  fixes d :: "'a option" and g :: int
  assumes "lane_ok l ds"
  defines "l2 \<equiv> l\<lparr>l_heap := (l_heap l)(l_brk l \<mapsto> \<lparr>pi_data = d, pi_next = None\<rparr>), l_brk := Suc (l_brk l),
    l_tail := Some (l_brk l), e_guard := g\<rparr>"
  shows "\<exists>l3. pis_link (l_tail l) (l_brk l) l2 = Done l3 \<and> lane_ok l3 (ds @ [d]) \<and> e_guard l3 = g \<and> d_guard l3 = d_guard l"
proof (cases "l_tail l")
  case None
  with assms(1) list_ok_first(1) [of "l_head l" "l_heap l" "l_brk l" ds] list_ok_first(2) [of "l_head l" "l_heap l" "l_brk l" ds d] show ?thesis
    by (simp add: lane_ok_def pis_link_def l2_def)
next
  case (Some z)
  with assms(1) list_ok_snoc [of "l_head l" z "l_heap l" "l_brk l" ds d] obtain m where
    "l_heap l z = Some m" "z \<noteq> l_brk l"
    "list_ok (l_head l) (Some (l_brk l)) ((l_heap l)(l_brk l \<mapsto> \<lparr>pi_data = d, pi_next = None\<rparr>, z \<mapsto> m\<lparr>pi_next := Some (l_brk l)\<rparr>))
       (Suc (l_brk l)) (ds @ [d])" by (auto simp: lane_ok_def)
  with Some show ?thesis by (simp add: lane_ok_def pis_link_def l2_def)
qed

lemma lane_dequeue:
  assumes "lane_ok l (d # ds)"
  shows "\<exists>a l1 n. l_head l = Some a \<and> pis_unlink a l = Done l1 \<and> l_heap l1 a = Some n \<and> pi_data n = d \<and>
    lane_ok (l1\<lparr>d_guard := g, l_heap := (l_heap l1)(a := None)\<rparr>) ds \<and> e_guard l1 = e_guard l"
proof -
  from list_ok_Cons [OF assms [unfolded lane_ok_def]] obtain a m where m: "l_head l = Some a" "l_heap l a = Some m" "pi_data m = d" "pi_next m = None \<longleftrightarrow> ds = []"
    "ds = [] \<longrightarrow> l_tail l = Some a" "list_ok (pi_next m) (if ds = [] then None else l_tail l) ((l_heap l)(a := None)) (l_brk l) ds"
    by (elim exE conjE) metis
  let ?l = "l\<lparr>l_head := pi_next m, l_tail := (if ds = [] then None else l_tail l)\<rparr>"
  have "pis_unlink a l = Done ?l" using m by (cases "ds = []") (auto simp: pis_unlink_def)
  with m show ?thesis by (intro exI [of _ a] exI [of _ ?l] exI [of _ m]) (auto simp: lane_ok_def)
qed

subsection \<open>All lists together\<close>

text \<open>
  The queue \<open>xs\<close>, of which \<open>d\<close> elements have gone before, as its share on list \<open>i\<close>; and the next turn of list \<open>i\<close> at or
  after turn \<open>e\<close>.
\<close>

fun lane_of :: "nat \<Rightarrow> nat \<Rightarrow> 'b list \<Rightarrow> nat \<Rightarrow> 'b list" where
  "lane_of N d [] i = []"
| "lane_of N d (x # xs) i = (if d mod N = i then x # lane_of N (Suc d) xs i else lane_of N (Suc d) xs i)"

definition turn :: "nat \<Rightarrow> nat \<Rightarrow> nat \<Rightarrow> nat" where
  "turn N e i = (if e mod N \<le> i then e + (i - e mod N) else e + (i + N - e mod N))"

lemma lane_of_snoc:
  "lane_of N d (xs @ [x]) i = lane_of N d xs i @ (if (d + length xs) mod N = i then [x] else [])"
  by (induction xs arbitrary: d) auto

lemma turn_now [simp]: "turn N e (e mod N) = e"
  by (simp add: turn_def)

lemma turn_Suc:
  assumes "i < N"
  shows "turn N (Suc e) i = (if i = e mod N then e + N else turn N e i)"
proof -
  define r where "r = e mod N"
  have "r < N" unfolding r_def using assms by (intro mod_less_divisor) simp
  with assms show ?thesis unfolding turn_def mod_Suc r_def [symmetric] by auto
qed

definition lane_rep :: "nat \<Rightarrow> nat \<Rightarrow> nat \<Rightarrow> 'a option list \<Rightarrow> nat \<Rightarrow> 'a pqueue_gl \<Rightarrow> bool" where
  "lane_rep N d e xs i l \<longleftrightarrow>
     lane_ok l (lane_of N d xs i) \<and> e_guard l = int (turn N e i) - int N \<and> d_guard l = int (turn N d i) - int N"

definition pq_rep :: "'a ev_pqueue \<Rightarrow> nat \<Rightarrow> nat \<Rightarrow> 'a option list \<Rightarrow> bool" where
  "pq_rep q N d xs \<longleftrightarrow>
     0 < N \<and> pq_N q = int N \<and> length (gl_array q) = N \<and> d + length xs < 2147483648 \<and>
     deq_counter q = of_nat d \<and> enq_counter q = of_nat (d + length xs) \<and>
     ub_count q = of_nat (length xs) \<and> lb_count q = of_nat (length xs) \<and>
     (\<forall>i<N. lane_rep N d (d + length xs) xs i (gl_array q ! i))"

lemma sint_of_nat [simp]: "n < 2147483648 \<Longrightarrow> sint (of_nat n :: 32 word) = int n"
  by (simp add: signed_of_nat signed_take_bit_int_eq_self)

lemma c_mod_nat [simp]: "c_mod (int e) (int N) = int (e mod N)"
  by (simp add: c_mod_def zmod_int)

lemma lane_at_nat: "length (gl_array q) = N \<Longrightarrow> i < N \<Longrightarrow> lane_at (int i) q = Done (gl_array q ! i)"
  by (simp add: lane_at_def)

text \<open>A list that has taken its turn is put back; the others stay.\<close>

lemma lanes_upd:
  assumes "\<forall>i<N. lane_rep N d e xs i (ls ! i)" "length ls = N" "k < N" "lane_rep N d' e' xs' k l"
    "\<And>i. i < N \<Longrightarrow> i \<noteq> k \<Longrightarrow> turn N d' i = turn N d i \<and> turn N e' i = turn N e i \<and> lane_of N d' xs' i = lane_of N d xs i"
  shows "\<forall>i<N. lane_rep N d' e' xs' i (ls[k := l] ! i)"
  using assms by (auto simp: nth_list_update lane_rep_def)

lemma enqueue_rep:
  assumes q: "pq_rep q N d xs" and b: "d + length xs + 1 < 2147483648"
  shows "\<exists>q'. enqueue_ev_pqueue q x = Done q' \<and> pq_rep q' N d (xs @ [x])"
proof -
  define e where "e = d + length xs"
  let ?k = "e mod N"
  from q have N: "0 < N" "pq_N q = int N" "length (gl_array q) = N" "enq_counter q = of_nat e"
    and L: "\<forall>i<N. lane_rep N d e xs i (gl_array q ! i)" by (simp_all add: pq_rep_def e_def)
  have k: "?k < N" using N(1) by simp
  let ?l = "gl_array q ! ?k"
  from L k have l: "lane_ok ?l (lane_of N d xs ?k)" "e_guard ?l = int e - int N" "d_guard ?l = int (turn N d ?k) - int N"
    by (simp_all add: lane_rep_def)
  from lane_enqueue [OF l(1), where d = x and g = "int e"] obtain l3 where
    l3: "pis_link (l_tail ?l) (l_brk ?l) (?l\<lparr>l_heap := (l_heap ?l)(l_brk ?l \<mapsto> \<lparr>pi_data = x, pi_next = None\<rparr>),
        l_brk := Suc (l_brk ?l), l_tail := Some (l_brk ?l), e_guard := int e\<rparr>) = Done l3"
      "lane_ok l3 (lane_of N d xs ?k @ [x])" "e_guard l3 = int e" "d_guard l3 = d_guard ?l" by blast
  let ?q = "q\<lparr>ub_count := ub_count q + 1, enq_counter := enq_counter q + 1, lb_count := lb_count q + 1\<rparr>"
  have se: "sint (enq_counter q) = int e" unfolding N(4) by (rule sint_of_nat) (use b e_def in simp)
  have at: "lane_at (int ?k) ?q = Done ?l" using N(3) k by (simp add: lane_at_def)
  have enq: "enqueue_ev_pqueue q x = Done (put_lane (int ?k) l3 ?q)"
    unfolding enqueue_ev_pqueue_def se Let_def using at l(2) l3(1) N(2) by (simp add: FIFO_enter_def)
  have "\<forall>i<N. lane_rep N d (Suc e) (xs @ [x]) i ((gl_array q)[?k := l3] ! i)"
    by (rule lanes_upd [OF L N(3) k]) (use l l3 k in \<open>auto simp: lane_rep_def lane_of_snoc turn_Suc e_def [symmetric]\<close>)
  then have "pq_rep (put_lane (int ?k) l3 ?q) N d (xs @ [x])"
    using q b by (simp add: pq_rep_def put_lane_def add.commute e_def)
  with enq show ?thesis by blast
qed

lemma dequeue_rep_empty: "pq_rep q N d [] \<Longrightarrow> dequeue_ev_pqueue q = Done (None, q)"
  by (simp add: pq_rep_def dequeue_ev_pqueue_def ev_pqueue_is_empty_def test_dec_retest_def)

lemma dequeue_rep:
  assumes q: "pq_rep q N d (x # xs)"
  shows "\<exists>q'. dequeue_ev_pqueue q = Done (x, q') \<and> pq_rep q' N (Suc d) xs"
proof -
  let ?k = "d mod N" and ?e = "Suc d + length xs"
  from q have N: "0 < N" "pq_N q = int N" "length (gl_array q) = N" "deq_counter q = of_nat d" "d + length xs + 1 < 2147483648"
      "lb_count q = of_nat (length xs + 1)" "ub_count q = of_nat (length xs + 1)"
    and L: "\<forall>i<N. lane_rep N d ?e (x # xs) i (gl_array q ! i)" by (simp_all add: pq_rep_def)
  have k: "?k < N" using N(1) by simp
  let ?l = "gl_array q ! ?k"
  from L [rule_format, OF k] have l: "lane_ok ?l (x # lane_of N (Suc d) xs ?k)" "d_guard ?l = int d - int N"
    "e_guard ?l = int (turn N ?e ?k) - int N" by (simp_all add: lane_rep_def)
  from lane_dequeue [OF l(1), of "int d"] obtain a l1 n where
    a: "l_head ?l = Some a" "pis_unlink a ?l = Done l1" "l_heap l1 a = Some n" "pi_data n = x"
      "lane_ok (l1\<lparr>d_guard := int d, l_heap := (l_heap l1)(a := None)\<rparr>) (lane_of N (Suc d) xs ?k)" "e_guard l1 = e_guard ?l" by blast
  let ?l2 = "l1\<lparr>d_guard := int d, l_heap := (l_heap l1)(a := None)\<rparr>"
  let ?q1 = "q\<lparr>lb_count := lb_count q - 1\<rparr>"
  let ?q = "?q1\<lparr>deq_counter := deq_counter q + 1, ub_count := ub_count q - 1\<rparr>"
  have sd: "sint (deq_counter q) = int d" unfolding N(4) by (rule sint_of_nat) (use N(5) in simp)
  have "sint (lb_count q) = int (length xs + 1)" unfolding N(6) by (rule sint_of_nat) (use N(5) in simp)
  then have ne: "ev_pqueue_is_empty q = Done (False, ?q1)"
    by (simp add: ev_pqueue_is_empty_def test_dec_retest_def)
  have at: "lane_at (int ?k) ?q = Done ?l" using N(3) k by (simp add: lane_at_def)
  have deq: "dequeue_ev_pqueue q = Done (x, put_lane (int ?k) ?l2 ?q)"
    unfolding dequeue_ev_pqueue_def ne Let_def using at l(2) a N(2) sd by (simp add: FIFO_enter_def)
  have "\<forall>i<N. lane_rep N (Suc d) ?e xs i ((gl_array q)[?k := ?l2] ! i)"
    by (rule lanes_upd [OF L N(3) k]) (use l(3) a(5,6) k in \<open>auto simp: lane_rep_def turn_Suc\<close>)
  then have "pq_rep (put_lane (int ?k) ?l2 ?q) N (Suc d) xs"
    using q by (simp add: pq_rep_def put_lane_def)
  with deq show ?thesis by blast
qed

subsection \<open>Properties\<close>

lemma nearest_loop_pos: "0 < t \<Longrightarrow> 0 < nearest_loop k n t"
  by (induction k n t rule: nearest_loop.induct) auto

lemma init_rep: "pq_rep (init_ev_pqueue_s (int N)) N 0 []" if "0 < N"
proof -
  have "lane_ok \<lparr>l_head = None, l_tail = None, l_heap = Map.empty, l_brk = 0, e_guard = e, d_guard = g\<rparr> []" for e g
    by (simp add: lane_ok_def)
  then show ?thesis using that by (auto simp: pq_rep_def init_ev_pqueue_s_def lane_rep_def turn_def)
qed

text \<open>The number of enqueues in a list of operations.\<close>

abbreviation enqueues :: "'a qop list \<Rightarrow> nat" where
  "enqueues ops \<equiv> length (filter (\<lambda>x. x \<noteq> Deq) ops)"

lemma pqueue_run:
  "pq_rep q N d xs \<Longrightarrow> d + length xs + enqueues ops < 2147483648 \<Longrightarrow>
   \<exists>q' d'. queue_run enqueue_ev_pqueue dequeue_ev_pqueue ops q = Done (fst (fifo_run ops xs), q') \<and>
     pq_rep q' N d' (snd (fifo_run ops xs))"
proof (induction ops xs arbitrary: q d rule: fifo_run.induct)
  case (2 x ops xs)
  then obtain q1 where q1: "enqueue_ev_pqueue q x = Done q1" "pq_rep q1 N d (xs @ [x])"
    using enqueue_rep [of q N d xs x] by auto
  with "2.IH" [OF q1(2)] "2.prems"(2) show ?case by auto
next
  case (3 ops)
  with dequeue_rep_empty [of q N d] show ?case by (fastforce simp: case_prod_beta)
next
  case (4 ops x xs)
  then obtain q1 where q1: "dequeue_ev_pqueue q = Done (x, q1)" "pq_rep q1 N (Suc d) xs"
    using dequeue_rep by blast
  with "4.IH" [OF q1(2)] "4.prems"(2) show ?case by (fastforce simp: case_prod_beta)
qed auto

lemma pqueue_destroy:
  "pq_rep q N d xs \<Longrightarrow> destroy_ev_pqueue (length xs + 1) q = Done (map the (takeWhile (\<lambda>x. x \<noteq> None) xs))"
proof (induction xs arbitrary: q d)
  case Nil
  then show ?case by (simp add: dequeue_rep_empty)
next
  case (Cons x xs)
  then obtain q1 where q1: "dequeue_ev_pqueue q = Done (x, q1)" "pq_rep q1 N (Suc d) xs" using dequeue_rep by blast
  show ?case
  proof (cases x)
    case (Some y)
    then show ?thesis using Cons.IH [OF q1(2)] q1(1) by simp
  qed (use q1 in simp)
qed

text \<open>
  C33. The lists of an \<open>ev_pqueue\<close> are together one queue. Any sequence of calls of \<open>enqueue_ev_pqueue\<close> and
  \<open>dequeue_ev_pqueue\<close> by one thread on a queue made by \<open>create_ev_pqueue\<close>, with fewer than \<open>2 ^ 31\<close> enqueues, runs to its
  end, waits for nobody, and returns what a list queue returns; \<open>destroy_ev_pqueue\<close> then ends after at most one dequeue
  more than there are elements and frees them in order, up to the first \<open>NULL\<close>.
\<close>

theorem ev_pqueue_refines_fifo:
  assumes "n \<le> 128" "enqueues ops < 2 ^ 31"
  shows "\<exists>q q'. create_ev_pqueue n = Done q \<and>
    queue_run enqueue_ev_pqueue dequeue_ev_pqueue ops q = Done (fst (fifo_run ops []), q') \<and>
    destroy_ev_pqueue (length (snd (fifo_run ops [])) + 1) q' =
      Done (map the (takeWhile (\<lambda>x. x \<noteq> None) (snd (fifo_run ops []))))"
proof -
  obtain N where N: "get_nearest_power_of_2 n = int N" "0 < N"
    using nearest_loop_pos [of 1 32 n] unfolding get_nearest_power_of_2_def by (metis of_nat_0_less_iff zero_less_imp_eq_int zero_less_one)
  have c: "create_ev_pqueue n = Done (init_ev_pqueue_s (int N))" using assms(1) N by (simp add: create_ev_pqueue_def)
  from pqueue_run [OF init_rep [OF N(2)], of ops] assms(2) obtain q' d' where
    "queue_run enqueue_ev_pqueue dequeue_ev_pqueue ops (init_ev_pqueue_s (int N)) = Done (fst (fifo_run ops []), q')"
    "pq_rep q' N d' (snd (fifo_run ops []))" by auto
  with c pqueue_destroy show ?thesis by blast
qed

theorem ev_pqueue_refines_fifo_witness:
  "\<exists>q q'. create_ev_pqueue 3 = Done q \<and>
    queue_run enqueue_ev_pqueue dequeue_ev_pqueue [Enq (Some (7::nat)), Deq, Deq, Enq (Some 8), Enq (Some 9), Deq] q =
      Done ([Some 7, None, Some 8], q') \<and> destroy_ev_pqueue 2 q' = Done [9]"
proof -
  let ?ops = "[Enq (Some (7::nat)), Deq, Deq, Enq (Some 8), Enq (Some 9), Deq]"
  have run: "fifo_run ?ops [] = ([Some 7, None, Some 8], [Some 9])" by simp
  have "enqueues ?ops < 2 ^ 31" by simp
  from ev_pqueue_refines_fifo [OF _ this, of 3, unfolded run] show ?thesis
    by (simp del: queue_run.simps destroy_ev_pqueue.simps add: numeral_2_eq_2)
qed

end
