(* ===== verification/Lanes.thy ===== *)
theory Lanes
  imports PQueue
begin

text \<open>
  What \<open>ev_piqueue.c\<close>, \<open>ev_mpiqueue.c\<close>, \<open>ev_spiqueue.c\<close> and \<open>ev_paqueue.c\<close> share: an array of lists, and a dequeue that looks
  at one list after the other until it finds an element or has met \<open>N\<close> empty lists in a row. The interface \<open>lane\<close> is
  what the loop needs of a list; \<open>bag_queue\<close> is what a program gets: a bag of elements from which nothing is lost,
  nothing comes out twice, and \<open>NULL\<close> is returned only when there is nothing.
\<close>

subsection \<open>The loop over the lists\<close>

text \<open>An element of an array, \<open>Bad_access\<close> outside of it.\<close>

definition arr_at :: "'b list \<Rightarrow> int \<Rightarrow> 'b outcome" where
  "arr_at xs i = (if 0 \<le> i \<and> i < int (length xs) then Done (xs ! nat i) else Bad_access)"

text \<open>
  A look at a list finds it empty, or claimed by another thread, or takes its first element. \<open>i\<close> counts the empty
  lists met; \<open>busy\<close> says what becomes of the count at a claimed list, \<open>nxt\<close> what becomes of the counter \<open>c\<close> whose remainder
  is the index. A loop that does not end within \<open>fuel\<close> looks is \<open>Spins\<close>.
\<close>

datatype 'a probe = P_empty | P_busy | P_found "'a option"

fun lane_scan ::
  "('l \<Rightarrow> ('a probe \<times> 'l) outcome) \<Rightarrow> (nat \<Rightarrow> nat) \<Rightarrow> (int \<Rightarrow> int) \<Rightarrow> int \<Rightarrow> nat \<Rightarrow> nat \<Rightarrow> int \<Rightarrow> 'l list \<Rightarrow>
   ('a option \<times> 'l list) outcome" where
  "lane_scan look busy nxt N 0 i c ls = (if int i = N then Done (None, ls) else Spins)"
| "lane_scan look busy nxt N (Suc fuel) i c ls =
     (if int i = N then Done (None, ls)
      else obind (arr_at ls (c_mod c N)) (\<lambda>l. obind (look l) (\<lambda>(r, l').
        let ls' = ls[nat (c_mod c N) := l']
        in case r of
             P_found d \<Rightarrow> Done (d, ls')
           | P_busy \<Rightarrow> lane_scan look busy nxt N fuel (busy i) (nxt c) ls'
           | P_empty \<Rightarrow> lane_scan look busy nxt N fuel (i + 1) (nxt c) ls')))"

lemma arr_at_nat [simp]: "k < length xs \<Longrightarrow> arr_at xs (int k) = Done (xs ! k)"
  by (simp add: arr_at_def)

lemma c_mod_Suc: "c_mod (int k + 1) (int N) = int (Suc k mod N)"
  using c_mod_nat [of "Suc k" N] by (simp add: add.commute)

lemma lane_turns: "c_mod (((\<lambda>c. c_mod c (int N) + 1) ^^ r) (int k)) (int N) = int ((k + r) mod N)"
proof (induction r)
  case (Suc r)
  then show ?case by (simp add: c_mod_Suc mod_Suc_eq)
qed simp

lemma nearest_nat: obtains N where "get_nearest_power_of_2 n = int N" "0 < N"
  using nearest_loop_pos [of 1 32 n] unfolding get_nearest_power_of_2_def
  by (metis of_nat_0_less_iff zero_less_imp_eq_int zero_less_one)

lemma replicate_upd_concat: "k < N \<Longrightarrow> concat ((replicate N [])[k := xs]) = xs"
  by (induction N arbitrary: k) (auto split: nat.splits simp: concat_replicate_trivial)

lemma mset_concat_upd:
  "j < length xs \<Longrightarrow> mset (concat (xs[j := y])) + mset (xs ! j) = mset (concat xs) + mset y"
  by (induction xs arbitrary: j) (auto simp: ac_simps split: nat.splits)

fun each_lane :: "('l \<Rightarrow> 'r outcome) \<Rightarrow> 'l list \<Rightarrow> 'r list outcome" where
  "each_lane f [] = Done []"
| "each_lane f (l # ls) = obind (f l) (\<lambda>r. obind (each_lane f ls) (\<lambda>rs. Done (r # rs)))"

lemma each_lane_law:
  assumes "\<And>l. l \<in> set ls \<Longrightarrow> \<exists>r. f l = Done r \<and> g r = h l"
  shows "\<exists>rs. each_lane f ls = Done rs \<and> map g rs = map h ls"
  using assms
proof (induction ls)
  case (Cons l ls)
  from Cons.prems [of l] obtain r where "f l = Done r" "g r = h l" by auto
  moreover from Cons.IH Cons.prems obtain rs where "each_lane f ls = Done rs" "map g rs = map h ls" by auto
  ultimately show ?case by simp
qed simp

text \<open>The loop finds all lists empty, or takes the first element of one of them.\<close>

definition scan_result ::
  "('l \<Rightarrow> bool) \<Rightarrow> ('l \<Rightarrow> 'a option list) \<Rightarrow> 'l list \<Rightarrow> ('a option \<times> 'l list) outcome \<Rightarrow> bool" where
  "scan_result linv lcont ls out \<longleftrightarrow>
     (\<exists>ls'. list_all linv ls' \<and>
        (out = Done (None, ls') \<and> map lcont ls' = map lcont ls \<and> concat (map lcont ls) = [] \<or>
         (\<exists>j x xs. j < length ls \<and> map lcont ls ! j = x # xs \<and> out = Done (x, ls') \<and>
            map lcont ls' = (map lcont ls)[j := xs])))"

lemma scan_resultI:
  "list_all linv ls' \<Longrightarrow> map lcont ls' = map lcont ls \<Longrightarrow> concat (map lcont ls) = [] \<Longrightarrow> scan_result linv lcont ls (Done (None, ls'))"
  "list_all linv ls' \<Longrightarrow> j < length ls \<Longrightarrow> map lcont ls ! j = x # xs \<Longrightarrow> map lcont ls' = (map lcont ls)[j := xs] \<Longrightarrow>
   scan_result linv lcont ls (Done (x, ls'))"
  unfolding scan_result_def by blast+

lemma scan_result_cong:
  assumes "map lcont ls = map lcont ms"
  shows "scan_result linv lcont ls out = scan_result linv lcont ms out"
  using assms map_eq_imp_length_eq [OF assms] by (simp add: scan_result_def)

lemma scan_resultE:
  assumes "scan_result linv lcont ls out"
  obtains ls' where "out = Done (None, ls')" "list_all linv ls'" "map lcont ls' = map lcont ls" "concat (map lcont ls) = []"
  | ls' j x xs where "out = Done (x, ls')" "list_all linv ls'" "j < length ls" "map lcont ls ! j = x # xs"
      "map lcont ls' = (map lcont ls)[j := xs]"
  using assms unfolding scan_result_def by blast

locale lane_look =
  fixes linv :: "'l \<Rightarrow> bool"
    and lcont :: "'l \<Rightarrow> 'a option list"
    and look :: "'l \<Rightarrow> ('a probe \<times> 'l) outcome"
  assumes look_empty: "linv l \<Longrightarrow> lcont l = [] \<Longrightarrow> \<exists>l'. look l = Done (P_empty, l') \<and> linv l' \<and> lcont l' = []"
    and look_found: "linv l \<Longrightarrow> lcont l = x # xs \<Longrightarrow> \<exists>l'. look l = Done (P_found x, l') \<and> linv l' \<and> lcont l' = xs"
    and no_null: "linv l \<Longrightarrow> None \<notin> set (lcont l)"
begin

text \<open>
  The lists that the loop visits are those after list \<open>k\<close>, in a circle. When every list that is not empty is among the
  next \<open>N - i\<close>, so many looks are enough.
\<close>

lemma scan_law:
  assumes "list_all linv ls" "length ls = N" "0 < N" "i \<le> N" "N - i \<le> fuel"
    "\<And>r. r < N - i \<Longrightarrow> c_mod ((nxt ^^ r) c) (int N) = int ((k + r) mod N)"
    "\<And>j. j < N \<Longrightarrow> map lcont ls ! j \<noteq> [] \<Longrightarrow> \<exists>r<N - i. j = (k + r) mod N"
  shows "scan_result linv lcont ls (lane_scan look busy nxt (int N) fuel i c ls)"
  using assms
proof (induction fuel arbitrary: ls k i c)
  case 0
  then have "i = N" by simp
  with 0(7) have "\<forall>j<N. map lcont ls ! j = []" by fastforce
  then have "concat (map lcont ls) = []" using 0(2) by (auto simp: in_set_conv_nth)
  with 0(1) \<open>i = N\<close> show ?case by (simp add: scan_resultI(1))
next
  case (Suc fuel)
  show ?case
  proof (cases "i = N")
    case True
    with Suc.prems(7) have "\<forall>j<N. map lcont ls ! j = []" by fastforce
    then have "concat (map lcont ls) = []" using Suc.prems(2) by (auto simp: in_set_conv_nth)
    with Suc.prems(1) True show ?thesis by (simp add: scan_resultI(1))
  next
    case False
    let ?k = "k mod N"
    let ?l = "ls ! ?k"
    have k: "?k < N" using Suc.prems(3) by simp
    have c: "c_mod c (int N) = int ?k" using Suc.prems(6) [of 0] Suc.prems(4) False by simp
    have l: "linv ?l" using Suc.prems(1,2) k by (simp add: list_all_length)
    have step: "lane_scan look busy nxt (int N) (Suc fuel) i c ls =
      obind (look ?l) (\<lambda>(r, l'). let ls' = ls[?k := l'] in case r of P_found d \<Rightarrow> Done (d, ls')
        | P_busy \<Rightarrow> lane_scan look busy nxt (int N) fuel (busy i) (nxt c) ls'
        | P_empty \<Rightarrow> lane_scan look busy nxt (int N) fuel (i + 1) (nxt c) ls')"
      using False c k Suc.prems(2) by simp
    show ?thesis
    proof (cases "lcont ?l")
      case (Cons x xs)
      from look_found [OF l Cons] obtain l' where l': "look ?l = Done (P_found x, l')" "linv l'" "lcont l' = xs" by blast
      from l' Cons Suc.prems(1,2) k have "scan_result linv lcont ls (Done (x, ls[?k := l']))"
        by (intro scan_resultI(2) [of _ _ ?k]) (auto simp: list_all_length nth_list_update map_update)
      with l'(1) step show ?thesis by simp
    next
      case Nil
      from look_empty [OF l Nil] obtain l' where l': "look ?l = Done (P_empty, l')" "linv l'" "lcont l' = []" by blast
      let ?ls = "ls[?k := l']"
      have m: "map lcont ?ls = map lcont ls" using Nil l' Suc.prems(2) k by (simp add: map_update list_update_same_conv)
      have ahead: "\<exists>r<N - Suc i. j = (Suc k + r) mod N" if j: "j < N" "map lcont ?ls ! j \<noteq> []" for j
      proof -
        from Suc.prems(7) [of j] j m obtain r where r: "r < N - i" "j = (k + r) mod N" by auto
        have "r \<noteq> 0" using r j(2) m Nil Suc.prems(2) k by (intro notI) simp
        then obtain r' where "r = Suc r'" by (cases r) auto
        with r show ?thesis by (intro exI [of _ r']) auto
      qed
      have idx: "c_mod ((nxt ^^ r) (nxt c)) (int N) = int ((Suc k + r) mod N)" if "r < N - Suc i" for r
        using Suc.prems(6) [of "Suc r"] that by (simp add: funpow_swap1)
      have "scan_result linv lcont ?ls (lane_scan look busy nxt (int N) fuel (Suc i) (nxt c) ?ls)"
        by (rule Suc.IH [where k = "Suc k"]) (use Suc.prems False l'(2) ahead idx in \<open>auto simp: list_all_length nth_list_update\<close>)
      then show ?thesis using scan_result_cong [OF m] step l'(1) by simp
    qed
  qed
qed

text \<open>From any list on, a whole round.\<close>

lemma scan_round:
  assumes "list_all linv ls" "length ls = N" "0 < N" "N \<le> fuel"
    "\<And>r. r < N \<Longrightarrow> c_mod ((nxt ^^ r) c) (int N) = int ((k + r) mod N)"
  shows "scan_result linv lcont ls (lane_scan look busy nxt (int N) fuel 0 c ls)"
proof (rule scan_law [OF assms(1-3), where k = k])
  fix j assume j: "j < N" "map lcont ls ! j \<noteq> []"
  let ?r = "(j + (N - k mod N)) mod N"
  have "(k + ?r) mod N = (k mod N + (j + (N - k mod N))) mod N" by (simp add: mod_simps)
  also have "k mod N + (j + (N - k mod N)) = j + N" using mod_less_divisor [OF assms(3), of k] by linarith
  finally have "j = (k + ?r) mod N" using j(1) by simp
  moreover have "?r < N - 0" using assms(3) by simp
  ultimately show "\<exists>r<N - 0. j = (k + r) mod N" by blast
qed (use assms in auto)

end

text \<open>A list that an enqueue can append to.\<close>

locale lane = lane_look linv lcont look
  for linv :: "'l \<Rightarrow> bool" and lcont :: "'l \<Rightarrow> 'a option list" and look :: "'l \<Rightarrow> ('a probe \<times> 'l) outcome" +
  fixes put :: "'l \<Rightarrow> 'a option \<Rightarrow> 'l outcome"
  assumes put_law: "linv l \<Longrightarrow> \<exists>l'. put l (Some y) = Done l' \<and> linv l' \<and> lcont l' = lcont l @ [Some y]"

text \<open>What a round does to the bag of elements of all lists.\<close>

definition lanes_bag :: "('l \<Rightarrow> 'a option list) \<Rightarrow> 'l list \<Rightarrow> 'a option multiset" where
  "lanes_bag lcont ls = mset (concat (map lcont ls))"

lemma lanes_bag_upd:
  assumes "j < length ls" "map lcont ls' = (map lcont ls)[j := ys]"
  shows "lanes_bag lcont ls' + mset (lcont (ls ! j)) = lanes_bag lcont ls + mset ys"
  using assms mset_concat_upd [of j "map lcont ls" ys] by (simp add: lanes_bag_def)

lemma scan_bag:
  assumes "scan_result linv lcont ls out"
  shows "\<exists>r ls'. out = Done (r, ls') \<and> list_all linv ls' \<and> length ls' = length ls \<and>
    (lanes_bag lcont ls = {#} \<and> r = None \<and> lanes_bag lcont ls' = {#} \<or> lanes_bag lcont ls = add_mset r (lanes_bag lcont ls'))"
  using assms
proof (cases rule: scan_resultE)
  case (1 ls')
  have "lanes_bag lcont ls' = lanes_bag lcont ls" "lanes_bag lcont ls = {#}" by (simp_all only: lanes_bag_def 1) simp
  with 1(1,2) map_eq_imp_length_eq [OF 1(3)] show ?thesis by simp
next
  case (2 ls' j x xs)
  then have "length ls' = length ls" by (metis length_list_update length_map)
  with 2 lanes_bag_upd [OF 2(3,5)] show ?thesis by auto
qed

lemma put_bag:
  assumes "j < length ls" "lcont l' = lcont (ls ! j) @ [d]"
  shows "lanes_bag lcont (ls[j := l']) = add_mset d (lanes_bag lcont ls)"
  using lanes_bag_upd [of j ls lcont "ls[j := l']" "lcont l'"] assms by (simp add: map_update)

lemma bag_no_null:
  assumes "list_all linv ls" "\<And>l. linv l \<Longrightarrow> None \<notin> set (lcont l)"
  shows "None \<notin># lanes_bag lcont ls"
  using assms by (auto simp: lanes_bag_def list_all_iff)

subsection \<open>A queue for the callers\<close>

text \<open>Operations that work on a representation of a list, for the elements that are allowed, run as on the list.\<close>

locale fifo_rep =
  fixes rep :: "'q \<Rightarrow> 'a option list \<Rightarrow> bool"
    and ok :: "'a option \<Rightarrow> bool"
    and enq :: "'q \<Rightarrow> 'a option \<Rightarrow> 'q outcome"
    and deq :: "'q \<Rightarrow> ('a option \<times> 'q) outcome"
  assumes enq_law: "rep q xs \<Longrightarrow> ok d \<Longrightarrow> \<exists>q'. enq q d = Done q' \<and> rep q' (xs @ [d])"
    and deq_empty_law: "rep q [] \<Longrightarrow> \<exists>q'. deq q = Done (None, q') \<and> rep q' []"
    and deq_law: "rep q (x # xs) \<Longrightarrow> \<exists>q'. deq q = Done (x, q') \<and> rep q' xs"
begin

lemma run_rep:
  "rep q xs \<Longrightarrow> \<forall>d. Enq d \<in> set ops \<longrightarrow> ok d \<Longrightarrow>
   \<exists>q'. queue_run enq deq ops q = Done (fst (fifo_run ops xs), q') \<and> rep q' (snd (fifo_run ops xs))"
proof (induction ops xs arbitrary: q rule: fifo_run.induct)
  case (2 d ops xs)
  then obtain q1 where q1: "enq q d = Done q1" "rep q1 (xs @ [d])" using enq_law [of q xs d] by auto
  with "2.IH" [OF q1(2)] "2.prems"(2) show ?case by auto
next
  case (3 ops)
  then obtain q1 where q1: "deq q = Done (None, q1)" "rep q1 []" using deq_empty_law [of q] by auto
  with "3.IH" [OF q1(2)] "3.prems"(2) show ?case by (fastforce simp: case_prod_beta)
next
  case (4 ops x xs)
  then obtain q1 where q1: "deq q = Done (x, q1)" "rep q1 xs" using deq_law [of q x xs] by auto
  with "4.IH" [OF q1(2)] "4.prems"(2) show ?case by (fastforce simp: case_prod_beta)
qed auto

end

subsection \<open>A bag for the callers\<close>

text \<open>
  What the results \<open>rs\<close> of the dequeues may be when a bag \<open>M\<close> is there at the start, and the bag that is left: a dequeue
  takes an element out of the bag, or returns \<open>NULL\<close> when it is empty. The number in the invariant is how many calls the counters of the code still bear.
\<close>

fun bag_run :: "'a qop list \<Rightarrow> 'a option list \<Rightarrow> 'a option multiset \<Rightarrow> 'a option multiset option" where
  "bag_run [] rs M = (if rs = [] then Some M else None)"
| "bag_run (Enq d # ops) rs M = bag_run ops rs (add_mset d M)"
| "bag_run (Deq # ops) [] M = None"
| "bag_run (Deq # ops) (r # rs) M =
     (if r = None then if M = {#} then bag_run ops rs M else None
      else if r \<in># M then bag_run ops rs (M - {#r#}) else None)"

lemma bag_run_size: "bag_run ops rs M = Some M' \<Longrightarrow> size M' \<le> size M + length ops"
proof (induction ops rs M rule: bag_run.induct)
  case (2 d ops rs M)
  then show ?case by fastforce
next
  case (4 ops r rs M)
  then show ?case by (fastforce simp: size_Diff_singleton split: if_splits)
qed (auto split: if_splits)

text \<open>\<open>while ((qe = dequeue(q))) ...\<close>: the elements that come out until there is none.\<close>

fun drain :: "nat \<Rightarrow> ('q \<Rightarrow> ('a option \<times> 'q) outcome) \<Rightarrow> 'q \<Rightarrow> 'a list outcome" where
  "drain 0 deq q = Spins"
| "drain (Suc fuel) deq q =
     obind (deq q) (\<lambda>(qe, q1). case qe of None \<Rightarrow> Done [] | Some x \<Rightarrow> obind (drain fuel deq q1) (\<lambda>xs. Done (x # xs)))"

locale bag_queue =
  fixes invar :: "nat \<Rightarrow> 'q \<Rightarrow> bool"
    and bag :: "'q \<Rightarrow> 'a option multiset"
    and enq :: "'q \<Rightarrow> 'a option \<Rightarrow> 'q outcome"
    and deq :: "'q \<Rightarrow> ('a option \<times> 'q) outcome"
  assumes enq_law: "invar (Suc b) q \<Longrightarrow> \<exists>q'. enq q (Some x) = Done q' \<and> invar b q' \<and> bag q' = add_mset (Some x) (bag q)"
    and deq_law: "invar (Suc b) q \<Longrightarrow> \<exists>r q'. deq q = Done (r, q') \<and> invar b q' \<and>
      (bag q = {#} \<and> r = None \<and> bag q' = {#} \<or> r \<noteq> None \<and> bag q = add_mset r (bag q'))"
begin

lemma run_bag:
  "invar (length ops + b) q \<Longrightarrow> Enq None \<notin> set ops \<Longrightarrow>
   \<exists>rs q'. queue_run enq deq ops q = Done (rs, q') \<and> invar b q' \<and> bag_run ops rs (bag q) = Some (bag q')"
proof (induction ops arbitrary: q)
  case (Cons op ops)
  then have i: "invar (Suc (length ops + b)) q" by simp
  show ?case
  proof (cases op)
    case (Enq d)
    with Cons.prems obtain x where "d = Some x" by (cases d) auto
    with enq_law [OF i, of x] Enq Cons show ?thesis by fastforce
  next
    case Deq
    from deq_law [OF i] obtain r q' where r: "deq q = Done (r, q')" "invar (length ops + b) q'"
      "bag q = {#} \<and> r = None \<and> bag q' = {#} \<or> r \<noteq> None \<and> bag q = add_mset r (bag q')" by blast
    from Cons.IH [OF r(2)] Cons.prems(2) obtain rs q2 where
      "queue_run enq deq ops q' = Done (rs, q2)" "invar b q2" "bag_run ops rs (bag q') = Some (bag q2)" by auto
    with Deq r show ?thesis by auto
  qed
qed simp

lemma drain_bag:
  "invar (Suc (size (bag q)) + b) q \<Longrightarrow> size (bag q) < fuel \<Longrightarrow>
   \<exists>xs. drain fuel deq q = Done xs \<and> image_mset Some (mset xs) = bag q"
proof (induction fuel arbitrary: q)
  case (Suc fuel)
  from deq_law [of "size (bag q) + b" q] Suc.prems(1) obtain r q' where r: "deq q = Done (r, q')" "invar (size (bag q) + b) q'"
    "bag q = {#} \<and> r = None \<and> bag q' = {#} \<or> r \<noteq> None \<and> bag q = add_mset r (bag q')" by auto
  show ?case
  proof (cases r)
    case None
    with r show ?thesis by auto
  next
    case (Some x)
    with r have "bag q = add_mset (Some x) (bag q')" by auto
    with Suc.IH [of q'] r(1,2) Suc.prems(2) Some show ?thesis by auto
  qed
qed simp

end

end
