(* ===== verification/PiQueue.thy ===== *)
theory PiQueue
  imports Lanes
begin

text \<open>
  \<open>src/evds/ev_piqueue.c\<close>, run by one thread: an array of \<open>ev_queue\<close>s, filled in turn and emptied from a list that moves on
  with every dequeue. The counters of the turns are static variables of the file, which all queues share. The calls
  work on these variables and one queue; the counters in \<open>struct ev_piqueue_s\<close> are never used and are left out.
\<close>

subsection \<open>State and operations\<close>

record pi_statics =
  st_index :: int
  st_dindex :: "32 word"
  succ_count :: "64 word"

record 'a ev_piqueue =
  piq_array :: "'a ev_queue list"
  piq_N :: int

definition piq_statics :: pi_statics where
  "piq_statics = \<lparr>st_index = 0, st_dindex = 0, succ_count = 0\<rparr>"

definition init_ev_piqueue_s :: "int \<Rightarrow> 'a ev_piqueue" where
  "init_ev_piqueue_s N = \<lparr>piq_array = replicate (nat N) create_ev_queue, piq_N = N\<rparr>"

text \<open>The numbers of lists that \<open>get_nearest_power_of_2\<close> finds without overflow are those up to \<open>2 ^ 30\<close>.\<close>

definition create_ev_piqueue :: "int \<Rightarrow> 'a ev_piqueue" where
  "create_ev_piqueue n = init_ev_piqueue_s (get_nearest_power_of_2 n)"

definition ev_piqueue_peek :: "'a ev_piqueue \<Rightarrow> int" where
  "ev_piqueue_peek q = 0"

definition enqueue_ev_piqueue :: "pi_statics \<times> 'a ev_piqueue \<Rightarrow> 'a option \<Rightarrow> (pi_statics \<times> 'a ev_piqueue) outcome" where
  "enqueue_ev_piqueue sq data =
     (let (s, q) = sq
      in obind (arr_at (piq_array q) (st_index s)) (\<lambda>l. obind (enqueue l data) (\<lambda>l'.
           Done (s\<lparr>st_index := c_mod (st_index s + 1) (piq_N q), succ_count := succ_count s + 1\<rparr>,
                 q\<lparr>piq_array := (piq_array q)[nat (st_index s) := l']\<rparr>))))"

text \<open>A busy list sets the count of empty lists to 0 and then counts as one of them.\<close>

definition piq_look :: "'a ev_queue \<Rightarrow> ('a probe \<times> 'a ev_queue) outcome" where
  "piq_look l =
     obind (try_dequeue l) (\<lambda>(ret, return_data, l').
       Done (if ret = -1 \<and> return_data = None then P_busy
             else if return_data \<noteq> None then P_found return_data else P_empty, l'))"

definition dequeue_ev_piqueue :: "nat \<Rightarrow> pi_statics \<times> 'a ev_piqueue \<Rightarrow> ('a option \<times> pi_statics \<times> 'a ev_piqueue) outcome" where
  "dequeue_ev_piqueue fuel sq =
     (let (s, q) = sq
      in obind (lane_scan piq_look (\<lambda>i. 0 + 1) (\<lambda>c. c_mod c (piq_N q) + 1) (piq_N q) fuel 0 (sint (st_dindex s)) (piq_array q))
           (\<lambda>(return_data, ls).
             Done (return_data,
               s\<lparr>st_dindex := st_dindex s + 1,
                 succ_count := (if return_data = None then succ_count s else succ_count s - 1)\<rparr>,
               q\<lparr>piq_array := ls\<rparr>)))"

text \<open>\<open>destroy_ev_piqueue\<close> runs \<open>wf_destroy_ev_queue\<close> on every list: the elements that were left, which are not freed.\<close>

definition destroy_ev_piqueue :: "nat \<Rightarrow> 'a ev_piqueue \<Rightarrow> 'a list list outcome" where
  "destroy_ev_piqueue fuel q = each_lane (\<lambda>l. obind (destroy_ev_queue fuel l) (\<lambda>(left, l'). Done left)) (piq_array q)"

definition debug_ev_piqueue :: "'a ev_piqueue \<Rightarrow> 'a option list list outcome" where
  "debug_ev_piqueue q = each_lane debug_queue (piq_array q)"

subsection \<open>The lists are lanes\<close>

definition piq_lane :: "'a ev_queue \<Rightarrow> bool" where
  "piq_lane l \<longleftrightarrow> evq_inv l \<and> None \<notin> set (evq_list l)"

interpretation piq: lane piq_lane evq_list piq_look enqueue
proof
  fix l :: "'a ev_queue"
  assume l: "piq_lane l"
  show "None \<notin> set (evq_list l)" using l by (simp add: piq_lane_def)
  have t: "\<exists>l'. try_dequeue l = Done (0, (case evq_list l of [] \<Rightarrow> None | d # ds \<Rightarrow> d), l') \<and> evq_inv l' \<and> evq_list l' = tl (evq_list l)"
    by (rule try_dequeue_takes_first) (use l in \<open>simp add: piq_lane_def\<close>)
  show "\<exists>l'. piq_look l = Done (P_empty, l') \<and> piq_lane l' \<and> evq_list l' = []" if "evq_list l = []"
  proof -
    from t that obtain l' where "try_dequeue l = Done (0, None, l')" "evq_inv l'" "evq_list l' = []" by auto
    then show ?thesis by (simp add: piq_look_def piq_lane_def)
  qed
  show "\<exists>l'. piq_look l = Done (P_found x, l') \<and> piq_lane l' \<and> evq_list l' = xs" if "evq_list l = x # xs" for x xs
  proof -
    have n: "x \<noteq> None" "None \<notin> set xs" using l that unfolding piq_lane_def by (cases x; simp)+
    from n(1) obtain y where "x = Some y" by blast
    moreover note n(2)
    moreover from t that obtain l' where "try_dequeue l = Done (0, x, l')" "evq_inv l'" "evq_list l' = xs" by auto
    ultimately show ?thesis by (simp add: piq_look_def piq_lane_def)
  qed
  show "\<exists>l'. enqueue l (Some y) = Done l' \<and> piq_lane l' \<and> evq_list l' = evq_list l @ [Some y]" for y
    using evq.enq_law [of l "Some y"] l by (auto simp: piq_lane_def)
qed

text \<open>\<open>b\<close> calls more do not overflow \<open>st_dindex\<close>.\<close>

definition piq_inv :: "nat \<Rightarrow> pi_statics \<times> 'a ev_piqueue \<Rightarrow> bool" where
  "piq_inv b = (\<lambda>(s, q). \<exists>N d. 0 < N \<and> piq_N q = int N \<and> length (piq_array q) = N \<and> list_all piq_lane (piq_array q) \<and>
     0 \<le> st_index s \<and> st_index s < int N \<and> st_dindex s = of_nat d \<and> d + b < 2147483648)"

definition piq_bag :: "pi_statics \<times> 'a ev_piqueue \<Rightarrow> 'a option multiset" where
  "piq_bag = (\<lambda>(s, q). lanes_bag evq_list (piq_array q))"

lemma piq_enqueue:
  assumes "piq_inv (Suc b) sq"
  shows "\<exists>sq'. enqueue_ev_piqueue sq (Some x) = Done sq' \<and> piq_inv b sq' \<and> length (piq_array (snd sq')) = length (piq_array (snd sq)) \<and>
    piq_bag sq' = add_mset (Some x) (piq_bag sq)"
proof -
  obtain s q N d where q: "sq = (s, q)" "0 < N" "piq_N q = int N" "length (piq_array q) = N" "list_all piq_lane (piq_array q)"
    "st_dindex s = of_nat d" "d + Suc b < 2147483648" "0 \<le> st_index s" "st_index s < int N" using assms by (auto simp: piq_inv_def)
  then obtain k where k: "st_index s = int k" "k < N" using nonneg_int_cases by (metis of_nat_less_iff)
  let ?l = "piq_array q ! k"
  have "piq_lane ?l" using q(4,5) k(2) by (simp add: list_all_length)
  from piq.put_law [OF this, of x] obtain l' where l': "enqueue ?l (Some x) = Done l'" "piq_lane l'" "evq_list l' = evq_list ?l @ [Some x]" by blast
  let ?s = "s\<lparr>st_index := int (Suc k mod N), succ_count := succ_count s + 1\<rparr>" and ?q = "q\<lparr>piq_array := (piq_array q)[k := l']\<rparr>"
  have "enqueue_ev_piqueue sq (Some x) = Done (?s, ?q)"
    using q(1,3,4) k l'(1) by (simp add: enqueue_ev_piqueue_def c_mod_Suc)
  moreover have "piq_inv b (?s, ?q)" using q k l'(2) by (auto simp: piq_inv_def list_all_length nth_list_update)
  moreover have "piq_bag (?s, ?q) = add_mset (Some x) (piq_bag sq)"
    using q(1,4) k(2) l'(3) by (simp add: piq_bag_def put_bag)
  ultimately show ?thesis using q(1) by auto
qed

lemma piq_dequeue:
  assumes "piq_inv (Suc b) sq" "length (piq_array (snd sq)) \<le> fuel"
  shows "\<exists>r sq'. dequeue_ev_piqueue fuel sq = Done (r, sq') \<and> piq_inv b sq' \<and> length (piq_array (snd sq')) = length (piq_array (snd sq)) \<and>
    (piq_bag sq = {#} \<and> r = None \<and> piq_bag sq' = {#} \<or> r \<noteq> None \<and> piq_bag sq = add_mset r (piq_bag sq'))"
proof -
  obtain s q N d where q: "sq = (s, q)" "0 < N" "piq_N q = int N" "length (piq_array q) = N" "list_all piq_lane (piq_array q)"
    "st_dindex s = of_nat d" "d + Suc b < 2147483648" "0 \<le> st_index s" "st_index s < int N" using assms(1) by (auto simp: piq_inv_def)
  have d: "sint (st_dindex s) = int d" unfolding q(6) by (rule sint_of_nat) (use q(7) in simp)
  have "scan_result piq_lane evq_list (piq_array q)
    (lane_scan piq_look (\<lambda>i. 0 + 1) (\<lambda>c. c_mod c (int N) + 1) (int N) fuel 0 (int d) (piq_array q))"
    by (rule piq.scan_round [OF q(5,4,2)]) (use assms(2) q(1,4) lane_turns in auto)
  from scan_bag [OF this] obtain r ls where r:
    "lane_scan piq_look (\<lambda>i. 0 + 1) (\<lambda>c. c_mod c (int N) + 1) (int N) fuel 0 (int d) (piq_array q) = Done (r, ls)"
    "list_all piq_lane ls" "length ls = length (piq_array q)"
    "lanes_bag evq_list (piq_array q) = {#} \<and> r = None \<and> lanes_bag evq_list ls = {#} \<or>
     lanes_bag evq_list (piq_array q) = add_mset r (lanes_bag evq_list ls)" by blast
  let ?s = "s\<lparr>st_dindex := st_dindex s + 1, succ_count := (if r = None then succ_count s else succ_count s - 1)\<rparr>"
    and ?q = "q\<lparr>piq_array := ls\<rparr>"
  have "dequeue_ev_piqueue fuel sq = Done (r, ?s, ?q)" using q(1,3) d r(1) by (simp add: dequeue_ev_piqueue_def)
  moreover have "piq_inv b (?s, ?q)" using q r(2,3) by (auto simp: piq_inv_def intro!: exI [of _ "Suc d"])
  moreover have "None \<notin># lanes_bag evq_list (piq_array q)" by (rule bag_no_null [OF q(5) piq.no_null])
  ultimately show ?thesis using r(3,4) q(1) by (fastforce simp: piq_bag_def)
qed

interpretation piqs: bag_queue "\<lambda>b sq. piq_inv b sq \<and> length (piq_array (snd sq)) \<le> fuel" piq_bag
  enqueue_ev_piqueue "dequeue_ev_piqueue fuel" for fuel
proof
  fix b x and sq :: "pi_statics \<times> 'a ev_piqueue"
  assume "piq_inv (Suc b) sq \<and> length (piq_array (snd sq)) \<le> fuel"
  then show "\<exists>sq'. enqueue_ev_piqueue sq (Some x) = Done sq' \<and> (piq_inv b sq' \<and> length (piq_array (snd sq')) \<le> fuel) \<and>
    piq_bag sq' = add_mset (Some x) (piq_bag sq)" using piq_enqueue [of b sq x] by metis
next
  fix b and sq :: "pi_statics \<times> 'a ev_piqueue"
  assume "piq_inv (Suc b) sq \<and> length (piq_array (snd sq)) \<le> fuel"
  then show "\<exists>r sq'. dequeue_ev_piqueue fuel sq = Done (r, sq') \<and> (piq_inv b sq' \<and> length (piq_array (snd sq')) \<le> fuel) \<and>
    (piq_bag sq = {#} \<and> r = None \<and> piq_bag sq' = {#} \<or> r \<noteq> None \<and> piq_bag sq = add_mset r (piq_bag sq'))"
    using piq_dequeue [of b sq fuel] by metis
qed

subsection \<open>Properties\<close>

lemma piq_created:
  assumes "0 < N" "b < 2147483648"
  shows "piq_inv b (piq_statics, init_ev_piqueue_s (int N) :: 'a ev_piqueue)" "piq_bag (piq_statics, init_ev_piqueue_s (int N) :: 'a ev_piqueue) = {#}"
proof -
  have "piq_lane (create_ev_queue :: 'a ev_queue)" by (simp add: piq_lane_def evq.new_invar evq.new_contents)
  with assms show "piq_inv b (piq_statics, init_ev_piqueue_s (int N) :: 'a ev_piqueue)"
    unfolding piq_inv_def piq_statics_def init_ev_piqueue_s_def
    by (intro case_prodI exI [of _ N] exI [of _ 0]) (simp add: list_all_iff)
  show "piq_bag (piq_statics, init_ev_piqueue_s (int N) :: 'a ev_piqueue) = {#}"
    by (simp add: piq_bag_def init_ev_piqueue_s_def lanes_bag_def evq.new_contents)
qed

lemma no_null_map: "None \<notin> set xs \<Longrightarrow> \<exists>ys. xs = map Some ys"
proof (induction xs)
  case (Cons x xs)
  then obtain y ys where "x = Some y" "xs = map Some ys" by (cases x) auto
  then show ?case by (intro exI [of _ "y # ys"]) simp
qed simp

lemma piq_destroy:
  assumes "list_all piq_lane (piq_array q)" "size (lanes_bag evq_list (piq_array q)) < fuel"
  shows "\<exists>left. destroy_ev_piqueue fuel q = Done left \<and> image_mset Some (mset (concat left)) = lanes_bag evq_list (piq_array q)"
proof -
  have "\<exists>r. obind (destroy_ev_queue fuel l) (\<lambda>(left, l'). Done left) = Done r \<and> map Some r = evq_list l"
    if l: "l \<in> set (piq_array q)" for l
  proof -
    have i: "evq_inv l" "None \<notin> set (evq_list l)" using assms(1) l by (auto simp: list_all_iff piq_lane_def)
    from no_null_map [OF i(2)] obtain ys where ys: "evq_list l = map Some ys" by blast
    have "length (evq_list l) \<le> sum_list (map length (map evq_list (piq_array q)))"
      by (rule member_le_sum_list) (use l in auto)
    then have "length ys < fuel" using assms(2) ys by (simp add: lanes_bag_def length_concat)
    from destroy_ev_queue_list [OF i(1) ys this] ys show ?thesis by auto
  qed
  from each_lane_law [of "piq_array q" _ "map Some" evq_list, OF this] obtain left where
    "destroy_ev_piqueue fuel q = Done left" "map (map Some) left = map evq_list (piq_array q)"
    unfolding destroy_ev_piqueue_def by blast
  then show ?thesis by (metis lanes_bag_def map_concat mset_map)
qed

text \<open>
  C35. The lists of the first \<open>ev_piqueue\<close> of a program are together a bag. Any sequence of fewer than \<open>2 ^ 31\<close> calls of
  \<open>enqueue_ev_piqueue\<close>, with elements that are not \<open>NULL\<close>, and \<open>dequeue_ev_piqueue\<close> by one thread runs to its end, every
  dequeue within as many looks as there are lists; a dequeue returns an element that was enqueued and not yet
  dequeued, and \<open>NULL\<close> only when there is none; \<open>destroy_ev_piqueue\<close> takes out exactly what is left.
\<close>

theorem ev_piqueue_refines_bag:
  assumes "n \<le> 2 ^ 30" "length ops < 2 ^ 31" "Enq None \<notin> set ops" "nat (get_nearest_power_of_2 n) \<le> fuel"
  shows "\<exists>rs s q M left. queue_run enqueue_ev_piqueue (dequeue_ev_piqueue fuel) ops (piq_statics, create_ev_piqueue n) = Done (rs, s, q) \<and>
    bag_run ops rs {#} = Some M \<and> destroy_ev_piqueue (Suc (size M)) q = Done left \<and> image_mset Some (mset (concat left)) = M"
proof -
  obtain N where N: "get_nearest_power_of_2 n = int N" "0 < N" by (rule nearest_nat)
  let ?q = "init_ev_piqueue_s (int N) :: 'a ev_piqueue"
  have i: "piq_inv (length ops + 0) (piq_statics, ?q) \<and> length (piq_array (snd (piq_statics, ?q))) \<le> fuel"
    using piq_created(1) [OF N(2)] assms(2,4) N(1) by (simp add: init_ev_piqueue_s_def)
  have e: "piq_bag (piq_statics, ?q) = {#}" by (rule piq_created(2) [OF N(2), of 0]) simp
  from piqs.run_bag [OF i assms(3), unfolded e] obtain rs s q where r:
    "queue_run enqueue_ev_piqueue (dequeue_ev_piqueue fuel) ops (piq_statics, ?q) = Done (rs, s, q)" "piq_inv 0 (s, q)"
    "bag_run ops rs {#} = Some (piq_bag (s, q))" by auto
  moreover have "\<exists>left. destroy_ev_piqueue (Suc (size (piq_bag (s, q)))) q = Done left \<and> image_mset Some (mset (concat left)) = piq_bag (s, q)"
    using piq_destroy [of q "Suc (size (piq_bag (s, q)))"] r(2) by (auto simp: piq_inv_def piq_bag_def)
  ultimately show ?thesis unfolding create_ev_piqueue_def N(1) by blast
qed

theorem ev_piqueue_refines_bag_witness:
  "\<exists>rs s q M left. queue_run enqueue_ev_piqueue (dequeue_ev_piqueue 4) [Enq (Some (7::nat)), Enq (Some 8), Deq, Enq (Some 9), Deq, Deq, Deq]
      (piq_statics, create_ev_piqueue 3) = Done (rs, s, q) \<and>
    bag_run [Enq (Some (7::nat)), Enq (Some 8), Deq, Enq (Some 9), Deq, Deq, Deq] rs {#} = Some M \<and>
    destroy_ev_piqueue (Suc (size M)) q = Done left \<and> image_mset Some (mset (concat left)) = M"
proof (rule ev_piqueue_refines_bag)
  have "get_nearest_power_of_2 3 = 4" by code_simp
  then show "nat (get_nearest_power_of_2 3) \<le> 4" by simp
qed simp_all

text \<open>
  The index of the next enqueue is shared by all queues and bounded by the one that was filled last: after one
  enqueue to a queue of two lists, the next to a queue of one list is outside its array.
\<close>

lemma piqueue_shared_index:
  "obind (enqueue_ev_piqueue (piq_statics, create_ev_piqueue 2) (Some x)) (\<lambda>(s, q). enqueue_ev_piqueue (s, create_ev_piqueue 1) y) = Bad_access"
proof -
  have n: "get_nearest_power_of_2 1 = 1" "get_nearest_power_of_2 2 = 2" by code_simp+
  show ?thesis
    unfolding create_ev_piqueue_def n
    by (simp add: enqueue_ev_piqueue_def piq_statics_def init_ev_piqueue_s_def arr_at_def enqueue_def create_ev_queue_def c_mod_def numeral_2_eq_2)
qed

end
