(* ===== verification/MpiQueue.thy ===== *)
theory MpiQueue
  imports Lanes
begin

text \<open>
  \<open>src/evds/ev_mpiqueue.c\<close>, run by one thread: an array of linked lists, each with a mutex that the operations only try to
  take. \<open>bq_m\<close> says whether the mutex is held. \<open>basic_try_dequeue\<close> frees no node. The index of the list to enqueue to is a
  static variable, shared by all queues. The counters of \<open>struct ev_piqueue_s\<close> are never used and are left out.
\<close>

subsection \<open>State and operations\<close>

record 'a basic_queue =
  bq_head :: "nat option"
  bq_tail :: "nat option"
  bq_m :: bool
  bq_heap :: "nat \<Rightarrow> 'a pis option"
  bq_brk :: nat

record 'a ev_mpiqueue =
  mpq_array :: "'a basic_queue list"
  mpq_N :: int

definition create_basic_queue :: "'a basic_queue" where
  "create_basic_queue = \<lparr>bq_head = None, bq_tail = None, bq_m = False, bq_heap = Map.empty, bq_brk = 0\<rparr>"

definition basic_enqueue :: "'a basic_queue \<Rightarrow> 'a option \<Rightarrow> (int \<times> 'a basic_queue) outcome" where
  "basic_enqueue q0 data =
     (if bq_m q0 then Done (-1, q0)
      else
        let qe = bq_brk q0;
            q = q0\<lparr>bq_m := True, bq_heap := (bq_heap q0)(qe \<mapsto> \<lparr>pi_data = data, pi_next = None\<rparr>), bq_brk := Suc qe\<rparr>
        in obind (case bq_tail q of
                    None \<Rightarrow> Done (q\<lparr>bq_tail := Some qe, bq_head := Some qe\<rparr>)
                  | Some t \<Rightarrow> obind (of_ptr (bq_heap q t)) (\<lambda>n.
                      Done (q\<lparr>bq_heap := (bq_heap q)(t \<mapsto> n\<lparr>pi_next := Some qe\<rparr>), bq_tail := Some qe\<rparr>)))
             (\<lambda>q1. Done (0, q1\<lparr>bq_m := False\<rparr>)))"

definition basic_try_dequeue :: "'a basic_queue \<Rightarrow> (int \<times> 'a option \<times> 'a basic_queue) outcome" where
  "basic_try_dequeue q0 =
     (if bq_m q0 then Done (-1, None, q0)
      else
        let q = q0\<lparr>bq_m := True\<rparr>
        in obind (case bq_head q of
                    None \<Rightarrow> Done (None, q)
                  | Some a \<Rightarrow> obind (of_ptr (bq_heap q a)) (\<lambda>n.
                      let q1 = q\<lparr>bq_head := pi_next n\<rparr>
                      in Done (pi_data n, if bq_head q1 = None then q1\<lparr>bq_tail := bq_head q1\<rparr> else q1)))
             (\<lambda>(return_data, q2). Done (0, return_data, q2\<lparr>bq_m := False\<rparr>)))"

definition init_ev_mpiqueue_s :: "int \<Rightarrow> 'a ev_mpiqueue" where
  "init_ev_mpiqueue_s N = \<lparr>mpq_array = replicate (nat N) create_basic_queue, mpq_N = N\<rparr>"

definition create_ev_mpiqueue :: "int \<Rightarrow> 'a ev_mpiqueue" where
  "create_ev_mpiqueue n = init_ev_mpiqueue_s (get_nearest_power_of_2 n)"

definition ev_mpiqueue_peek :: "'a ev_mpiqueue \<Rightarrow> int" where
  "ev_mpiqueue_peek q = 0"

text \<open>The loop of \<open>enqueue_ev_mpiqueue\<close> goes on to the next list while the mutex is taken.\<close>

fun mpq_enqueue_loop :: "nat \<Rightarrow> 'a option \<Rightarrow> int \<times> 'a ev_mpiqueue \<Rightarrow> (int \<times> 'a ev_mpiqueue) outcome" where
  "mpq_enqueue_loop 0 data sq = Spins"
| "mpq_enqueue_loop (Suc fuel) data (st_index0, q) =
     (let st_index = c_mod st_index0 (mpq_N q)
      in obind (arr_at (mpq_array q) st_index) (\<lambda>l. obind (basic_enqueue l data) (\<lambda>(ret, l').
           let q' = q\<lparr>mpq_array := (mpq_array q)[nat st_index := l']\<rparr>
           in if ret = 0 then Done (st_index, q') else mpq_enqueue_loop fuel data (st_index + 1, q'))))"

definition enqueue_ev_mpiqueue :: "nat \<Rightarrow> int \<times> 'a ev_mpiqueue \<Rightarrow> 'a option \<Rightarrow> (int \<times> 'a ev_mpiqueue) outcome" where
  "enqueue_ev_mpiqueue fuel sq data = mpq_enqueue_loop fuel data sq"

definition mpq_look :: "'a basic_queue \<Rightarrow> ('a probe \<times> 'a basic_queue) outcome" where
  "mpq_look l =
     obind (basic_try_dequeue l) (\<lambda>(ret, return_data, l').
       Done (if ret = -1 then P_busy else if return_data \<noteq> None then P_found return_data else P_empty, l'))"

text \<open>A busy list is passed over without being counted as empty.\<close>

definition dequeue_ev_mpiqueue :: "nat \<Rightarrow> int \<times> 'a ev_mpiqueue \<Rightarrow> ('a option \<times> int \<times> 'a ev_mpiqueue) outcome" where
  "dequeue_ev_mpiqueue fuel sq =
     (let (st_index, q) = sq
      in obind (lane_scan mpq_look (\<lambda>i. i) (\<lambda>c. c_mod c (mpq_N q) + 1) (mpq_N q) fuel 0 0 (mpq_array q))
           (\<lambda>(return_data, ls). Done (return_data, st_index, q\<lparr>mpq_array := ls\<rparr>)))"

subsection \<open>The lists are lanes\<close>

definition bq_list :: "'a basic_queue \<Rightarrow> 'a option list" where
  "bq_list l = pis_walk (bq_brk l) (bq_heap l) (bq_head l)"

definition bq_inv :: "'a basic_queue \<Rightarrow> bool" where
  "bq_inv l \<longleftrightarrow> \<not> bq_m l \<and> list_ok (bq_head l) (bq_tail l) (bq_heap l) (bq_brk l) (bq_list l) \<and> None \<notin> set (bq_list l)"

lemma bq_invI:
  assumes "\<not> bq_m l" "list_ok (bq_head l) (bq_tail l) (bq_heap l) (bq_brk l) ds" "None \<notin> set ds"
  shows "bq_inv l" "bq_list l = ds"
proof -
  show "bq_list l = ds" using list_ok_walk [OF assms(2)] by (simp add: bq_list_def)
  with assms show "bq_inv l" by (simp add: bq_inv_def)
qed

lemma basic_enqueue_appends:
  assumes "bq_inv l"
  shows "\<exists>l'. basic_enqueue l (Some x) = Done (0, l') \<and> bq_inv l' \<and> bq_list l' = bq_list l @ [Some x]"
proof -
  let ?ds = "bq_list l" and ?b = "bq_brk l"
  from assms have l: "\<not> bq_m l" "list_ok (bq_head l) (bq_tail l) (bq_heap l) ?b ?ds" "None \<notin> set ?ds" by (simp_all add: bq_inv_def)
  show ?thesis
  proof (cases "bq_tail l")
    case None
    note f = list_ok_first(1) [OF l(2) [unfolded None]] list_ok_first(2) [OF l(2) [unfolded None], where d = "Some x"]
    let ?l = "l\<lparr>bq_m := False, bq_heap := (bq_heap l)(?b \<mapsto> \<lparr>pi_data = Some x, pi_next = None\<rparr>), bq_brk := Suc ?b,
      bq_tail := Some ?b, bq_head := Some ?b\<rparr>"
    have "bq_inv ?l" "bq_list ?l = [Some x]" using bq_invI [of ?l "[Some x]"] f(2) by simp_all
    moreover have "basic_enqueue l (Some x) = Done (0, ?l)" using l(1) None by (cases l) (simp add: basic_enqueue_def Let_def)
    ultimately show ?thesis using f(1) by auto
  next
    case (Some z)
    from list_ok_snoc [OF l(2) [unfolded Some], of "Some x"] obtain m where m: "bq_heap l z = Some m" "z \<noteq> ?b"
      "list_ok (bq_head l) (Some ?b) ((bq_heap l)(?b \<mapsto> \<lparr>pi_data = Some x, pi_next = None\<rparr>, z \<mapsto> m\<lparr>pi_next := Some ?b\<rparr>)) (Suc ?b)
         (?ds @ [Some x])" by blast
    let ?l = "l\<lparr>bq_m := False, bq_heap := (bq_heap l)(?b \<mapsto> \<lparr>pi_data = Some x, pi_next = None\<rparr>, z \<mapsto> m\<lparr>pi_next := Some ?b\<rparr>),
      bq_brk := Suc ?b, bq_tail := Some ?b\<rparr>"
    have "bq_inv ?l" "bq_list ?l = ?ds @ [Some x]" using bq_invI [of ?l "?ds @ [Some x]"] m(3) l(3) by simp_all
    moreover have "basic_enqueue l (Some x) = Done (0, ?l)" using l(1) Some m(1,2) by (cases l) (simp add: basic_enqueue_def Let_def)
    ultimately show ?thesis by auto
  qed
qed

lemma basic_try_dequeue_empty:
  assumes "bq_inv l" "bq_list l = []"
  shows "basic_try_dequeue l = Done (0, None, l)"
proof -
  have "\<not> bq_m l" "bq_head l = None" using assms list_ok_Nil(1) by (auto simp: bq_inv_def)
  then show ?thesis by (cases l) (simp add: basic_try_dequeue_def)
qed

lemma basic_try_dequeue_first:
  assumes "bq_inv l" "bq_list l = x # xs"
  shows "\<exists>l'. basic_try_dequeue l = Done (0, x, l') \<and> bq_inv l' \<and> bq_list l' = xs"
proof -
  from assms have l: "\<not> bq_m l" "list_ok (bq_head l) (bq_tail l) (bq_heap l) (bq_brk l) (x # xs)" "None \<notin> set xs"
    by (auto simp: bq_inv_def)
  from list_ok_Cons [OF l(2)] obtain a m where m: "bq_head l = Some a" "bq_heap l a = Some m" "pi_data m = x"
    "pi_next m = None \<longleftrightarrow> xs = []" "list_ok (pi_next m) (if xs = [] then None else bq_tail l) (bq_heap l) (bq_brk l) xs"
    by (elim exE conjE) metis
  let ?l = "l\<lparr>bq_head := pi_next m, bq_tail := (if xs = [] then None else bq_tail l)\<rparr>"
  have "bq_inv ?l" "bq_list ?l = xs" using bq_invI [of ?l xs] m(5) l by simp_all
  moreover have "basic_try_dequeue l = Done (0, x, ?l)" using l(1) m by (simp add: basic_try_dequeue_def)
  ultimately show ?thesis by auto
qed

interpretation mpq: lane bq_inv bq_list mpq_look "\<lambda>l d. obind (basic_enqueue l d) (\<lambda>(r, l'). Done l')"
proof
  fix l :: "'a basic_queue"
  assume l: "bq_inv l"
  show n: "None \<notin> set (bq_list l)" using l by (simp add: bq_inv_def)
  show "\<exists>l'. mpq_look l = Done (P_empty, l') \<and> bq_inv l' \<and> bq_list l' = []" if "bq_list l = []"
    using l that basic_try_dequeue_empty [OF l that] by (simp add: mpq_look_def)
  show "\<exists>l'. mpq_look l = Done (P_found x, l') \<and> bq_inv l' \<and> bq_list l' = xs" if x: "bq_list l = x # xs" for x xs
  proof -
    from n x obtain y where "x = Some y" by (cases x) auto
    moreover obtain l' where "basic_try_dequeue l = Done (0, x, l')" "bq_inv l'" "bq_list l' = xs"
      using basic_try_dequeue_first [OF l x] by blast
    ultimately show ?thesis by (simp add: mpq_look_def)
  qed
  show "\<exists>l'. obind (basic_enqueue l (Some y)) (\<lambda>(r, l'). Done l') = Done l' \<and> bq_inv l' \<and> bq_list l' = bq_list l @ [Some y]" for y
    using basic_enqueue_appends [OF l, of y] by auto
qed

subsection \<open>One queue\<close>

text \<open>
  No mutex is ever held when an operation starts, so every element goes to the same list: the lists hold \<open>xs\<close> at index \<open>k\<close>
  and nothing elsewhere.
\<close>

definition mpq_rep :: "nat \<Rightarrow> int \<times> 'a ev_mpiqueue \<Rightarrow> 'a option list \<Rightarrow> bool" where
  "mpq_rep fuel = (\<lambda>(s, q) xs. \<exists>N k. 0 < N \<and> N \<le> fuel \<and> k < N \<and> s = int k \<and> mpq_N q = int N \<and> length (mpq_array q) = N \<and>
     list_all bq_inv (mpq_array q) \<and> map bq_list (mpq_array q) = (replicate N [])[k := xs])"

lemma mpq_rep_enqueue:
  assumes "mpq_rep fuel sq xs" "d \<noteq> None"
  shows "\<exists>sq'. enqueue_ev_mpiqueue fuel sq d = Done sq' \<and> mpq_rep fuel sq' (xs @ [d])"
proof -
  obtain q N k where q: "sq = (int k, q)" "0 < N" "N \<le> fuel" "k < N" "mpq_N q = int N" "length (mpq_array q) = N"
    "list_all bq_inv (mpq_array q)" "map bq_list (mpq_array q) = (replicate N [])[k := xs]" using assms(1) by (auto simp: mpq_rep_def)
  obtain x f where x: "d = Some x" "fuel = Suc f" using assms(2) q(2,3) by (cases d; cases fuel) auto
  let ?l = "mpq_array q ! k"
  have l: "bq_inv ?l" "bq_list ?l = xs"
    using q(4,6,7) arg_cong [OF q(8), of "\<lambda>ys. ys ! k"] by (simp_all add: list_all_length)
  from basic_enqueue_appends [OF l(1), of x] l(2) obtain l' where l': "basic_enqueue ?l d = Done (0, l')" "bq_inv l'" "bq_list l' = xs @ [d]"
    using x(1) by auto
  let ?q = "q\<lparr>mpq_array := (mpq_array q)[k := l']\<rparr>"
  have "enqueue_ev_mpiqueue fuel sq d = Done (int k, ?q)"
    using q(1,4-6) l'(1) by (simp add: enqueue_ev_mpiqueue_def x(2))
  moreover have "mpq_rep fuel (int k, ?q) (xs @ [d])"
    using q(2-8) l'(2,3) by (auto simp: mpq_rep_def list_all_length nth_list_update map_update)
  ultimately show ?thesis by blast
qed

lemma mpq_rep_dequeue:
  assumes "mpq_rep fuel sq xs"
  shows "\<exists>r sq'. dequeue_ev_mpiqueue fuel sq = Done (r, sq') \<and> r = (if xs = [] then None else hd xs) \<and> mpq_rep fuel sq' (tl xs)"
proof -
  obtain q N k where q: "sq = (int k, q)" "0 < N" "N \<le> fuel" "k < N" "mpq_N q = int N" "length (mpq_array q) = N"
    "list_all bq_inv (mpq_array q)" "map bq_list (mpq_array q) = (replicate N [])[k := xs]" using assms(1) by (auto simp: mpq_rep_def)
  have "scan_result bq_inv bq_list (mpq_array q)
    (lane_scan mpq_look (\<lambda>i. i) (\<lambda>c. c_mod c (int N) + 1) (int N) fuel 0 (int 0) (mpq_array q))"
    by (rule mpq.scan_round [OF q(7,6,2,3)]) (rule lane_turns)
  then show ?thesis
  proof (cases rule: scan_resultE)
    case (1 ls')
    then have "xs = []" using q(4,8) replicate_upd_concat [of k N xs] by simp
    moreover have "length ls' = N" using map_eq_imp_length_eq [OF 1(3)] q(6) by simp
    ultimately show ?thesis using 1 q by (auto simp: dequeue_ev_mpiqueue_def mpq_rep_def)
  next
    case (2 ls' j y ys)
    have "j = k" using 2(3,4) q(6,8) by (cases "j = k") auto
    then have "xs = y # ys" using 2(3,4) q(6,8) by simp
    moreover have "map bq_list ls' = (replicate N [])[k := ys]" using 2(5) q(8) \<open>j = k\<close> by simp
    moreover from this have "length ls' = N" by (metis length_list_update length_map length_replicate)
    ultimately show ?thesis using 2(1,2) q by (auto simp: dequeue_ev_mpiqueue_def mpq_rep_def)
  qed
qed

interpretation mpqs: fifo_rep "mpq_rep fuel" "\<lambda>d. d \<noteq> None" "enqueue_ev_mpiqueue fuel" "dequeue_ev_mpiqueue fuel" for fuel
  using mpq_rep_enqueue mpq_rep_dequeue [of fuel _ "[]"] mpq_rep_dequeue [of fuel _ "_ # _"]
  by unfold_locales (fastforce+)

lemma ev_mpiqueue_run:
  fixes ops :: "'a qop list"
  assumes "Enq None \<notin> set ops" "nat (get_nearest_power_of_2 n) \<le> fuel"
  shows "\<exists>s q. queue_run (enqueue_ev_mpiqueue fuel) (dequeue_ev_mpiqueue fuel) ops (0, create_ev_mpiqueue n) =
    Done (fst (fifo_run ops []), s, q)"
proof -
  obtain N where N: "get_nearest_power_of_2 n = int N" "0 < N" by (rule nearest_nat)
  have "bq_inv (create_basic_queue :: 'a basic_queue)" "bq_list (create_basic_queue :: 'a basic_queue) = []"
    using bq_invI [of "create_basic_queue :: 'a basic_queue" "[]"] by (simp_all add: create_basic_queue_def)
  moreover have "replicate N [] = (replicate N [])[0 := []]" using N(2) by (cases N) simp_all
  ultimately have "mpq_rep fuel (0, init_ev_mpiqueue_s (int N) :: 'a ev_mpiqueue) []"
    using N assms(2) by (auto simp: mpq_rep_def init_ev_mpiqueue_s_def list_all_iff intro!: exI [of _ 0])
  moreover have "\<forall>d. Enq d \<in> set ops \<longrightarrow> d \<noteq> None" using assms(1) by metis
  ultimately show ?thesis using mpqs.run_rep [of fuel _ "[]" ops] unfolding create_ev_mpiqueue_def N(1) by fastforce
qed

text \<open>While other threads hold all the mutexes an enqueue does not return, however long it looks.\<close>

lemma enqueue_all_held:
  assumes "list_all bq_m (mpq_array q)" "length (mpq_array q) = N" "mpq_N q = int N" "0 < N"
  shows "enqueue_ev_mpiqueue fuel (int k, q) d = Spins"
proof -
  have "mpq_enqueue_loop fuel d (int k, q) = Spins"
  proof (induction fuel arbitrary: k)
    case (Suc fuel)
    have "bq_m (mpq_array q ! (k mod N))" using assms by (simp add: list_all_length)
    then have "mpq_enqueue_loop (Suc fuel) d (int k, q) = mpq_enqueue_loop fuel d (int (Suc (k mod N)), q)"
      using assms(2-4) by (simp add: basic_enqueue_def add.commute)
    from this Suc [of "Suc (k mod N)"] show ?case by (rule trans)
  qed simp
  then show ?thesis by (simp add: enqueue_ev_mpiqueue_def)
qed

end
