(* ===== verification/SpiQueue.thy ===== *)
theory SpiQueue
  imports MpiQueue
begin

text \<open>
  \<open>src/evds/ev_spiqueue.c\<close>, run by one thread: an array of linked lists, each with a spin lock, which an operation waits for.
  Unlike its siblings \<open>basic_try_dequeue\<close> hands out the first node, not the data in it, and frees nothing. The nodes of
  all lists are in one heap. \<open>sl_m\<close> says whether the lock of a list is held.
\<close>

subsection \<open>State and operations\<close>

record spin_list =
  sl_head :: "nat option"
  sl_tail :: "nat option"
  sl_m :: bool

record 'a ev_spiqueue =
  spq_array :: "spin_list list"
  spq_N :: int
  spq_heap :: "nat \<Rightarrow> 'a pis option"
  spq_brk :: nat

text \<open>The static variables, which all queues share.\<close>

record spi_statics =
  spi_st_index :: int
  spi_succ_count :: "64 word"

definition create_spin_list :: spin_list where
  "create_spin_list = \<lparr>sl_head = None, sl_tail = None, sl_m = False\<rparr>"

definition create_ev_spiqueue :: "int \<Rightarrow> 'a ev_spiqueue" where
  "create_ev_spiqueue n =
     (let N = get_nearest_power_of_2 n
      in \<lparr>spq_array = replicate (nat N) create_spin_list, spq_N = N, spq_heap = Map.empty, spq_brk = 0\<rparr>)"

text \<open>\<open>basic_enqueue\<close> on list \<open>l\<close> of the queue: its status, the list, and the queue with the new node.\<close>

definition spi_basic_enqueue :: "spin_list \<Rightarrow> 'a option \<Rightarrow> 'a ev_spiqueue \<Rightarrow> (int \<times> spin_list \<times> 'a ev_spiqueue) outcome" where
  "spi_basic_enqueue l0 data q0 =
     (if sl_m l0 then Spins
      else
        let qe = spq_brk q0;
            l = l0\<lparr>sl_m := True\<rparr>;
            q = q0\<lparr>spq_heap := (spq_heap q0)(qe \<mapsto> \<lparr>pi_data = data, pi_next = None\<rparr>), spq_brk := Suc qe\<rparr>
        in obind (case sl_tail l of
                    None \<Rightarrow> Done (l\<lparr>sl_tail := Some qe, sl_head := Some qe\<rparr>, q)
                  | Some t \<Rightarrow> obind (of_ptr (spq_heap q t)) (\<lambda>n.
                      Done (l\<lparr>sl_tail := Some qe\<rparr>, q\<lparr>spq_heap := (spq_heap q)(t \<mapsto> n\<lparr>pi_next := Some qe\<rparr>)\<rparr>)))
             (\<lambda>(l1, q1). Done (0, l1\<lparr>sl_m := False\<rparr>, q1)))"

definition spi_basic_try_dequeue :: "(nat \<Rightarrow> 'a pis option) \<Rightarrow> spin_list \<Rightarrow> (int \<times> nat option \<times> spin_list) outcome" where
  "spi_basic_try_dequeue h l0 =
     (if sl_m l0 then Spins
      else
        let l = l0\<lparr>sl_m := True\<rparr>
        in obind (case sl_head l of
                    None \<Rightarrow> Done (None, l)
                  | Some a \<Rightarrow> obind (of_ptr (h a)) (\<lambda>n.
                      let l1 = l\<lparr>sl_head := pi_next n\<rparr>
                      in Done (Some a, if sl_head l1 = None then l1\<lparr>sl_tail := sl_head l1\<rparr> else l1)))
             (\<lambda>(return_data, l2). Done (0, return_data, l2\<lparr>sl_m := False\<rparr>)))"

fun spq_enqueue_loop :: "nat \<Rightarrow> 'a option \<Rightarrow> int \<times> 'a ev_spiqueue \<Rightarrow> (int \<times> 'a ev_spiqueue) outcome" where
  "spq_enqueue_loop 0 data sq = Spins"
| "spq_enqueue_loop (Suc fuel) data (st_index, q) =
     obind (arr_at (spq_array q) st_index) (\<lambda>l. obind (spi_basic_enqueue l data q) (\<lambda>(ret, l', q1).
       let q' = q1\<lparr>spq_array := (spq_array q1)[nat st_index := l']\<rparr>
       in if ret = 0 then Done (st_index, q') else spq_enqueue_loop fuel data (c_mod (st_index + 1) (spq_N q), q')))"

definition enqueue_ev_spiqueue ::
  "nat \<Rightarrow> spi_statics \<times> 'a ev_spiqueue \<Rightarrow> 'a option \<Rightarrow> (spi_statics \<times> 'a ev_spiqueue) outcome" where
  "enqueue_ev_spiqueue fuel sq data =
     (let (s, q) = sq
      in obind (spq_enqueue_loop fuel data (spi_st_index s, q)) (\<lambda>(st_index, q').
           Done (s\<lparr>spi_st_index := st_index, spi_succ_count := spi_succ_count s + 1\<rparr>, q')))"

definition spq_look :: "(nat \<Rightarrow> 'a pis option) \<Rightarrow> spin_list \<Rightarrow> (nat probe \<times> spin_list) outcome" where
  "spq_look h l =
     obind (spi_basic_try_dequeue h l) (\<lambda>(ret, return_data, l').
       Done (if ret = -1 then P_busy else if return_data \<noteq> None then P_found return_data else P_empty, l'))"

text \<open>The result of \<open>dequeue_ev_spiqueue\<close> is the address of a node.\<close>

definition dequeue_ev_spiqueue ::
  "nat \<Rightarrow> spi_statics \<times> 'a ev_spiqueue \<Rightarrow> (nat option \<times> spi_statics \<times> 'a ev_spiqueue) outcome" where
  "dequeue_ev_spiqueue fuel sq =
     (let (s, q) = sq
      in obind (lane_scan (spq_look (spq_heap q)) (\<lambda>i. 0) (\<lambda>c. c_mod c (spq_N q) + 1) (spq_N q) fuel 0 0 (spq_array q))
           (\<lambda>(return_data, ls).
             Done (return_data, if return_data = None then s else s\<lparr>spi_succ_count := spi_succ_count s - 1\<rparr>,
               q\<lparr>spq_array := ls\<rparr>)))"

text \<open>A caller that knows this and reads the element out of the node.\<close>

definition follow_node :: "nat \<Rightarrow> spi_statics \<times> 'a ev_spiqueue \<Rightarrow> ('a option \<times> spi_statics \<times> 'a ev_spiqueue) outcome" where
  "follow_node fuel sq =
     obind (dequeue_ev_spiqueue fuel sq) (\<lambda>(p, s, q).
       case p of None \<Rightarrow> Done (None, s, q)
       | Some a \<Rightarrow> obind (of_ptr (spq_heap q a)) (\<lambda>n. Done (pi_data n, s, q)))"

subsection \<open>The lists\<close>

text \<open>A list seen as the addresses of its nodes.\<close>

fun node_walk :: "nat \<Rightarrow> (nat \<Rightarrow> 'a pis option) \<Rightarrow> nat option \<Rightarrow> nat list" where
  "node_walk 0 h p = []"
| "node_walk (Suc k) h p =
     (case p of None \<Rightarrow> [] | Some a \<Rightarrow> (case h a of None \<Rightarrow> [] | Some n \<Rightarrow> a # node_walk k h (pi_next n)))"

lemma node_walk_chain: "pis_chain h p as \<Longrightarrow> length as \<le> k \<Longrightarrow> node_walk k h p = as"
proof (induction as arbitrary: p k)
  case Nil
  then show ?case by (cases k) simp_all
next
  case (Cons a as)
  then obtain k' where "k = Suc k'" by (cases k) auto
  with Cons show ?case by auto
qed

definition sl_nodes :: "(nat \<Rightarrow> 'a pis option) \<Rightarrow> nat \<Rightarrow> spin_list \<Rightarrow> nat option list" where
  "sl_nodes h b l = map Some (node_walk b h (sl_head l))"

definition sl_inv :: "(nat \<Rightarrow> 'a pis option) \<Rightarrow> nat \<Rightarrow> spin_list \<Rightarrow> bool" where
  "sl_inv h b l \<longleftrightarrow> \<not> sl_m l \<and>
     (let as = node_walk b h (sl_head l)
      in pis_chain h (sl_head l) as \<and> sl_tail l = (if as = [] then None else Some (last as)) \<and> distinct as \<and> (\<forall>a\<in>set as. a < b))"

lemma sl_invI:
  assumes "\<not> sl_m l" "pis_chain h (sl_head l) as" "sl_tail l = (if as = [] then None else Some (last as))" "distinct as" "\<forall>a\<in>set as. a < b"
  shows "sl_inv h b l \<and> sl_nodes h b l = map Some as"
  using assms node_walk_chain [OF assms(2) distinct_below_length [OF assms(4,5)]] by (simp add: sl_inv_def sl_nodes_def)

lemma sl_invE:
  assumes "sl_inv h b l"
  obtains as where "\<not> sl_m l" "pis_chain h (sl_head l) as" "sl_tail l = (if as = [] then None else Some (last as))"
    "distinct as" "\<forall>a\<in>set as. a < b" "sl_nodes h b l = map Some as"
  using assms by (auto simp: sl_inv_def sl_nodes_def Let_def)

lemma spi_try_dequeue_first:
  assumes "sl_inv h b l" "sl_nodes h b l = Some a # xs"
  shows "\<exists>l'. spi_basic_try_dequeue h l = Done (0, Some a, l') \<and> sl_inv h b l' \<and> sl_nodes h b l' = xs"
proof -
  obtain as where l: "\<not> sl_m l" "pis_chain h (sl_head l) (a # as)" "sl_tail l = Some (last (a # as))" "distinct (a # as)"
    "\<forall>x\<in>set (a # as). x < b" "xs = map Some as"
    using assms(1) by (rule sl_invE) (use assms(2) in \<open>auto simp: Cons_eq_map_conv\<close>)
  then obtain n where n: "sl_head l = Some a" "h a = Some n" "pis_chain h (pi_next n) as" by auto
  have e: "pi_next n = None \<longleftrightarrow> as = []" using n(3) by (cases as) auto
  let ?l = "l\<lparr>sl_head := pi_next n, sl_tail := (if as = [] then None else sl_tail l)\<rparr>"
  have "sl_inv h b ?l \<and> sl_nodes h b ?l = map Some as" by (rule sl_invI) (use l n in auto)
  moreover have "spi_basic_try_dequeue h l = Done (0, Some a, ?l)"
    using l(1) n e by (cases l) (simp add: spi_basic_try_dequeue_def)
  ultimately show ?thesis using l(6) by blast
qed

lemma spi_try_dequeue_empty:
  assumes "sl_inv h b l" "sl_nodes h b l = []"
  shows "spi_basic_try_dequeue h l = Done (0, None, l)"
proof -
  have "\<not> sl_m l" "sl_head l = None" using assms by (auto elim!: sl_invE)
  then show ?thesis by (cases l) (simp add: spi_basic_try_dequeue_def)
qed

interpretation spq: lane_look "sl_inv h b" "sl_nodes h b" "spq_look h" for h b
proof
  fix l
  assume l: "sl_inv h b l"
  show n: "None \<notin> set (sl_nodes h b l)" by (auto simp: sl_nodes_def)
  show "\<exists>l'. spq_look h l = Done (P_empty, l') \<and> sl_inv h b l' \<and> sl_nodes h b l' = []" if "sl_nodes h b l = []"
    using l that spi_try_dequeue_empty [OF l that] by (simp add: spq_look_def)
  show "\<exists>l'. spq_look h l = Done (P_found x, l') \<and> sl_inv h b l' \<and> sl_nodes h b l' = xs" if x: "sl_nodes h b l = x # xs" for x xs
  proof -
    from n x obtain a where a: "x = Some a" by (cases x) auto
    obtain l' where "spi_basic_try_dequeue h l = Done (0, x, l')" "sl_inv h b l'" "sl_nodes h b l' = xs"
      using spi_try_dequeue_first [OF l] x a by blast
    with a show ?thesis by (simp add: spq_look_def)
  qed
qed

lemma spi_enqueue_appends:
  fixes q :: "'a ev_spiqueue" and d :: "'a option"
  defines "h \<equiv> spq_heap q" and "b \<equiv> spq_brk q"
  assumes "sl_inv h b l" "sl_nodes h b l = map Some as"
  shows "\<exists>l' h'. spi_basic_enqueue l d q = Done (0, l', q\<lparr>spq_heap := h', spq_brk := Suc b\<rparr>) \<and> sl_inv h' (Suc b) l' \<and>
    sl_nodes h' (Suc b) l' = map Some (as @ [b]) \<and> list_at h' (as @ [b]) = list_at h as @ [d]"
proof -
  have l: "\<not> sl_m l" "pis_chain h (sl_head l) as" "sl_tail l = (if as = [] then None else Some (last as))" "distinct as" "\<forall>a\<in>set as. a < b"
    using assms(3) by (rule sl_invE; use assms(4) in \<open>auto simp: inj_map_eq_map\<close>)+
  have b: "b \<notin> set as" using l(5) by auto
  let ?n = "\<lparr>pi_data = d, pi_next = None\<rparr>"
  show ?thesis
  proof (cases as rule: rev_cases)
    case Nil
    let ?l = "l\<lparr>sl_tail := Some b, sl_head := Some b\<rparr>" and ?h = "h(b \<mapsto> ?n)"
    have "sl_inv ?h (Suc b) ?l \<and> sl_nodes ?h (Suc b) ?l = map Some [b]" by (rule sl_invI) (use l(1) in auto)
    moreover have "spi_basic_enqueue l d q = Done (0, ?l, q\<lparr>spq_heap := ?h, spq_brk := Suc b\<rparr>)"
      using l(1,3) Nil by (cases l) (simp add: spi_basic_enqueue_def h_def b_def Let_def)
    ultimately show ?thesis using Nil by (intro exI [of _ ?l] exI [of _ ?h]) (auto simp: list_at_def)
  next
    case (snoc bs z)
    obtain m where m: "h z = Some m" using pis_chain_last l(2) unfolding snoc by blast
    have z: "z \<noteq> b" "z \<notin> set bs" using l(4) b snoc by auto
    let ?l = "l\<lparr>sl_tail := Some b\<rparr>" and ?h = "h(b \<mapsto> ?n, z \<mapsto> m\<lparr>pi_next := Some b\<rparr>)"
    have "pis_chain ?h (sl_head l) (bs @ [z, b])"
      using pis_chain_snoc [of "h(b \<mapsto> ?n)" "sl_head l" bs z m b] l(2) z m b snoc by auto
    then have "sl_inv ?h (Suc b) ?l \<and> sl_nodes ?h (Suc b) ?l = map Some (bs @ [z, b])"
      by (intro sl_invI) (use l b snoc in auto)
    moreover have "list_at ?h (bs @ [z, b]) = list_at h as @ [d]" using b m z snoc by (auto simp: list_at_def)
    moreover have "spi_basic_enqueue l d q = Done (0, ?l, q\<lparr>spq_heap := ?h, spq_brk := Suc b\<rparr>)"
      using l(1,3) m z snoc by (cases l) (simp add: spi_basic_enqueue_def h_def b_def Let_def)
    ultimately show ?thesis using snoc by (intro exI [of _ ?l] exI [of _ ?h]) simp
  qed
qed

lemma sl_empty_anywhere: "sl_inv h b l \<Longrightarrow> sl_nodes h b l = [] \<Longrightarrow> sl_inv h' b' l \<and> sl_nodes h' b' l = []"
  using sl_invI [of l h' "[]" b'] by (auto elim!: sl_invE)

subsection \<open>One queue\<close>

text \<open>No lock is ever held when an operation starts, so all elements go to the list with index 0.\<close>

definition spq_rep :: "nat \<Rightarrow> spi_statics \<times> 'a ev_spiqueue \<Rightarrow> 'a option list \<Rightarrow> bool" where
  "spq_rep fuel sq xs \<longleftrightarrow>
     (let q = snd sq; h = spq_heap q; b = spq_brk q
      in spi_st_index (fst sq) = 0 \<and>
         (\<exists>N as. 0 < N \<and> N \<le> fuel \<and> spq_N q = int N \<and> length (spq_array q) = N \<and> list_all (sl_inv h b) (spq_array q) \<and>
            map (sl_nodes h b) (spq_array q) = (replicate N [])[0 := map Some as] \<and> xs = list_at h as))"

lemma spq_repE:
  assumes "spq_rep fuel sq xs"
  obtains s q N as where "sq = (s, q)" "0 < N" "N \<le> fuel" "spi_st_index s = 0" "spq_N q = int N" "length (spq_array q) = N"
    "list_all (sl_inv (spq_heap q) (spq_brk q)) (spq_array q)"
    "map (sl_nodes (spq_heap q) (spq_brk q)) (spq_array q) = (replicate N [])[0 := map Some as]" "xs = list_at (spq_heap q) as"
  using assms unfolding spq_rep_def Let_def by (metis prod.collapse)

lemma spq_rep_enqueue:
  assumes "spq_rep fuel sq xs"
  shows "\<exists>sq'. enqueue_ev_spiqueue fuel sq d = Done sq' \<and> spq_rep fuel sq' (xs @ [d])"
proof -
  obtain s q N as where q: "sq = (s, q)" "0 < N" "N \<le> fuel" "spi_st_index s = 0" "spq_N q = int N" "length (spq_array q) = N"
    "list_all (sl_inv (spq_heap q) (spq_brk q)) (spq_array q)"
    "map (sl_nodes (spq_heap q) (spq_brk q)) (spq_array q) = (replicate N [])[0 := map Some as]" "xs = list_at (spq_heap q) as"
    using assms by (rule spq_repE)
  obtain f where f: "fuel = Suc f" using q(2,3) by (cases fuel) auto
  let ?h = "spq_heap q" and ?b = "spq_brk q" and ?l = "spq_array q ! 0"
  have at: "sl_nodes ?h ?b (spq_array q ! j) = (if j = 0 then map Some as else [])" if "j < N" for j
    using that q(6) arg_cong [OF q(8), of "\<lambda>ys. ys ! j"] by (cases j) (auto simp: nth_list_update)
  from spi_enqueue_appends [of q ?l as d] at [OF q(2)] q(2,6,7) obtain l' h' where
    l': "spi_basic_enqueue ?l d q = Done (0, l', q\<lparr>spq_heap := h', spq_brk := Suc ?b\<rparr>)" "sl_inv h' (Suc ?b) l'"
      "sl_nodes h' (Suc ?b) l' = map Some (as @ [?b])" "list_at h' (as @ [?b]) = list_at ?h as @ [d]" by (auto simp: list_all_length)
  let ?s = "s\<lparr>spi_st_index := 0, spi_succ_count := spi_succ_count s + 1\<rparr>"
    and ?q = "q\<lparr>spq_heap := h', spq_brk := Suc ?b, spq_array := (spq_array q)[0 := l']\<rparr>"
  have "enqueue_ev_spiqueue fuel sq d = Done (?s, ?q)"
    using q(1,2,4,6) l'(1) arr_at_nat [of 0 "spq_array q"] by (simp add: enqueue_ev_spiqueue_def f)
  moreover have "spq_rep fuel (?s, ?q) (xs @ [d])"
  proof -
    have others: "sl_inv h' (Suc ?b) (spq_array q ! j) \<and> sl_nodes h' (Suc ?b) (spq_array q ! j) = []" if "j < N" "j \<noteq> 0" for j
      using sl_empty_anywhere [of ?h ?b] at [OF that(1)] that q(6,7) by (auto simp: list_all_length)
    have "list_all (sl_inv h' (Suc ?b)) ((spq_array q)[0 := l'])"
      using others l'(2) q(6) by (auto simp: list_all_length nth_list_update)
    moreover have "map (sl_nodes h' (Suc ?b)) ((spq_array q)[0 := l']) = (replicate N [])[0 := map Some (as @ [?b])]"
      using others l'(3) q(6) by (intro nth_equalityI) (auto simp: nth_list_update)
    ultimately show ?thesis using q(2-6,9) l'(4) unfolding spq_rep_def Let_def
      by (intro conjI exI [of _ N] exI [of _ "as @ [?b]"]) simp_all
  qed
  ultimately show ?thesis by blast
qed

lemma spq_rep_dequeue:
  assumes "spq_rep fuel sq xs"
  shows "\<exists>r sq'. follow_node fuel sq = Done (r, sq') \<and> r = (if xs = [] then None else hd xs) \<and> spq_rep fuel sq' (tl xs)"
proof -
  obtain s q N as where q: "sq = (s, q)" "0 < N" "N \<le> fuel" "spi_st_index s = 0" "spq_N q = int N" "length (spq_array q) = N"
    "list_all (sl_inv (spq_heap q) (spq_brk q)) (spq_array q)"
    "map (sl_nodes (spq_heap q) (spq_brk q)) (spq_array q) = (replicate N [])[0 := map Some as]" "xs = list_at (spq_heap q) as"
    using assms by (rule spq_repE)
  let ?h = "spq_heap q" and ?b = "spq_brk q"
  have "scan_result (sl_inv ?h ?b) (sl_nodes ?h ?b) (spq_array q)
    (lane_scan (spq_look ?h) (\<lambda>i. 0) (\<lambda>c. c_mod c (int N) + 1) (int N) fuel 0 (int 0) (spq_array q))"
    by (rule spq.scan_round [OF q(7,6,2,3)]) (rule lane_turns)
  then show ?thesis
  proof (cases rule: scan_resultE)
    case (1 ls')
    then have "xs = []" using q(2,8,9) replicate_upd_concat [of 0 N "map Some as"] by (simp add: list_at_def)
    moreover from this have "as = []" using q(9) by (simp add: list_at_def)
    moreover have "length ls' = N" using map_eq_imp_length_eq [OF 1(3)] q(6) by simp
    ultimately show ?thesis using 1 q by (auto simp: follow_node_def dequeue_ev_spiqueue_def spq_rep_def list_at_def)
  next
    case (2 ls' j y ys)
    have j: "j = 0" using 2(3,4) q(6,8) by (cases "j = 0") auto
    then have "map Some as = y # ys" using 2(3,4) q(6,8) by simp
    then obtain a as' where a: "as = a # as'" "y = Some a" "ys = map Some as'" by (auto simp: Cons_eq_map_conv)
    have m: "map (sl_nodes ?h ?b) ls' = (replicate N [])[0 := map Some as']" using 2(5) q(8) j a by simp
    then have n: "length ls' = N" by (metis length_list_update length_map length_replicate)
    have "sl_inv ?h ?b (spq_array q ! 0)" "sl_nodes ?h ?b (spq_array q ! 0) = map Some (a # as')"
      using q(2,6,7) arg_cong [OF q(8), of "\<lambda>ys. ys ! 0"] a(1) by (simp_all add: list_all_length)
    then obtain node where node: "?h a = Some node" by (auto elim!: sl_invE simp: Cons_eq_map_conv)
    have "follow_node fuel sq = Done (pi_data node, s\<lparr>spi_succ_count := spi_succ_count s - 1\<rparr>, q\<lparr>spq_array := ls'\<rparr>)"
      using q(1,5) 2(1) a(2) node by (simp add: follow_node_def dequeue_ev_spiqueue_def)
    moreover have "spq_rep fuel (s\<lparr>spi_succ_count := spi_succ_count s - 1\<rparr>, q\<lparr>spq_array := ls'\<rparr>) (list_at ?h as')"
      using q(2-5) n m 2(2) unfolding spq_rep_def Let_def by (intro conjI exI [of _ N] exI [of _ as']) simp_all
    ultimately show ?thesis using q(9) a(1) node by (auto simp: list_at_def)
  qed
qed

interpretation spqs: fifo_rep "spq_rep fuel" "\<lambda>d. True" "enqueue_ev_spiqueue fuel" "follow_node fuel" for fuel
  using spq_rep_enqueue spq_rep_dequeue [of fuel _ "[]"] spq_rep_dequeue [of fuel _ "_ # _"]
  by unfold_locales (fastforce+)

lemma ev_spiqueue_run:
  fixes ops :: "'a qop list"
  assumes "nat (get_nearest_power_of_2 n) \<le> fuel"
  shows "\<exists>s q. queue_run (enqueue_ev_spiqueue fuel) (follow_node fuel) ops
    (\<lparr>spi_st_index = 0, spi_succ_count = 0\<rparr>, create_ev_spiqueue n) = Done (fst (fifo_run ops []), s, q)"
proof -
  obtain N where N: "get_nearest_power_of_2 n = int N" "0 < N" by (rule nearest_nat)
  have "sl_inv h b create_spin_list \<and> sl_nodes h b create_spin_list = map Some []" for h :: "nat \<Rightarrow> 'a pis option" and b
    by (rule sl_invI) (simp_all add: create_spin_list_def)
  moreover have "replicate N [] = (replicate N [])[0 := map Some []]" using N(2) by (cases N) simp_all
  ultimately have "spq_rep fuel (\<lparr>spi_st_index = 0, spi_succ_count = 0\<rparr>, create_ev_spiqueue n :: 'a ev_spiqueue) []"
    using N assms unfolding spq_rep_def Let_def
    by (intro conjI exI [of _ N] exI [of _ "[]"]) (simp_all add: create_ev_spiqueue_def list_all_iff list_at_def)
  from spqs.run_rep [OF this, of ops] show ?thesis by auto
qed

text \<open>What the queue returns for the first element is the address of the first node, whatever the element is.\<close>

lemma spiqueue_returns_node:
  "obind (enqueue_ev_spiqueue 1 (\<lparr>spi_st_index = 0, spi_succ_count = 0\<rparr>, create_ev_spiqueue 1) d)
     (\<lambda>sq. obind (dequeue_ev_spiqueue 1 sq) (\<lambda>(r, sq'). Done r)) = Done (Some 0)"
proof -
  have n: "get_nearest_power_of_2 1 = 1" by code_simp
  show ?thesis
    by (simp add: create_ev_spiqueue_def n enqueue_ev_spiqueue_def create_spin_list_def arr_at_def spi_basic_enqueue_def
        dequeue_ev_spiqueue_def spq_look_def spi_basic_try_dequeue_def c_mod_def)
qed

text \<open>
  C37. The two queues that have a lock for every list are one queue each, of which only one list is used. Any sequence
  of enqueues and dequeues by one thread on a created queue runs to its end, each call within as many looks as there
  are lists, and gives what a list queue gives: for \<open>ev_mpiqueue\<close> with elements that are not \<open>NULL\<close>; for \<open>ev_spiqueue\<close>,
  whose dequeue returns the node and not the element in it, for a caller that reads the element out of the node.
\<close>

theorem locked_queues_refine_fifo:
  fixes ops ops' :: "'a qop list"
  assumes "n \<le> 2 ^ 30" "Enq None \<notin> set ops" "nat (get_nearest_power_of_2 n) \<le> fuel"
  shows "(\<exists>s q. queue_run (enqueue_ev_mpiqueue fuel) (dequeue_ev_mpiqueue fuel) ops (0, create_ev_mpiqueue n) =
      Done (fst (fifo_run ops []), s, q)) \<and>
    (\<exists>s q. queue_run (enqueue_ev_spiqueue fuel) (follow_node fuel) ops' (\<lparr>spi_st_index = 0, spi_succ_count = 0\<rparr>, create_ev_spiqueue n) =
      Done (fst (fifo_run ops' []), s, q))"
  using ev_mpiqueue_run [OF assms(2,3)] ev_spiqueue_run [OF assms(3), of ops'] by blast

theorem locked_queues_refine_fifo_witness:
  "(\<exists>s q. queue_run (enqueue_ev_mpiqueue 4) (dequeue_ev_mpiqueue 4) [Enq (Some (7::nat)), Enq (Some 8), Deq, Deq, Deq] (0, create_ev_mpiqueue 3) =
      Done ([Some 7, Some 8, None], s, q)) \<and>
   (\<exists>s q. queue_run (enqueue_ev_spiqueue 4) (follow_node 4) [Enq (Some (7::nat)), Deq, Deq, Enq None]
      (\<lparr>spi_st_index = 0, spi_succ_count = 0\<rparr>, create_ev_spiqueue 3) = Done ([Some 7, None], s, q))"
proof -
  have "nat (get_nearest_power_of_2 3) \<le> 4" by code_simp
  from locked_queues_refine_fifo [OF _ _ this, of "[Enq (Some (7::nat)), Enq (Some 8), Deq, Deq, Deq]" "[Enq (Some 7), Deq, Deq, Enq None]"]
  show ?thesis by (simp del: queue_run.simps)
qed

end
