(* ===== verification/PaQueue.thy ===== *)
theory PaQueue
  imports Lanes
begin

text \<open>
  \<open>src/evds/ev_paqueue.c\<close>, run by one thread: \<open>N\<close> lists of the kind of \<open>ev_queue.c\<close>, with counters that say where the next
  enqueue and the search of the next dequeue start. The nodes of a list are a heap of their own. The counters are C \<open>int\<close>s
  that wrap around; an index outside the array is \<open>Bad_access\<close>.
\<close>

subsection \<open>State and operations\<close>

record 'a qn =
  qn_head :: hptr
  qn_tail :: "nat option"
  qn_heap :: "nat \<Rightarrow> 'a pis option"
  qn_brk :: nat

record 'a ev_paqueue =
  paq_N :: int
  paq_qa :: "'a qn list"
  paq_enq :: "32 word"
  paq_deq :: "32 word"

definition create_evpaq :: "int \<Rightarrow> 'a ev_paqueue" where
  "create_evpaq n =
     (let N = get_nearest_power_of_2 n
      in \<lparr>paq_N = N, paq_qa = replicate (nat N) \<lparr>qn_head = HNull, qn_tail = None, qn_heap = Map.empty, qn_brk = 0\<rparr>,
          paq_enq = 0, paq_deq = 0\<rparr>)"

definition peek_evpaq :: "'a ev_paqueue \<Rightarrow> bool" where
  "peek_evpaq q \<longleftrightarrow> list_ex (\<lambda>l. qn_head l \<noteq> HNull) (paq_qa q)"

definition qn_put :: "'a qn \<Rightarrow> 'a option \<Rightarrow> 'a qn outcome" where
  "qn_put l0 data =
     (let ptr = qn_brk l0; old_tail = qn_tail l0;
          l = l0\<lparr>qn_heap := (qn_heap l0)(ptr \<mapsto> \<lparr>pi_data = data, pi_next = None\<rparr>), qn_brk := Suc ptr, qn_tail := Some ptr\<rparr>
      in case old_tail of
           Some t \<Rightarrow> obind (of_ptr (qn_heap l t)) (\<lambda>n. Done (l\<lparr>qn_heap := (qn_heap l)(t \<mapsto> n\<lparr>pi_next := Some ptr\<rparr>)\<rparr>))
         | None \<Rightarrow> Done (l\<lparr>qn_head := HPtr ptr\<rparr>))"

definition enqueue_evpaq :: "'a ev_paqueue \<Rightarrow> 'a option \<Rightarrow> 'a ev_paqueue outcome" where
  "enqueue_evpaq q data =
     (let index = c_mod (sint (paq_enq q)) (paq_N q)
      in obind (arr_at (paq_qa q) index) (\<lambda>l. obind (qn_put l data) (\<lambda>l'.
           Done (q\<lparr>paq_enq := paq_enq q + 1, paq_qa := (paq_qa q)[nat index := l']\<rparr>))))"

text \<open>
  The end of \<open>dequeue_evpaq\<close>, after the head \<open>h\<close> has been marked. A tail that has become null makes it return \<open>NULL\<close>; when
  \<open>h\<close> has no successor and is not the tail the loop waits for the link. A failed exchange of the head is ignored.
\<close>

definition qn_take :: "nat \<Rightarrow> 'a qn \<Rightarrow> ('a option \<times> 'a qn) outcome" where
  "qn_take h l =
     obind (of_ptr (qn_heap l h)) (\<lambda>n.
       if qn_tail l = None then Done (None, l)
       else
         obind (if pi_next n \<noteq> None then Done l
                else if qn_tail l = Some h then Done (l\<lparr>qn_tail := None\<rparr>)
                else Spins)
           (\<lambda>l1.
             let l2 = if qn_head l1 = HMark h then l1\<lparr>qn_head := hptr_of (pi_next n)\<rparr> else l1
             in obind (of_ptr (qn_heap l2 h)) (\<lambda>m. Done (pi_data m, l2\<lparr>qn_heap := (qn_heap l2)(h := None)\<rparr>))))"

text \<open>One round of its search: a list with a tail but a null or marked head is busy.\<close>

definition qn_look :: "'a qn \<Rightarrow> ('a probe \<times> 'a qn) outcome" where
  "qn_look l =
     (case qn_tail l of
        None \<Rightarrow> Done (P_empty, l)
      | Some _ \<Rightarrow>
          (case qn_head l of
             HNull \<Rightarrow> Done (P_busy, l)
           | HMark _ \<Rightarrow> Done (P_busy, l)
           | HPtr h \<Rightarrow> obind (qn_take h (l\<lparr>qn_head := HMark h\<rparr>)) (\<lambda>(data, l'). Done (P_found data, l'))))"

definition int_incr :: "int \<Rightarrow> int" where
  "int_incr c = sint (word_of_int c + 1 :: 32 word)"

definition dequeue_evpaq :: "nat \<Rightarrow> 'a ev_paqueue \<Rightarrow> ('a option \<times> 'a ev_paqueue) outcome" where
  "dequeue_evpaq fuel q =
     obind (lane_scan qn_look (\<lambda>i. 0) int_incr (paq_N q) fuel 0 (sint (paq_deq q)) (paq_qa q))
       (\<lambda>(data, ls). Done (data, q\<lparr>paq_deq := paq_deq q + 1, paq_qa := ls\<rparr>))"

text \<open>The elements freed; \<open>wf_destroy_evpaq\<close> runs the same loop and frees none of them.\<close>

definition destroy_evpaq :: "nat \<Rightarrow> nat \<Rightarrow> 'a ev_paqueue \<Rightarrow> 'a list outcome" where
  "destroy_evpaq rounds fuel q = drain rounds (dequeue_evpaq fuel) q"

text \<open>What \<open>debug_paq\<close> hands to its function, list by list.\<close>

fun qn_walk :: "nat \<Rightarrow> (nat \<Rightarrow> 'a pis option) \<Rightarrow> nat option \<Rightarrow> 'a option list outcome" where
  "qn_walk fuel h None = Done []"
| "qn_walk 0 h (Some a) = Spins"
| "qn_walk (Suc fuel) h (Some a) =
     obind (of_ptr (h a)) (\<lambda>n. obind (qn_walk fuel h (pi_next n)) (\<lambda>ds. Done (pi_data n # ds)))"

definition debug_paq :: "'a ev_paqueue \<Rightarrow> 'a option list list outcome" where
  "debug_paq q =
     each_lane (\<lambda>l. case qn_head l of HNull \<Rightarrow> Done [] | HPtr a \<Rightarrow> qn_walk (qn_brk l) (qn_heap l) (Some a) | HMark _ \<Rightarrow> Bad_access) (paq_qa q)"

subsection \<open>The lists are lanes\<close>

definition hptr_to :: "hptr \<Rightarrow> nat option" where
  "hptr_to h = (case h of HPtr a \<Rightarrow> Some a | _ \<Rightarrow> None)"

definition qn_list :: "'a qn \<Rightarrow> 'a option list" where
  "qn_list l = pis_walk (qn_brk l) (qn_heap l) (hptr_to (qn_head l))"

definition qn_inv :: "'a qn \<Rightarrow> bool" where
  "qn_inv l \<longleftrightarrow> qn_head l = hptr_of (hptr_to (qn_head l)) \<and>
     list_ok (hptr_to (qn_head l)) (qn_tail l) (qn_heap l) (qn_brk l) (qn_list l) \<and> None \<notin> set (qn_list l)"

lemma hptr_of_to [simp]: "hptr_to (hptr_of p) = p" "hptr_to (HPtr a) = Some a" "hptr_to HNull = None" "hptr_of (Some a) = HPtr a" "hptr_of None = HNull"
  by (auto simp: hptr_to_def hptr_of_def split: option.splits)

lemma qn_invI:
  assumes "qn_head l = hptr_of p" "list_ok p (qn_tail l) (qn_heap l) (qn_brk l) ds" "None \<notin> set ds"
  shows "qn_inv l \<and> qn_list l = ds"
  using assms list_ok_walk [OF assms(2)] by (simp add: qn_list_def qn_inv_def)

lemma qn_invE:
  assumes "qn_inv l"
  obtains p where "qn_head l = hptr_of p" "list_ok p (qn_tail l) (qn_heap l) (qn_brk l) (qn_list l)" "None \<notin> set (qn_list l)"
  using assms by (auto simp: qn_inv_def)

lemma qn_put_appends:
  assumes "qn_inv l"
  shows "\<exists>l'. qn_put l (Some x) = Done l' \<and> qn_inv l' \<and> qn_list l' = qn_list l @ [Some x]"
proof -
  let ?ds = "qn_list l" and ?b = "qn_brk l"
  from assms obtain p where l: "qn_head l = hptr_of p" "list_ok p (qn_tail l) (qn_heap l) ?b ?ds" "None \<notin> set ?ds" by (rule qn_invE)
  show ?thesis
  proof (cases "qn_tail l")
    case None
    note f = list_ok_first(1) [OF l(2) [unfolded None]] list_ok_first(2) [OF l(2) [unfolded None], where d = "Some x"]
    let ?l = "l\<lparr>qn_heap := (qn_heap l)(?b \<mapsto> \<lparr>pi_data = Some x, pi_next = None\<rparr>), qn_brk := Suc ?b, qn_tail := Some ?b, qn_head := HPtr ?b\<rparr>"
    have "qn_inv ?l \<and> qn_list ?l = [Some x]" by (rule qn_invI [of _ "Some ?b"]) (use f(2) in simp_all)
    with f(1) None show ?thesis by (simp add: qn_put_def Let_def)
  next
    case (Some z)
    from list_ok_snoc [OF l(2) [unfolded Some], of "Some x"] obtain m where m: "qn_heap l z = Some m" "z \<noteq> ?b"
      "list_ok p (Some ?b) ((qn_heap l)(?b \<mapsto> \<lparr>pi_data = Some x, pi_next = None\<rparr>, z \<mapsto> m\<lparr>pi_next := Some ?b\<rparr>)) (Suc ?b)
         (?ds @ [Some x])" by blast
    let ?l = "l\<lparr>qn_brk := Suc ?b, qn_tail := Some ?b,
      qn_heap := (qn_heap l)(?b \<mapsto> \<lparr>pi_data = Some x, pi_next = None\<rparr>, z \<mapsto> m\<lparr>pi_next := Some ?b\<rparr>)\<rparr>"
    have "qn_inv ?l \<and> qn_list ?l = ?ds @ [Some x]" by (rule qn_invI [of _ p]) (use m(3) l in simp_all)
    with Some m(1,2) show ?thesis by (simp add: qn_put_def Let_def)
  qed
qed

lemma qn_look_first:
  assumes "qn_inv l" "qn_list l = x # xs"
  shows "\<exists>l'. qn_look l = Done (P_found x, l') \<and> qn_inv l' \<and> qn_list l' = xs"
proof -
  from assms(1) obtain p where l: "qn_head l = hptr_of p" "list_ok p (qn_tail l) (qn_heap l) (qn_brk l) (x # xs)" "None \<notin> set xs"
    by (rule qn_invE) (use assms(2) in auto)
  from list_ok_Cons [OF l(2)] obtain a m where m: "p = Some a" "qn_heap l a = Some m" "pi_data m = x"
    "pi_next m = None \<longleftrightarrow> xs = []" "xs = [] \<longrightarrow> qn_tail l = Some a"
    "list_ok (pi_next m) (if xs = [] then None else qn_tail l) ((qn_heap l)(a := None)) (qn_brk l) xs"
    by (elim exE conjE) metis
  have t: "qn_tail l \<noteq> None" using list_ok_tail [OF l(2)] by simp
  let ?l = "l\<lparr>qn_head := hptr_of (pi_next m), qn_tail := (if xs = [] then None else qn_tail l), qn_heap := (qn_heap l)(a := None)\<rparr>"
  have "qn_inv ?l \<and> qn_list ?l = xs" by (rule qn_invI [of _ "pi_next m"]) (use m(6) l(3) in simp_all)
  moreover have "qn_look l = Done (P_found x, ?l)"
    using l(1) m t by (cases "xs = []") (auto simp: qn_look_def qn_take_def)
  ultimately show ?thesis by auto
qed

interpretation paq: lane qn_inv qn_list qn_look qn_put
proof
  fix l :: "'a qn"
  assume l: "qn_inv l"
  show "None \<notin> set (qn_list l)" using l by (rule qn_invE)
  show "\<exists>l'. qn_look l = Done (P_empty, l') \<and> qn_inv l' \<and> qn_list l' = []" if "qn_list l = []"
  proof -
    have "qn_tail l = None" using l that list_ok_Nil(2) by (auto elim!: qn_invE)
    with l that show ?thesis by (simp add: qn_look_def)
  qed
qed (use qn_look_first qn_put_appends in auto)

subsection \<open>All lists together\<close>

text \<open>\<open>b\<close> calls more overflow no counter.\<close>

definition paq_inv :: "nat \<Rightarrow> nat \<Rightarrow> 'a ev_paqueue \<Rightarrow> bool" where
  "paq_inv fuel b q \<longleftrightarrow>
     (\<exists>N d e. 0 < N \<and> N \<le> fuel \<and> paq_N q = int N \<and> length (paq_qa q) = N \<and> list_all qn_inv (paq_qa q) \<and>
        paq_enq q = of_nat e \<and> paq_deq q = of_nat d \<and> d + b + N < 2147483648 \<and> e + b < 2147483648)"

abbreviation paq_bag :: "'a ev_paqueue \<Rightarrow> 'a option multiset" where
  "paq_bag q \<equiv> lanes_bag qn_list (paq_qa q)"

lemma int_incr_turns: "d + r < 2147483648 \<Longrightarrow> (int_incr ^^ r) (int d) = int (d + r)"
proof (induction r)
  case (Suc r)
  have "int_incr (int (d + r)) = sint (of_nat (Suc (d + r)) :: 32 word)" by (simp add: int_incr_def ac_simps)
  also have "\<dots> = int (Suc (d + r))" by (rule sint_of_nat) (use Suc.prems in simp)
  finally show ?case using Suc by simp
qed simp

lemma paq_enqueue:
  assumes "paq_inv fuel (Suc b) q"
  shows "\<exists>q'. enqueue_evpaq q (Some x) = Done q' \<and> paq_inv fuel b q' \<and> paq_bag q' = add_mset (Some x) (paq_bag q)"
proof -
  obtain N d e where q: "0 < N" "N \<le> fuel" "paq_N q = int N" "length (paq_qa q) = N" "list_all qn_inv (paq_qa q)"
    "paq_enq q = of_nat e" "paq_deq q = of_nat d" "d + Suc b + N < 2147483648" "e + Suc b < 2147483648"
    using assms unfolding paq_inv_def by blast
  let ?k = "e mod N"
  have k: "?k < N" using q(1) by simp
  have e: "sint (paq_enq q) = int e" unfolding q(6) by (rule sint_of_nat) (use q(9) in simp)
  have "qn_inv (paq_qa q ! ?k)" using q(4,5) k by (simp add: list_all_length)
  from paq.put_law [OF this, of x] obtain l' where
    l': "qn_put (paq_qa q ! ?k) (Some x) = Done l'" "qn_inv l'" "qn_list l' = qn_list (paq_qa q ! ?k) @ [Some x]" by blast
  let ?q = "q\<lparr>paq_enq := paq_enq q + 1, paq_qa := (paq_qa q)[?k := l']\<rparr>"
  have "enqueue_evpaq q (Some x) = Done ?q" using q(3,4) e k l'(1) by (simp add: enqueue_evpaq_def)
  moreover have "paq_inv fuel b ?q"
    unfolding paq_inv_def using q l'(2)
    by (intro exI [of _ N] exI [of _ d] exI [of _ "Suc e"]) (simp add: list_all_length nth_list_update add.commute)
  moreover have "paq_bag ?q = add_mset (Some x) (paq_bag q)" using q(4) k l'(3) by (simp add: put_bag)
  ultimately show ?thesis by blast
qed

lemma paq_dequeue:
  assumes "paq_inv fuel (Suc b) q"
  shows "\<exists>r q'. dequeue_evpaq fuel q = Done (r, q') \<and> paq_inv fuel b q' \<and>
    (paq_bag q = {#} \<and> r = None \<and> paq_bag q' = {#} \<or> r \<noteq> None \<and> paq_bag q = add_mset r (paq_bag q'))"
proof -
  obtain N d e where q: "0 < N" "N \<le> fuel" "paq_N q = int N" "length (paq_qa q) = N" "list_all qn_inv (paq_qa q)"
    "paq_enq q = of_nat e" "paq_deq q = of_nat d" "d + Suc b + N < 2147483648" "e + Suc b < 2147483648"
    using assms unfolding paq_inv_def by blast
  have d: "sint (paq_deq q) = int d" unfolding q(7) by (rule sint_of_nat) (use q(8) in simp)
  have turns: "c_mod ((int_incr ^^ r) (int d)) (int N) = int ((d + r) mod N)" if "r < N" for r
    using int_incr_turns [of d r] q(8) that c_mod_nat [of "d + r" N] by simp
  have "scan_result qn_inv qn_list (paq_qa q) (lane_scan qn_look (\<lambda>i. 0) int_incr (int N) fuel 0 (int d) (paq_qa q))"
    by (rule paq.scan_round [OF q(5,4,1,2)]) (rule turns)
  from scan_bag [OF this] obtain r ls where r:
    "lane_scan qn_look (\<lambda>i. 0) int_incr (int N) fuel 0 (int d) (paq_qa q) = Done (r, ls)" "list_all qn_inv ls" "length ls = length (paq_qa q)"
    "paq_bag q = {#} \<and> r = None \<and> lanes_bag qn_list ls = {#} \<or> paq_bag q = add_mset r (lanes_bag qn_list ls)" by blast
  let ?q = "q\<lparr>paq_deq := paq_deq q + 1, paq_qa := ls\<rparr>"
  have "dequeue_evpaq fuel q = Done (r, ?q)" using q(3) d r(1) by (simp add: dequeue_evpaq_def)
  moreover have "paq_inv fuel b ?q"
    unfolding paq_inv_def using q r(2,3) by (intro exI [of _ N] exI [of _ "Suc d"] exI [of _ e]) (simp add: add.commute)
  moreover have "None \<notin># paq_bag q" by (rule bag_no_null [OF q(5) paq.no_null])
  ultimately show ?thesis using r(4) by fastforce
qed

interpretation paqs: bag_queue "paq_inv fuel" paq_bag enqueue_evpaq "dequeue_evpaq fuel" for fuel
  using paq_enqueue paq_dequeue by unfold_locales auto

text \<open>
  C36. The lists of an \<open>ev_paqueue\<close> are together a bag. Any sequence of calls of \<open>enqueue_evpaq\<close>, with elements that are
  not \<open>NULL\<close>, and \<open>dequeue_evpaq\<close> by one thread on a created queue runs to its end as long as no counter overflows, every
  dequeue within as many looks as there are lists; a dequeue returns an element that was enqueued and not yet dequeued,
  and \<open>NULL\<close> only when there is none; \<open>destroy_evpaq\<close> ends after one dequeue more than there are elements and frees each once.
\<close>

theorem ev_paqueue_refines_bag:
  fixes ops :: "'a qop list"
  assumes "n \<le> 2 ^ 30" "2 * length ops + nat (get_nearest_power_of_2 n) + 1 < 2 ^ 31" "Enq None \<notin> set ops"
    "nat (get_nearest_power_of_2 n) \<le> fuel"
  shows "\<exists>rs q M xs. queue_run enqueue_evpaq (dequeue_evpaq fuel) ops (create_evpaq n) = Done (rs, q) \<and> bag_run ops rs {#} = Some M \<and>
    destroy_evpaq (Suc (size M)) fuel q = Done xs \<and> image_mset Some (mset xs) = M"
proof -
  obtain N where N: "get_nearest_power_of_2 n = int N" "0 < N" by (rule nearest_nat)
  let ?q = "create_evpaq n :: 'a ev_paqueue" and ?b = "Suc (length ops)"
  have l: "qn_inv \<lparr>qn_head = HNull, qn_tail = None, qn_heap = h, qn_brk = b\<rparr> \<and>
      qn_list \<lparr>qn_head = HNull, qn_tail = None, qn_heap = h, qn_brk = b\<rparr> = []" for h :: "nat \<Rightarrow> 'a pis option" and b
    by (rule qn_invI [of _ None]) simp_all
  have i: "paq_inv fuel (length ops + ?b) ?q"
    unfolding paq_inv_def using l N assms(2,4)
    by (intro exI [of _ N] exI [of _ 0] exI [of _ 0]) (simp add: create_evpaq_def list_all_iff)
  have e: "paq_bag ?q = {#}" using l by (simp add: create_evpaq_def lanes_bag_def Let_def)
  from paqs.run_bag [OF i assms(3), unfolded e] obtain rs q where r:
    "queue_run enqueue_evpaq (dequeue_evpaq fuel) ops ?q = Done (rs, q)" "paq_inv fuel ?b q" "bag_run ops rs {#} = Some (paq_bag q)" by auto
  have "size (paq_bag q) \<le> length ops" using bag_run_size [OF r(3)] by simp
  then obtain c where "?b = Suc (size (paq_bag q)) + c" using le_Suc_ex by fastforce
  with paqs.drain_bag [of fuel q c "Suc (size (paq_bag q))"] r(2) have
    "\<exists>xs. destroy_evpaq (Suc (size (paq_bag q))) fuel q = Done xs \<and> image_mset Some (mset xs) = paq_bag q"
    by (simp add: destroy_evpaq_def)
  with r show ?thesis by blast
qed

theorem ev_paqueue_refines_bag_witness:
  "\<exists>rs q M xs. queue_run enqueue_evpaq (dequeue_evpaq 4) [Deq, Enq (Some (7::nat)), Enq (Some 8), Deq, Enq (Some 9)] (create_evpaq 3) = Done (rs, q) \<and>
    bag_run [Deq, Enq (Some (7::nat)), Enq (Some 8), Deq, Enq (Some 9)] rs {#} = Some M \<and>
    destroy_evpaq (Suc (size M)) 4 q = Done xs \<and> image_mset Some (mset xs) = M"
proof (rule ev_paqueue_refines_bag)
  have n: "get_nearest_power_of_2 3 = 4" by code_simp
  show "nat (get_nearest_power_of_2 3) \<le> 4" by (simp add: n)
  show "2 * length [Deq, Enq (Some (7::nat)), Enq (Some 8), Deq, Enq (Some 9)] + nat (get_nearest_power_of_2 3) + 1 < 2 ^ 31" by (simp add: n)
qed simp_all

text \<open>
  It is no queue: a dequeue that finds nothing has moved the start of the next search on, and the element enqueued
  last comes out first.
\<close>

lemma paqueue_overtakes:
  "obind (queue_run enqueue_evpaq (dequeue_evpaq 2) [Deq, Enq (Some 7), Enq (Some 8), Deq] (create_evpaq 2)) (\<lambda>(rs, q). Done rs) =
     Done [None, Some (8 :: nat)]"
  by code_simp

end
