(* ===== verification/EvStack.thy ===== *)
theory EvStack
  imports EvQueue
begin

text \<open>
  The stack of \<open>src/evds/ev_stack.c\<close>, shared by a list of threads that call \<open>push\<close> and \<open>pop\<close>: one access to
  what the threads share is one step, in any interleaving. Nodes are never freed by the code, so the heap of nodes
  is a list that only grows, and the address of a node is its place in it. The \<open>head\<close> is null, an address, or
  an address with its low bit set (\<open>hptr\<close>). The specification is a list with atomic pushes and pops; the lemmas show
  that the successful exchanges of the code are those of the list.
\<close>

subsection \<open>State and steps\<close>

text \<open>A node holds a \<open>void *\<close>, 0 for \<open>NULL\<close>, and the address of the next node.\<close>

record stk_node =
  st_data :: nat
  st_next :: "nat option"

text \<open>
  Where a thread is: outside; in \<open>push\<close> before the load of \<open>head\<close>, and before the exchange with its node and the
  value \<open>old_h\<close>; in \<open>pop\<close> before the load, before the exchange that marks the head, before it reads \<open>next\<close>, before the
  exchange that moves the head, and before it reads the data.
\<close>

datatype stk_pc =
    K_idle
  | K_push_load nat
  | K_push_cas nat hptr
  | K_pop_load
  | K_pop_mark nat
  | K_pop_next nat
  | K_pop_move nat "nat option"
  | K_pop_data nat

record ev_stack =
  sk_head :: hptr
  sk_nodes :: "stk_node list"
  sk_threads :: "stk_pc list"

definition create_ev_stack :: "nat \<Rightarrow> ev_stack" where
  "create_ev_stack n = \<lparr>sk_head = HNull, sk_nodes = [], sk_threads = replicate n K_idle\<rparr>"

text \<open>\<open>old_h & ~1\<close> as a pointer to a node; \<open>hptr_of\<close> of \<open>EvQueue\<close> makes a pointer a value of \<open>head\<close>.\<close>

fun unmark :: "hptr \<Rightarrow> nat option" where
  "unmark HNull = None"
| "unmark (HPtr a) = Some a"
| "unmark (HMark a) = Some a"

definition stk_goto :: "nat \<Rightarrow> stk_pc \<Rightarrow> ev_stack \<Rightarrow> ev_stack" where
  "stk_goto i x s = s\<lparr>sk_threads := (sk_threads s)[i := x]\<rparr>"

definition stk_node_at :: "ev_stack \<Rightarrow> nat \<Rightarrow> stk_node outcome" where
  "stk_node_at s a = (if a < length (sk_nodes s) then Done (sk_nodes s ! a) else Bad_access)"

text \<open>
  The events a step can be seen to do: the operation of a thread takes effect, or it returns a value. A step
  has at most one.
\<close>

datatype stk_event = E_push nat nat | E_pop nat | E_effect nat | E_return nat nat

definition push :: "nat \<Rightarrow> ev_stack \<Rightarrow> (stk_event list \<times> ev_stack) outcome" where
  "push i s =
     (case sk_threads s ! i of
        K_push_load d \<Rightarrow>
          Done ([], stk_goto i (K_push_cas (length (sk_nodes s)) (sk_head s))
                      (s\<lparr>sk_nodes := sk_nodes s @ [\<lparr>st_data = d, st_next = unmark (sk_head s)\<rparr>]\<rparr>))
      | K_push_cas a old_h \<Rightarrow>
          if sk_head s = old_h then Done ([E_effect i], stk_goto i K_idle (s\<lparr>sk_head := HPtr a\<rparr>))
          else obind (stk_node_at s a) (\<lambda>n.
            Done ([], stk_goto i (K_push_cas a (sk_head s))
                        (s\<lparr>sk_nodes := (sk_nodes s)[a := n\<lparr>st_next := unmark (sk_head s)\<rparr>]\<rparr>)))
      | _ \<Rightarrow> Spins)"

definition pop :: "nat \<Rightarrow> ev_stack \<Rightarrow> (stk_event list \<times> ev_stack) outcome" where
  "pop i s =
     (case sk_threads s ! i of
        K_pop_load \<Rightarrow>
          (case sk_head s of
             HNull \<Rightarrow> Done ([E_effect i, E_return i 0], stk_goto i K_idle s)
           | HMark a \<Rightarrow> Done ([], s)
           | HPtr a \<Rightarrow> Done ([], stk_goto i (K_pop_mark a) s))
      | K_pop_mark a \<Rightarrow>
          if sk_head s = HPtr a then Done ([], stk_goto i (K_pop_next a) (s\<lparr>sk_head := HMark a\<rparr>))
          else Done ([], stk_goto i K_pop_load s)
      | K_pop_next a \<Rightarrow> obind (stk_node_at s a) (\<lambda>n. Done ([], stk_goto i (K_pop_move a (st_next n)) s))
      | K_pop_move a new_h \<Rightarrow>
          if sk_head s = HMark a then Done ([E_effect i], stk_goto i (K_pop_data a) (s\<lparr>sk_head := hptr_of new_h\<rparr>))
          else Done ([], stk_goto i K_pop_load s)
      | K_pop_data a \<Rightarrow> obind (stk_node_at s a) (\<lambda>n. Done ([E_return i (st_data n)], stk_goto i K_idle s))
      | _ \<Rightarrow> Spins)"

datatype stk_op = Call_push nat nat | Call_pop nat | Stk_step nat

fun stk_ok :: "stk_op \<Rightarrow> ev_stack \<Rightarrow> bool" where
  "stk_ok (Call_push i d) s = (i < length (sk_threads s) \<and> sk_threads s ! i = K_idle)"
| "stk_ok (Call_pop i) s = (i < length (sk_threads s) \<and> sk_threads s ! i = K_idle)"
| "stk_ok (Stk_step i) s = (i < length (sk_threads s))"

fun stk_exec :: "stk_op \<Rightarrow> ev_stack \<Rightarrow> (stk_event list \<times> ev_stack) outcome" where
  "stk_exec (Call_push i d) s = Done ([E_push i d], stk_goto i (K_push_load d) s)"
| "stk_exec (Call_pop i) s = Done ([E_pop i], stk_goto i K_pop_load s)"
| "stk_exec (Stk_step i) s =
     (case sk_threads s ! i of
        K_push_load d \<Rightarrow> push i s
      | K_push_cas a h \<Rightarrow> push i s
      | _ \<Rightarrow> pop i s)"

text \<open>A run of the threads, with the events in their order.\<close>

fun stk_run :: "stk_op list \<Rightarrow> ev_stack \<Rightarrow> (stk_event list \<times> ev_stack) option" where
  "stk_run [] s = Some ([], s)"
| "stk_run (x # xs) s =
     (if stk_ok x s then
        (case stk_exec x s of
           Done (es, s') \<Rightarrow> map_option (\<lambda>(fs, s''). (es @ fs, s'')) (stk_run xs s')
         | _ \<Rightarrow> None)
      else None)"

subsection \<open>The specification: a list\<close>

text \<open>
  A thread is outside, has called \<open>push\<close> or \<open>pop\<close>, or holds the value that its \<open>pop\<close> took. An operation takes effect
  at once, and a \<open>pop\<close> returns the value it took, \<open>NULL\<close> when the list was empty.
\<close>

datatype spec_pc = A_idle | A_push nat | A_pop | A_done nat

fun as_step :: "stk_event \<Rightarrow> nat list \<times> (nat \<Rightarrow> spec_pc) \<Rightarrow> (nat list \<times> (nat \<Rightarrow> spec_pc)) option" where
  "as_step (E_push i d) (xs, t) = (if t i = A_idle then Some (xs, t(i := A_push d)) else None)"
| "as_step (E_pop i) (xs, t) = (if t i = A_idle then Some (xs, t(i := A_pop)) else None)"
| "as_step (E_effect i) (xs, t) =
     (case t i of
        A_push d \<Rightarrow> Some (d # xs, t(i := A_idle))
      | A_pop \<Rightarrow> (case xs of [] \<Rightarrow> Some ([], t(i := A_done 0)) | x # ys \<Rightarrow> Some (ys, t(i := A_done x)))
      | _ \<Rightarrow> None)"
| "as_step (E_return i d) (xs, t) = (if t i = A_done d then Some (xs, t(i := A_idle)) else None)"

fun as_run :: "stk_event list \<Rightarrow> nat list \<times> (nat \<Rightarrow> spec_pc) \<Rightarrow> (nat list \<times> (nat \<Rightarrow> spec_pc)) option" where
  "as_run [] t = Some t"
| "as_run (e # es) t = (case as_step e t of None \<Rightarrow> None | Some t' \<Rightarrow> as_run es t')"

lemma as_run_append: "as_run (es @ fs) t = (case as_run es t of None \<Rightarrow> None | Some t' \<Rightarrow> as_run fs t')"
  by (induction es arbitrary: t) (auto split: option.splits)

text \<open>The elements from the head down.\<close>

fun elements :: "stk_node list \<Rightarrow> nat option \<Rightarrow> nat list \<Rightarrow> bool" where
  "elements ns p [] \<longleftrightarrow> p = None"
| "elements ns p (d # ds) \<longleftrightarrow>
     (case p of
        None \<Rightarrow> False
      | Some a \<Rightarrow> a < length ns \<and> st_data (ns ! a) = d \<and> elements ns (st_next (ns ! a)) ds)"

subsection \<open>Simulation\<close>

text \<open>The addresses of the nodes from the head down, and the node a thread has at hand.\<close>

fun chain :: "stk_node list \<Rightarrow> nat option \<Rightarrow> nat list \<Rightarrow> bool" where
  "chain ns p [] \<longleftrightarrow> p = None"
| "chain ns p (a # as) \<longleftrightarrow> p = Some a \<and> a < length ns \<and> chain ns (st_next (ns ! a)) as"

fun holds :: "stk_pc \<Rightarrow> nat option" where
  "holds (K_push_cas a h) = Some a"
| "holds (K_pop_mark a) = Some a"
| "holds (K_pop_next a) = Some a"
| "holds (K_pop_move a p) = Some a"
| "holds (K_pop_data a) = Some a"
| "holds x = None"

fun abs_pc :: "stk_node list \<Rightarrow> stk_pc \<Rightarrow> spec_pc" where
  "abs_pc ns K_idle = A_idle"
| "abs_pc ns (K_push_load d) = A_push d"
| "abs_pc ns (K_push_cas a h) = A_push (st_data (ns ! a))"
| "abs_pc ns (K_pop_data a) = A_done (st_data (ns ! a))"
| "abs_pc ns x = A_pop"

definition th :: "ev_stack \<Rightarrow> nat \<Rightarrow> stk_pc" where
  "th s i = (if i < length (sk_threads s) then sk_threads s ! i else K_idle)"

text \<open>
  What the threads and the heap have to do with each other: the node of a \<open>push\<close> is not in the stack yet, belongs to
  that thread alone and points to the head it has seen; \<open>pop\<close> moves the head to what its node points to.
\<close>

definition threads_ok :: "stk_node list \<Rightarrow> nat list \<Rightarrow> (nat \<Rightarrow> stk_pc) \<Rightarrow> bool" where
  "threads_ok ns as pc \<longleftrightarrow>
     (\<forall>i a. holds (pc i) = Some a \<longrightarrow> a < length ns) \<and>
     (\<forall>i a h. pc i = K_push_cas a h \<longrightarrow>
        a \<notin> set as \<and> st_next (ns ! a) = unmark h \<and> (\<forall>j. holds (pc j) = Some a \<longrightarrow> j = i)) \<and>
     (\<forall>i a p. pc i = K_pop_move a p \<longrightarrow> st_next (ns ! a) = p)"

definition stk_rel :: "ev_stack \<Rightarrow> nat list \<times> (nat \<Rightarrow> spec_pc) \<Rightarrow> bool" where
  "stk_rel s u \<longleftrightarrow>
     (\<exists>as. chain (sk_nodes s) (unmark (sk_head s)) as \<and> threads_ok (sk_nodes s) as (th s) \<and>
       u = (map (\<lambda>a. st_data (sk_nodes s ! a)) as, \<lambda>i. abs_pc (sk_nodes s) (th s i)))"

lemma chain_bound: "chain ns p as \<Longrightarrow> a \<in> set as \<Longrightarrow> a < length ns"
  by (induction as arbitrary: p) auto

lemma chain_grow: "chain ns p as \<Longrightarrow> chain (ns @ ms) p as"
  by (induction as arbitrary: p) (auto simp: nth_append)

lemma chain_private: "chain ns p as \<Longrightarrow> a \<notin> set as \<Longrightarrow> chain (ns[a := n]) p as"
  by (induction as arbitrary: p) auto

lemma chain_elements: "chain ns p as \<Longrightarrow> elements ns p (map (\<lambda>a. st_data (ns ! a)) as)"
  by (induction as arbitrary: p) auto

lemma unmark_hptr_of [simp]: "unmark (hptr_of p) = p"
  by (simp add: hptr_of_def split: option.splits)

lemma th_goto:
  "i < length (sk_threads s) \<Longrightarrow> th (stk_goto i x s) = (th s)(i := x)"
  by (auto simp: th_def stk_goto_def)

lemma stk_goto_simps [simp]:
  "sk_nodes (stk_goto i x s) = sk_nodes s" "sk_head (stk_goto i x s) = sk_head s"
  "length (sk_threads (stk_goto i x s)) = length (sk_threads s)"
  by (simp_all add: stk_goto_def)

lemma th_upd [simp]: "th (s\<lparr>sk_head := h\<rparr>) = th s" "th (s\<lparr>sk_nodes := ns\<rparr>) = th s"
  by (auto simp: th_def)

text \<open>A thread moves on: to a place that has no node, or has a node that is in nobody's \<open>push\<close>.\<close>

lemma threads_move:
  assumes "threads_ok ns as pc" "set as' \<subseteq> set as" "\<And>a h. x \<noteq> K_push_cas a h"
    "\<And>a. holds x = Some a \<Longrightarrow> a < length ns \<and> (\<forall>j h. pc j \<noteq> K_push_cas a h)"
    "\<And>a p. x = K_pop_move a p \<Longrightarrow> st_next (ns ! a) = p"
  shows "threads_ok ns as' (pc(i := x))"
  using assms unfolding threads_ok_def by (auto 0 4)

lemma held_ok:
  "threads_ok ns as pc \<Longrightarrow> holds (pc i) = Some a \<Longrightarrow> (\<And>h. pc i \<noteq> K_push_cas a h) \<Longrightarrow>
   a < length ns \<and> (\<forall>j h. pc j \<noteq> K_push_cas a h)"
  unfolding threads_ok_def by metis

lemma abs_pc_cong: "(\<And>a. holds x = Some a \<Longrightarrow> st_data (ns ! a) = st_data (ms ! a)) \<Longrightarrow> abs_pc ns x = abs_pc ms x"
  by (cases x) auto

lemma abs_upd: "(\<lambda>j. abs_pc ns ((pc(i := x)) j)) = (\<lambda>j. abs_pc ns (pc j))(i := abs_pc ns x)"
  by auto

lemma threads_okD:
  assumes "threads_ok ns as pc"
  shows "holds (pc i) = Some a \<Longrightarrow> a < length ns" "pc i = K_push_cas a h \<Longrightarrow> a < length ns"
    "pc i = K_push_cas a h \<Longrightarrow> a \<notin> set as" "pc i = K_push_cas a h \<Longrightarrow> st_next (ns ! a) = unmark h"
    "pc i = K_push_cas a h \<Longrightarrow> holds (pc j) = Some a \<Longrightarrow> j = i" "pc i = K_push_cas a h \<Longrightarrow> pc j = K_push_cas a h' \<Longrightarrow> j = i"
    "pc i = K_pop_move a p \<Longrightarrow> st_next (ns ! a) = p" "pc i = K_pop_move a p \<Longrightarrow> a < length ns"
    "pc i = K_push_cas a h \<Longrightarrow> pc j \<noteq> K_pop_move a p"
proof -
  show "pc i = K_push_cas a h \<Longrightarrow> pc j \<noteq> K_pop_move a p"
  proof
    assume x: "pc i = K_push_cas a h" "pc j = K_pop_move a p"
    then have "j = i" using assms unfolding threads_ok_def by (metis holds.simps(4))
    with x show False by simp
  qed
qed (use assms in \<open>unfold threads_ok_def, (metis holds.simps)+\<close>)

text \<open>\<open>push\<close> makes its node, which nobody else knows.\<close>

lemma threads_alloc:
  assumes ok: "threads_ok ns as pc" and as: "\<And>a. a \<in> set as \<Longrightarrow> a < length ns" and n: "st_next n = unmark h"
  shows "threads_ok (ns @ [n]) as (pc(i := K_push_cas (length ns) h))"
  using as n threads_okD [OF ok] unfolding threads_ok_def
  by (auto simp: nth_append less_Suc_eq intro: threads_okD(1) [OF ok]) (metis nat_neq_iff threads_okD(1,2) [OF ok])+

lemma threads_relink:
  assumes ok: "threads_ok ns as pc" and i: "pc i = K_push_cas a h0" and n: "st_next n = unmark h"
  shows "threads_ok (ns[a := n]) as (pc(i := K_push_cas a h))"
  using i n threads_okD [OF ok] unfolding threads_ok_def
  by (auto simp: nth_list_update)

lemma threads_publish:
  assumes "threads_ok ns as pc" "pc i = K_push_cas a h"
  shows "threads_ok ns (a # as) (pc(i := K_idle))"
  using assms unfolding threads_ok_def by auto

text \<open>A step of a thread is what the specification allows.\<close>

definition sim_step :: "(stk_event list \<times> ev_stack) outcome \<Rightarrow> nat list \<times> (nat \<Rightarrow> spec_pc) \<Rightarrow> bool" where
  "sim_step r u \<longleftrightarrow> r = Spins \<or> (\<exists>es s' u'. r = Done (es, s') \<and> as_run es u = Some u' \<and> stk_rel s' u')"

lemma sim_stepI: "as_run es u = Some u' \<Longrightarrow> stk_rel s' u' \<Longrightarrow> sim_step (Done (es, s')) u"
  unfolding sim_step_def by blast

lemma stk_relE:
  assumes "stk_rel s u"
  obtains as where "chain (sk_nodes s) (unmark (sk_head s)) as" "threads_ok (sk_nodes s) as (th s)"
    "u = (map (\<lambda>a. st_data (sk_nodes s ! a)) as, \<lambda>i. abs_pc (sk_nodes s) (th s i))"
  using assms unfolding stk_rel_def by blast

lemma node_at: "a < length (sk_nodes s) \<Longrightarrow> stk_node_at s a = Done (sk_nodes s ! a)"
  by (simp add: stk_node_at_def)

text \<open>A thread moves on without an effect on the stack, from a place of the same abstract state.\<close>

lemma stk_rel_move:
  assumes rel: "stk_rel s u" and i: "i < length (sk_threads s)"
    and x: "\<And>a h. x \<noteq> K_push_cas a h"
      "\<And>a. holds x = Some a \<Longrightarrow> a < length (sk_nodes s) \<and> (\<forall>j h. th s j \<noteq> K_push_cas a h)"
      "\<And>a p. x = K_pop_move a p \<Longrightarrow> st_next (sk_nodes s ! a) = p"
    and h: "unmark h = unmark (sk_head s)"
  shows "stk_rel (stk_goto i x (s\<lparr>sk_head := h\<rparr>)) (fst u, (snd u)(i := abs_pc (sk_nodes s) x))"
proof -
  obtain as where "chain (sk_nodes s) (unmark (sk_head s)) as" "threads_ok (sk_nodes s) as (th s)"
    "u = (map (\<lambda>a. st_data (sk_nodes s ! a)) as, \<lambda>i. abs_pc (sk_nodes s) (th s i))" by (rule stk_relE [OF rel])
  with threads_move [of "sk_nodes s" as "th s" as x i] x i h show ?thesis
    unfolding stk_rel_def by (auto simp: th_goto abs_upd intro!: exI [of _ as])
qed

lemma stk_goto_same: "stk_goto i x s = stk_goto i x (s\<lparr>sk_head := sk_head s\<rparr>)"
  by simp

lemma stk_rel_abs: "stk_rel s u \<Longrightarrow> abs_pc (sk_nodes s) (th s i) = y \<Longrightarrow> (snd u)(i := y) = snd u \<and> snd u i = y"
  unfolding stk_rel_def by auto

lemma push_sim:
  assumes rel: "stk_rel s u" and i: "i < length (sk_threads s)"
  shows "sim_step (push i s) u"
proof -
  obtain as where c: "chain (sk_nodes s) (unmark (sk_head s)) as" and ok: "threads_ok (sk_nodes s) as (th s)"
    and u: "u = (map (\<lambda>a. st_data (sk_nodes s ! a)) as, \<lambda>i. abs_pc (sk_nodes s) (th s i))" by (rule stk_relE [OF rel])
  have t: "th s i = sk_threads s ! i" using i by (simp add: th_def)
  show ?thesis
  proof (cases "sk_threads s ! i")
    case (K_push_load d)
    let ?n = "\<lparr>st_data = d, st_next = unmark (sk_head s)\<rparr>" and ?N = "length (sk_nodes s)"
    let ?s = "stk_goto i (K_push_cas ?N (sk_head s)) (s\<lparr>sk_nodes := sk_nodes s @ [?n]\<rparr>)"
    have old: "st_data ((sk_nodes s @ [?n]) ! b) = st_data (sk_nodes s ! b)" if "holds (th s j) = Some b" for j b
      using threads_okD(1) [OF ok that] by (simp add: nth_append)
    have "(\<lambda>j. abs_pc (sk_nodes s @ [?n]) (((th s)(i := K_push_cas ?N (sk_head s))) j)) = (\<lambda>j. abs_pc (sk_nodes s) (th s j))"
      using K_push_load t by (auto intro!: ext abs_pc_cong dest: old)
    then have "stk_rel ?s u"
      unfolding stk_rel_def u using threads_alloc [OF ok chain_bound [OF c], of ?n "sk_head s" i] c i
      by (auto simp: th_goto nth_append intro!: exI [of _ as] chain_grow dest: chain_bound [OF c])
    with K_push_load show ?thesis by (simp add: push_def sim_stepI)
  next
    case (K_push_cas a h)
    note a = threads_okD(2,3,4) [OF ok, of i a h, unfolded t, OF K_push_cas]
    show ?thesis
    proof (cases "sk_head s = h")
      case True
      have "stk_rel (stk_goto i K_idle (s\<lparr>sk_head := HPtr a\<rparr>)) (st_data (sk_nodes s ! a) # fst u, (snd u)(i := A_idle))"
        unfolding stk_rel_def u using threads_publish [OF ok, of i a h] c i a True K_push_cas t
        by (auto simp: th_goto abs_upd intro!: exI [of _ "a # as"])
      moreover have "as_run [E_effect i] u = Some (st_data (sk_nodes s ! a) # fst u, (snd u)(i := A_idle))"
        using K_push_cas t by (simp add: u)
      ultimately show ?thesis using True K_push_cas by (simp add: push_def sim_stepI)
    next
      case False
      let ?n = "(sk_nodes s ! a)\<lparr>st_next := unmark (sk_head s)\<rparr>"
      let ?s = "stk_goto i (K_push_cas a (sk_head s)) (s\<lparr>sk_nodes := (sk_nodes s)[a := ?n]\<rparr>)"
      have d: "st_data ((sk_nodes s)[a := ?n] ! b) = st_data (sk_nodes s ! b)" for b
        using a(1) by (cases "b = a") simp_all
      have "(\<lambda>j. abs_pc ((sk_nodes s)[a := ?n]) (((th s)(i := K_push_cas a (sk_head s))) j)) = (\<lambda>j. abs_pc (sk_nodes s) (th s j))"
        using K_push_cas t d by (auto intro!: ext abs_pc_cong)
      then have "stk_rel ?s u"
        unfolding stk_rel_def u using threads_relink [OF ok, of i a h ?n "sk_head s"] c i K_push_cas t a(2)
        by (auto simp: th_goto d intro!: exI [of _ as] chain_private)
      with False K_push_cas a(1) show ?thesis by (simp add: push_def sim_stepI node_at)
    qed
  qed (simp_all add: push_def sim_step_def)
qed

lemma pop_sim:
  assumes rel: "stk_rel s u" and i: "i < length (sk_threads s)"
  shows "sim_step (pop i s) u"
proof -
  obtain as where c: "chain (sk_nodes s) (unmark (sk_head s)) as" and ok: "threads_ok (sk_nodes s) as (th s)"
    and u: "u = (map (\<lambda>a. st_data (sk_nodes s ! a)) as, \<lambda>i. abs_pc (sk_nodes s) (th s i))" by (rule stk_relE [OF rel])
  have t: "th s i = sk_threads s ! i" using i by (simp add: th_def)
  have same: "sim_step (Done ([], stk_goto i x (s\<lparr>sk_head := h\<rparr>))) u"
    if "\<And>a h. x \<noteq> K_push_cas a h" "abs_pc (sk_nodes s) (th s i) = A_pop" "abs_pc (sk_nodes s) x = A_pop"
      "\<And>a. holds x = Some a \<Longrightarrow> a < length (sk_nodes s) \<and> (\<forall>j h. th s j \<noteq> K_push_cas a h)"
      "\<And>a p. x = K_pop_move a p \<Longrightarrow> st_next (sk_nodes s ! a) = p" "unmark h = unmark (sk_head s)" for x h
    using stk_rel_move [OF rel i that(1,4,5,6)] stk_rel_abs [OF rel that(2)] that(3)
    by (intro sim_stepI [of _ _ u]) simp_all
  have again: "sim_step (Done ([], stk_goto i K_pop_load s)) u" if "abs_pc (sk_nodes s) (th s i) = A_pop"
    using same [of K_pop_load "sk_head s"] that by simp
  show ?thesis
  proof (cases "sk_threads s ! i")
    case K_pop_load
    then have pop: "abs_pc (sk_nodes s) (th s i) = A_pop" by (simp add: t)
    show ?thesis
    proof (cases "sk_head s")
      case HNull
      have "as = []" using c HNull by (cases as) auto
      then have "as_run [E_effect i, E_return i 0] u = Some (fst u, (snd u)(i := A_idle))"
        using pop u by simp
      moreover have "stk_rel (stk_goto i K_idle s) (fst u, (snd u)(i := A_idle))"
        using stk_rel_move [OF rel i, of K_idle "sk_head s"] by simp
      ultimately show ?thesis using K_pop_load HNull by (simp add: pop_def sim_stepI)
    next
      case (HPtr a)
      then have a: "a \<in> set as" using c by (cases as) auto
      have "sim_step (Done ([], stk_goto i (K_pop_mark a) s)) u"
        using same [of "K_pop_mark a" "sk_head s"] pop a chain_bound [OF c a] threads_okD(3) [OF ok] by auto
      with K_pop_load HPtr show ?thesis by (simp add: pop_def)
    next
      case (HMark a)
      then show ?thesis using K_pop_load sim_stepI [of "[]" u u s, OF _ rel] by (simp add: pop_def)
    qed
  next
    case (K_pop_mark a)
    have h: "a < length (sk_nodes s) \<and> (\<forall>j h. th s j \<noteq> K_push_cas a h)" using held_ok [OF ok, of i a] t K_pop_mark by simp
    have "sim_step (Done ([], stk_goto i (K_pop_next a) (s\<lparr>sk_head := HMark a\<rparr>))) u" if "sk_head s = HPtr a"
      by (rule same) (use K_pop_mark h t that in simp_all)
    with again K_pop_mark t show ?thesis by (simp add: pop_def)
  next
    case (K_pop_next a)
    have h: "a < length (sk_nodes s) \<and> (\<forall>j h. th s j \<noteq> K_push_cas a h)" using held_ok [OF ok, of i a] t K_pop_next by simp
    have "sim_step (Done ([], stk_goto i (K_pop_move a (st_next (sk_nodes s ! a))) (s\<lparr>sk_head := sk_head s\<rparr>))) u"
      by (rule same) (use K_pop_next h t in simp_all)
    with K_pop_next h show ?thesis by (simp add: pop_def node_at)
  next
    case (K_pop_move a p)
    have h: "a < length (sk_nodes s) \<and> (\<forall>j h. th s j \<noteq> K_push_cas a h)" using held_ok [OF ok, of i a] t K_pop_move by simp
    show ?thesis
    proof (cases "sk_head s = HMark a")
      case True
      obtain bs where as: "as = a # bs" using c True by (cases as) auto
      note p = threads_okD(7,8) [OF ok, of i a p, unfolded t, OF K_pop_move]
      have "threads_ok (sk_nodes s) bs ((th s)(i := K_pop_data a))"
      proof (rule threads_move [OF ok])
        show "b < length (sk_nodes s) \<and> (\<forall>j h. th s j \<noteq> K_push_cas b h)" if "holds (K_pop_data a) = Some b" for b
          using h that by simp
      qed (simp_all add: as subset_insertI)
      then have "stk_rel (stk_goto i (K_pop_data a) (s\<lparr>sk_head := hptr_of p\<rparr>))
          (tl (fst u), (snd u)(i := A_done (st_data (sk_nodes s ! a))))"
        unfolding stk_rel_def u using c as True p i by (auto simp: th_goto abs_upd intro!: exI [of _ bs])
      moreover have "as_run [E_effect i] u = Some (tl (fst u), (snd u)(i := A_done (st_data (sk_nodes s ! a))))"
        using K_pop_move t by (simp add: u as)
      ultimately show ?thesis using K_pop_move True by (simp add: pop_def sim_stepI)
    qed (use again K_pop_move t in \<open>simp add: pop_def\<close>)
  next
    case (K_pop_data a)
    have h: "a < length (sk_nodes s) \<and> (\<forall>j h. th s j \<noteq> K_push_cas a h)" using held_ok [OF ok, of i a] t K_pop_data by simp
    have "as_run [E_return i (st_data (sk_nodes s ! a))] u = Some (fst u, (snd u)(i := A_idle))"
      using K_pop_data t u by simp
    moreover have "stk_rel (stk_goto i K_idle s) (fst u, (snd u)(i := A_idle))"
      using stk_rel_move [OF rel i, of K_idle "sk_head s"] by simp
    ultimately show ?thesis using K_pop_data h by (simp add: pop_def node_at sim_stepI)
  qed (simp_all add: pop_def sim_step_def)
qed

lemma stk_exec_sim:
  assumes rel: "stk_rel s u" and ok: "stk_ok x s"
  shows "sim_step (stk_exec x s) u"
proof (cases x)
  case (Call_push i d)
  with ok have i: "i < length (sk_threads s)" "th s i = K_idle" by (simp_all add: th_def)
  have "stk_rel (stk_goto i (K_push_load d) s) (fst u, (snd u)(i := A_push d))"
    using stk_rel_move [OF rel i(1), of "K_push_load d" "sk_head s"] by simp
  moreover have "as_run [E_push i d] u = Some (fst u, (snd u)(i := A_push d))"
    using stk_rel_abs [OF rel, of i A_idle] i by (cases u) simp
  ultimately show ?thesis by (simp add: Call_push sim_stepI)
next
  case (Call_pop i)
  with ok have i: "i < length (sk_threads s)" "th s i = K_idle" by (simp_all add: th_def)
  have "stk_rel (stk_goto i K_pop_load s) (fst u, (snd u)(i := A_pop))"
    using stk_rel_move [OF rel i(1), of K_pop_load "sk_head s"] by simp
  moreover have "as_run [E_pop i] u = Some (fst u, (snd u)(i := A_pop))"
    using stk_rel_abs [OF rel, of i A_idle] i by (cases u) simp
  ultimately show ?thesis by (simp add: Call_pop sim_stepI)
next
  case (Stk_step i)
  with ok push_sim [OF rel, of i] pop_sim [OF rel, of i] show ?thesis by (cases "sk_threads s ! i") simp_all
qed

text \<open>The stack as a system that never crashes.\<close>

interpretation stack: guarded_system "\<lambda>s. s = create_ev_stack n" stk_ok stk_exec snd "\<lambda>s. \<exists>u. stk_rel s u" for n
proof
  fix s assume "s = create_ev_stack n"
  then have "stk_rel s ([], \<lambda>_. A_idle)"
    by (auto simp: stk_rel_def create_ev_stack_def threads_ok_def th_def intro!: exI [of _ "[]"])
  then show "\<exists>u. stk_rel s u" ..
next
  fix s x assume "\<exists>u. stk_rel s u" "stk_ok x s"
  then show "stk_exec x s = Spins \<or> (\<exists>r. stk_exec x s = Done r \<and> (\<exists>u. stk_rel (snd r) u))"
    using stk_exec_sim unfolding sim_step_def by fastforce
qed

lemma stk_run_sim:
  "stk_rel s u \<Longrightarrow> stk_run ops s = Some (es, s') \<Longrightarrow> \<exists>u'. as_run es u = Some u' \<and> stk_rel s' u'"
proof (induction ops arbitrary: s u es)
  case (Cons x xs)
  then obtain e1 s1 e2 where ok: "stk_ok x s" and r: "stk_exec x s = Done (e1, s1)" "stk_run xs s1 = Some (e2, s')" "es = e1 @ e2"
    by (auto split: if_splits outcome.splits)
  from stk_exec_sim [OF Cons.prems(1) ok] r(1) obtain u1 where "as_run e1 u = Some u1" "stk_rel s1 u1"
    by (auto simp: sim_step_def)
  with Cons.IH [OF _ r(2)] r(3) show ?case by (auto simp: as_run_append)
qed auto

subsection \<open>A thread that runs alone\<close>

text \<open>
  The head is marked only while a thread is between its two exchanges on that node. So between the operations of the
  threads the head is not marked, and an operation that runs alone then finishes within seven steps.
\<close>

definition mark_owned :: "ev_stack \<Rightarrow> bool" where
  "mark_owned s \<longleftrightarrow> (\<forall>a. sk_head s = HMark a \<longrightarrow> (\<exists>i p. th s i \<in> {K_pop_next a, K_pop_move a p}))"

lemma hptr_of_unmarked [simp]: "hptr_of p \<noteq> HMark a"
  by (simp add: hptr_of_def split: option.splits)

lemma mark_owned_move:
  assumes m: "mark_owned s" and i: "i < length (sk_threads s)" and h: "sk_head s' = sk_head s"
    and t: "th s' = (th s)(i := x)"
    and x: "\<And>a p. sk_head s = HMark a \<Longrightarrow> th s i \<in> {K_pop_next a, K_pop_move a p} \<Longrightarrow> \<exists>q. x \<in> {K_pop_next a, K_pop_move a q}"
  shows "mark_owned s'"
  unfolding mark_owned_def
proof (intro allI impI)
  fix a assume a: "sk_head s' = HMark a"
  then obtain j p where j: "th s j \<in> {K_pop_next a, K_pop_move a p}" using m h by (auto simp: mark_owned_def)
  show "\<exists>i p. th s' i \<in> {K_pop_next a, K_pop_move a p}"
  proof (cases "j = i")
    case True
    with j x a h obtain q where "x \<in> {K_pop_next a, K_pop_move a q}" by metis
    then show ?thesis using t by (intro exI [of _ i] exI [of _ q]) simp
  next
    case False
    then show ?thesis using j t by (intro exI [of _ j] exI [of _ p]) simp
  qed
qed

lemma mark_owned_exec:
  assumes m: "mark_owned s" and ok: "stk_ok x s" and ex: "stk_exec x s = Done (es, s')"
  shows "mark_owned s'"
proof (cases x)
  case (Stk_step i)
  with ok have i: "i < length (sk_threads s)" by simp
  then have t: "th s i = sk_threads s ! i" by (simp add: th_def)
  note d = push_def pop_def stk_node_at_def
  note move = mark_owned_move [OF m i, of s']
  show ?thesis
  proof (cases "sk_threads s ! i")
    case K_idle
    with ex Stk_step show ?thesis by (simp add: pop_def)
  next
    case (K_push_load v)
    with ex Stk_step have "s' = stk_goto i (K_push_cas (length (sk_nodes s)) (sk_head s))
       (s\<lparr>sk_nodes := sk_nodes s @ [\<lparr>st_data = v, st_next = unmark (sk_head s)\<rparr>]\<rparr>)" by (simp add: d)
    with i K_push_load t show ?thesis by (intro move) (simp_all add: th_goto)
  next
    case (K_push_cas a h)
    show ?thesis
    proof (cases "sk_head s = h")
      case True
      with ex Stk_step K_push_cas have "s' = stk_goto i K_idle (s\<lparr>sk_head := HPtr a\<rparr>)" by (simp add: d)
      then show ?thesis by (simp add: mark_owned_def)
    next
      case False
      with ex Stk_step K_push_cas have "sk_head s' = sk_head s \<and> th s' = (th s)(i := K_push_cas a (sk_head s))"
        using i by (auto simp: d th_goto split: if_splits)
      with K_push_cas t show ?thesis by (intro move) simp_all
    qed
  next
    case K_pop_load
    show ?thesis
    proof (cases "sk_head s")
      case HNull
      with ex Stk_step K_pop_load have "s' = stk_goto i K_idle s" by (simp add: d)
      with HNull show ?thesis by (simp add: mark_owned_def)
    next
      case (HPtr a)
      with ex Stk_step K_pop_load have "s' = stk_goto i (K_pop_mark a) s" by (simp add: d)
      with HPtr show ?thesis by (simp add: mark_owned_def)
    next
      case (HMark a)
      with ex Stk_step K_pop_load m show ?thesis by (simp add: d)
    qed
  next
    case (K_pop_mark a)
    show ?thesis
    proof (cases "sk_head s = HPtr a")
      case True
      with ex Stk_step K_pop_mark have "s' = stk_goto i (K_pop_next a) (s\<lparr>sk_head := HMark a\<rparr>)" by (simp add: d)
      with i show ?thesis by (auto simp: mark_owned_def th_goto intro!: exI [of _ i])
    next
      case False
      with ex Stk_step K_pop_mark have "s' = stk_goto i K_pop_load s" by (simp add: d)
      with i K_pop_mark t show ?thesis by (intro move) (simp_all add: th_goto)
    qed
  next
    case (K_pop_next a)
    with ex Stk_step have "s' = stk_goto i (K_pop_move a (st_next (sk_nodes s ! a))) s" by (auto simp: d split: if_splits)
    with i K_pop_next t show ?thesis by (intro move) (auto simp: th_goto)
  next
    case (K_pop_move a p)
    show ?thesis
    proof (cases "sk_head s = HMark a")
      case True
      with ex Stk_step K_pop_move have "s' = stk_goto i (K_pop_data a) (s\<lparr>sk_head := hptr_of p\<rparr>)" by (simp add: d)
      then show ?thesis by (simp add: mark_owned_def)
    next
      case False
      with ex Stk_step K_pop_move have "s' = stk_goto i K_pop_load s" by (simp add: d)
      with i K_pop_move t False show ?thesis by (intro move) (auto simp: th_goto)
    qed
  next
    case (K_pop_data a)
    with ex Stk_step have "s' = stk_goto i K_idle s" by (auto simp: d split: if_splits)
    with i K_pop_data t show ?thesis by (intro move) (simp_all add: th_goto)
  qed
next
  case (Call_push i d)
  with ok ex show ?thesis by (intro mark_owned_move [OF m, of i _ "K_push_load d"]) (auto simp: th_def stk_goto_def)
next
  case (Call_pop i)
  with ok ex show ?thesis by (intro mark_owned_move [OF m, of i _ K_pop_load]) (auto simp: th_def stk_goto_def)
qed

definition alone_inv :: "ev_stack \<Rightarrow> bool" where
  "alone_inv s \<longleftrightarrow> mark_owned s \<and> (\<exists>u. stk_rel s u)"

interpretation stack_alone: guarded_system "\<lambda>s. s = create_ev_stack n" stk_ok stk_exec snd alone_inv for n
proof
  fix s assume s: "s = create_ev_stack n"
  then have "mark_owned s" by (simp add: mark_owned_def create_ev_stack_def)
  with stack.start_law [OF s] show "alone_inv s" by (simp add: alone_inv_def)
next
  fix s x assume "alone_inv s" "stk_ok x s"
  with stack.exec_law [of s x] mark_owned_exec [of s x]
  show "stk_exec x s = Spins \<or> (\<exists>r. stk_exec x s = Done r \<and> alone_inv (snd r))"
    by (fastforce simp: alone_inv_def)
qed

text \<open>Thread \<open>i\<close> takes steps, and no other thread does, until it is outside; \<open>None\<close> when \<open>k\<close> steps are not enough.\<close>

fun alone :: "nat \<Rightarrow> nat \<Rightarrow> ev_stack \<Rightarrow> (stk_event list \<times> ev_stack) option" where
  "alone k i s =
     (if th s i = K_idle then Some ([], s)
      else case k of
        0 \<Rightarrow> None
      | Suc k' \<Rightarrow>
         (case stk_exec (Stk_step i) s of
            Done (es, s') \<Rightarrow> map_option (\<lambda>(fs, s''). (es @ fs, s'')) (alone k' i s')
          | _ \<Rightarrow> None))"

declare alone.simps [simp del]

lemma alone_idle [simp]: "th s i = K_idle \<Longrightarrow> alone k i s = Some ([], s)"
  by (subst alone.simps) simp

lemma alone_Suc:
  "th s i \<noteq> K_idle \<Longrightarrow> stk_exec (Stk_step i) s = Done (es, s') \<Longrightarrow>
   alone (Suc k) i s = map_option (\<lambda>(fs, s''). (es @ fs, s'')) (alone k i s')"
  by (subst alone.simps) simp

text \<open>The rest of an operation, from each place, when nobody else moves.\<close>

definition ends :: "nat \<Rightarrow> nat \<Rightarrow> ev_stack \<Rightarrow> bool" where
  "ends k i s \<longleftrightarrow> (\<exists>es s'. alone k i s = Some (es, s') \<and> th s' i = K_idle)"

lemma ends_idle: "th s i = K_idle \<Longrightarrow> ends k i s"
  by (simp add: ends_def)

lemma ends_Suc:
  assumes "stk_exec (Stk_step i) s = Done (es, s')" "ends k i s'"
  shows "ends (Suc k) i s"
  using assms alone_Suc [of s i es s' k] by (cases "th s i = K_idle") (auto simp: ends_def)

lemma ends_mono: "ends k i s \<Longrightarrow> k \<le> k' \<Longrightarrow> ends k' i s"
proof (induction k arbitrary: k' s)
  case 0
  then show ?case by (auto simp: ends_def alone.simps split: if_splits)
next
  case (Suc k)
  show ?case
  proof (cases "th s i = K_idle")
    case False
    with Suc.prems(1) obtain es s' where st: "stk_exec (Stk_step i) s = Done (es, s')"
      by (auto simp: ends_def alone.simps [of "Suc k"] split: outcome.splits)
    with Suc.prems(1) False have "ends k i s'" by (auto simp: ends_def alone_Suc)
    moreover obtain m where "k' = Suc m" "k \<le> m" using Suc.prems(2) by (cases k') auto
    ultimately show ?thesis using Suc.IH st ends_Suc by blast
  qed (rule ends_idle)
qed

lemma stk_exec_length: "stk_exec x s = Done (es, s') \<Longrightarrow> length (sk_threads s') = length (sk_threads s)"
  by (cases x) (auto simp: push_def pop_def stk_node_at_def stk_goto_def split: stk_pc.splits hptr.splits if_splits)

lemma alone_exec:
  assumes inv: "alone_inv s" and i: "i < length (sk_threads s)" and t: "th s i \<noteq> K_idle"
  obtains es s' where "stk_exec (Stk_step i) s = Done (es, s')" "alone_inv s'" "length (sk_threads s') = length (sk_threads s)"
proof -
  have "stk_exec (Stk_step i) s \<noteq> Spins"
    using i t by (auto simp: th_def push_def pop_def stk_node_at_def split: stk_pc.splits hptr.splits)
  with stack_alone.exec_law [OF inv, of "Stk_step i"] i obtain es s' where r: "stk_exec (Stk_step i) s = Done (es, s')" "alone_inv s'"
    by auto
  moreover have "length (sk_threads s') = length (sk_threads s)"
    by (rule stk_exec_length [OF r(1)])
  ultimately show thesis by (rule that)
qed

lemma ends_step:
  assumes "alone_inv s" "i < length (sk_threads s)"
    "\<And>es s'. stk_exec (Stk_step i) s = Done (es, s') \<Longrightarrow> alone_inv s' \<Longrightarrow> i < length (sk_threads s') \<Longrightarrow> ends (k - 1) i s'" "0 < k"
  shows "ends k i s"
proof (cases "th s i = K_idle")
  case False
  from alone_exec [OF assms(1,2) False] obtain es s' where r: "stk_exec (Stk_step i) s = Done (es, s')" "alone_inv s'"
    "length (sk_threads s') = length (sk_threads s)" .
  with assms(2,3) have "ends (k - 1) i s'" by simp
  with r(1) have "ends (Suc (k - 1)) i s" by (rule ends_Suc)
  with assms(4) show ?thesis by simp
qed (rule ends_idle)

lemma th_nth: "i < length (sk_threads s) \<Longrightarrow> sk_threads s ! i = th s i"
  by (simp add: th_def)

lemmas step_defs = push_def pop_def th_nth th_goto stk_node_at_def

lemma ends_data:
  "alone_inv s \<Longrightarrow> i < length (sk_threads s) \<Longrightarrow> th s i = K_pop_data a \<Longrightarrow> ends 1 i s"
  by (rule ends_step) (auto simp: step_defs intro!: ends_idle split: if_splits)

lemma ends_move:
  "alone_inv s \<Longrightarrow> i < length (sk_threads s) \<Longrightarrow> th s i = K_pop_move a p \<Longrightarrow> sk_head s = HMark a \<Longrightarrow> ends 2 i s"
  by (rule ends_step) (auto simp: step_defs intro!: ends_data [simplified] split: if_splits)

lemma ends_next:
  "alone_inv s \<Longrightarrow> i < length (sk_threads s) \<Longrightarrow> th s i = K_pop_next a \<Longrightarrow> sk_head s = HMark a \<Longrightarrow> ends 3 i s"
  by (rule ends_step) (auto simp: step_defs intro!: ends_move split: if_splits)

lemma ends_mark:
  "alone_inv s \<Longrightarrow> i < length (sk_threads s) \<Longrightarrow> th s i = K_pop_mark a \<Longrightarrow> sk_head s = HPtr a \<Longrightarrow> ends 4 i s"
  by (rule ends_step) (auto simp: step_defs intro!: ends_next)

lemma ends_load:
  assumes "alone_inv s" "i < length (sk_threads s)" "th s i = K_pop_load" "\<And>a. sk_head s \<noteq> HMark a"
  shows "ends 5 i s"
proof (rule ends_step [OF assms(1,2)])
  fix es s' assume st: "stk_exec (Stk_step i) s = Done (es, s')" "alone_inv s'" "i < length (sk_threads s')"
  show "ends (5 - 1) i s'"
  proof (cases "sk_head s")
    case HNull
    with st assms(2,3) have "th s' i = K_idle" by (auto simp: step_defs)
    then show ?thesis by (rule ends_idle)
  next
    case (HPtr a)
    with st(1) assms(2,3) have "th s' i = K_pop_mark a" "sk_head s' = HPtr a" by (auto simp: step_defs)
    with ends_mark [OF st(2,3)] show ?thesis by simp
  qed (use assms(4) in simp)
qed simp

lemma ends_stale:
  assumes "alone_inv s" "i < length (sk_threads s)" "\<And>a. sk_head s \<noteq> HMark a" "th s i = K_pop_mark a \<or> th s i = K_pop_move a p"
  shows "ends 6 i s"
proof (cases "th s i = K_pop_mark a \<and> sk_head s = HPtr a")
  case True
  with ends_mark [OF assms(1,2)] show ?thesis by (auto intro: ends_mono)
next
  case False
  with assms show ?thesis by (intro ends_step [of s i 6]) (auto simp: step_defs intro!: ends_load)
qed

lemma ends_push:
  assumes "alone_inv s" "i < length (sk_threads s)" "th s i = K_push_cas a h"
  shows "ends 2 i s"
proof -
  have one: "ends 1 i s" if "alone_inv s" "i < length (sk_threads s)" "th s i = K_push_cas a (sk_head s)" for s
    using that by (intro ends_step [of s i 1]) (auto simp: step_defs intro!: ends_idle)
  show ?thesis
  proof (rule ends_step [OF assms(1,2)])
    fix es s' assume st: "stk_exec (Stk_step i) s = Done (es, s')" "alone_inv s'" "i < length (sk_threads s')"
    have "th s' i = K_idle \<or> th s' i = K_push_cas a (sk_head s')"
      using st(1) assms(2,3) by (auto simp: step_defs split: if_splits)
    with one [OF st(2,3)] show "ends (2 - 1) i s'" by (auto intro: ends_idle)
  qed simp
qed

lemma ends_push_load:
  "alone_inv s \<Longrightarrow> i < length (sk_threads s) \<Longrightarrow> th s i = K_push_load d \<Longrightarrow> ends 3 i s"
  by (rule ends_step) (auto simp: step_defs intro!: ends_push)

lemma ends_pop_next:
  assumes "alone_inv s" "i < length (sk_threads s)" "\<And>a. sk_head s \<noteq> HMark a" "th s i = K_pop_next a"
  shows "ends 7 i s"
  using assms by (intro ends_step [of s i 7]) (auto simp: step_defs intro!: ends_stale split: if_splits)

lemma ends_alone:
  assumes inv: "alone_inv s" and i: "i < length (sk_threads s)" and h: "\<And>a. sk_head s \<noteq> HMark a"
  shows "ends 7 i s"
proof (cases "th s i")
  case (K_push_load d)
  from ends_push_load [OF inv i K_push_load] show ?thesis by (rule ends_mono) simp
next
  case (K_pop_next a)
  from ends_pop_next [OF inv i h K_pop_next] show ?thesis .
next
  case K_pop_load
  from ends_load [OF inv i K_pop_load h] show ?thesis by (rule ends_mono) simp
next
  case (K_push_cas a h')
  from ends_push [OF inv i K_push_cas] show ?thesis by (rule ends_mono) simp
next
  case (K_pop_data a)
  from ends_data [OF inv i K_pop_data] show ?thesis by (rule ends_mono) simp
next
  case K_idle
  then show ?thesis by (rule ends_idle)
next
  case (K_pop_mark a)
  with ends_stale [OF inv i h] show ?thesis by (auto intro: ends_mono)
next
  case (K_pop_move a p)
  with ends_stale [OF inv i h] show ?thesis by (auto intro: ends_mono)
qed

subsection \<open>Destroying the stack\<close>

text \<open>
  \<open>destroy_ev_stack\<close> calls \<open>pop\<close> until it returns \<open>NULL\<close> and frees the header, which ends the use of the stack; the
  result is what it popped, \<open>None\<close> when \<open>k\<close> calls are not enough. Nobody else uses the stack meanwhile.
\<close>

definition pop_alone :: "nat \<Rightarrow> ev_stack \<Rightarrow> (nat \<times> ev_stack) option" where
  "pop_alone i s =
     (case stk_exec (Call_pop i) s of
        Done (es, s') \<Rightarrow>
          (case alone 5 i s' of
             Some (fs, s'') \<Rightarrow> (case last fs of E_return j d \<Rightarrow> Some (d, s'') | _ \<Rightarrow> None)
           | None \<Rightarrow> None)
      | _ \<Rightarrow> None)"

fun destroy_ev_stack :: "nat \<Rightarrow> nat \<Rightarrow> ev_stack \<Rightarrow> nat list option" where
  "destroy_ev_stack 0 i s = None"
| "destroy_ev_stack (Suc k) i s =
     (case pop_alone i s of
        None \<Rightarrow> None
      | Some (d, s') \<Rightarrow> if d = 0 then Some [] else map_option ((#) d) (destroy_ev_stack k i s'))"

lemma alone_step:
  "stk_exec (Stk_step i) s = Done (es, s') \<Longrightarrow> th s i \<noteq> K_idle \<Longrightarrow> alone k i s' = Some (fs, s'') \<Longrightarrow>
   alone (Suc k) i s = Some (es @ fs, s'')"
  by (simp add: alone_Suc)

lemma th_nth_goto [simp]: "i < length (sk_threads s) \<Longrightarrow> th (stk_goto i x s) i = x"
  by (simp add: th_goto)

lemma goto_goto [simp]:
  "stk_goto i x (stk_goto i y s) = stk_goto i x s" "(stk_goto i x s)\<lparr>sk_head := h\<rparr> = stk_goto i x (s\<lparr>sk_head := h\<rparr>)"
  by (simp_all add: stk_goto_def)

lemma pop_alone_empty:
  assumes "i < length (sk_threads s)" "sk_head s = HNull"
  shows "pop_alone i s = Some (0, stk_goto i K_idle s)"
  using assms alone_step [of i "stk_goto i K_pop_load s" "[E_effect i, E_return i 0]" "stk_goto i K_idle s" 4 "[]" "stk_goto i K_idle s"]
  by (simp add: pop_alone_def step_defs)

lemma pop_alone_first:
  assumes i: "i < length (sk_threads s)" and h: "sk_head s = HPtr a" and a: "a < length (sk_nodes s)"
  defines "n \<equiv> sk_nodes s ! a"
  shows "pop_alone i s = Some (st_data n, stk_goto i K_idle (s\<lparr>sk_head := hptr_of (st_next n)\<rparr>))"
proof -
  let ?s = "\<lambda>x h. stk_goto i x (s\<lparr>sk_head := h\<rparr>)"
  have same: "s\<lparr>sk_head := HPtr a\<rparr> = s" by (simp add: h [symmetric])
  have "alone 1 i (?s (K_pop_data a) (hptr_of (st_next n))) = Some ([E_return i (st_data n)], ?s K_idle (hptr_of (st_next n)))"
    using alone_step [of i "?s (K_pop_data a) (hptr_of (st_next n))" _ _ 0] i a by (simp add: step_defs n_def)
  then have "alone 2 i (?s (K_pop_move a (st_next n)) (HMark a)) = Some ([E_effect i, E_return i (st_data n)], ?s K_idle (hptr_of (st_next n)))"
    using alone_step [of i "?s (K_pop_move a (st_next n)) (HMark a)" _ _ 1] i by (simp add: step_defs numeral_2_eq_2)
  then have "alone 3 i (?s (K_pop_next a) (HMark a)) = Some ([E_effect i, E_return i (st_data n)], ?s K_idle (hptr_of (st_next n)))"
    using alone_step [of i "?s (K_pop_next a) (HMark a)" _ _ 2] i a by (simp add: step_defs n_def)
  then have "alone 4 i (?s (K_pop_mark a) (HPtr a)) = Some ([E_effect i, E_return i (st_data n)], ?s K_idle (hptr_of (st_next n)))"
    using alone_step [of i "?s (K_pop_mark a) (HPtr a)" _ _ 3] i by (simp add: step_defs)
  then have "alone 5 i (stk_goto i K_pop_load s) = Some ([E_effect i, E_return i (st_data n)], ?s K_idle (hptr_of (st_next n)))"
    using alone_step [of i "stk_goto i K_pop_load s" _ _ 4] i h same by (simp add: step_defs)
  then show ?thesis by (simp add: pop_alone_def)
qed

lemma destroy_pops:
  assumes "chain (sk_nodes s) p as" "sk_head s = hptr_of p" "i < length (sk_threads s)"
  shows "destroy_ev_stack (length as + 1) i s = Some (takeWhile (\<lambda>d. d \<noteq> 0) (map (\<lambda>a. st_data (sk_nodes s ! a)) as))"
  using assms
proof (induction as arbitrary: p s)
  case Nil
  then show ?case by (simp add: pop_alone_empty hptr_of_def)
next
  case (Cons a as)
  let ?n = "sk_nodes s ! a"
  let ?s = "stk_goto i K_idle (s\<lparr>sk_head := hptr_of (st_next ?n)\<rparr>)"
  have "destroy_ev_stack (length as + 1) i ?s = Some (takeWhile (\<lambda>d. d \<noteq> 0) (map (\<lambda>b. st_data (sk_nodes ?s ! b)) as))"
    by (rule Cons.IH [of _ "st_next ?n"]) (use Cons.prems in simp_all)
  moreover have "pop_alone i s = Some (st_data ?n, ?s)"
    by (rule pop_alone_first) (use Cons.prems in \<open>simp_all add: hptr_of_def\<close>)
  ultimately show ?case by simp
qed

lemma elements_chain: "elements ns p xs \<Longrightarrow> chain ns p as \<Longrightarrow> xs = map (\<lambda>a. st_data (ns ! a)) as"
proof (induction as arbitrary: p xs)
  case Nil
  then show ?case by (cases xs) auto
next
  case (Cons a as)
  then show ?case by (cases xs) auto
qed

lemma alone_length: "alone k i s = Some (es, s') \<Longrightarrow> length (sk_threads s') = length (sk_threads s)"
proof (induction k arbitrary: s es)
  case 0
  then show ?case by (auto simp: alone.simps [of 0] split: if_splits)
next
  case (Suc k)
  show ?case
  proof (cases "th s i = K_idle")
    case False
    with Suc.prems obtain e1 s1 e2 where "stk_exec (Stk_step i) s = Done (e1, s1)" "alone k i s1 = Some (e2, s')"
      by (auto simp: alone.simps [of "Suc k"] split: outcome.splits)
    with Suc.IH stk_exec_length show ?thesis by metis
  qed (use Suc.prems in simp)
qed

lemma stk_run_alone:
  "alone_inv s \<Longrightarrow> stk_run ops s = Some (es, s') \<Longrightarrow> alone_inv s' \<and> length (sk_threads s') = length (sk_threads s)"
proof (induction ops arbitrary: s es)
  case (Cons x xs)
  then obtain e1 s1 e2 where ok: "stk_ok x s" and r: "stk_exec x s = Done (e1, s1)" "stk_run xs s1 = Some (e2, s')"
    by (auto split: if_splits outcome.splits)
  have "alone_inv s1" using stack_alone.exec_law [OF Cons.prems(1) ok] r(1) by auto
  moreover have "length (sk_threads s1) = length (sk_threads s)"
    by (rule stk_exec_length [OF r(1)])
  ultimately show ?case using Cons.IH [OF _ r(2)] by simp
qed auto

subsection \<open>Properties\<close>

text \<open>
  C26. \<open>ev_stack\<close> is a linearisable stack. In every interleaving of any number of threads that push and pop, the calls
  take effect, each at one moment between its call and its return, as the operations of a list do, and every \<open>pop\<close>
  returns what it took from the list, \<open>NULL\<close> when the list was empty; the nodes from the head down are the list. No
  thread reaches outside the heap.
\<close>

theorem stack_linearizable:
  assumes "stk_run ops (create_ev_stack n) = Some (es, s)"
  shows "\<exists>xs t. as_run es ([], \<lambda>_. A_idle) = Some (xs, t) \<and> elements (sk_nodes s) (unmark (sk_head s)) xs \<and>
    (\<forall>x. stk_ok x s \<longrightarrow> stk_exec x s \<noteq> Aborted \<and> stk_exec x s \<noteq> Bad_access)"
proof -
  have "stk_rel (create_ev_stack n) ([], \<lambda>_. A_idle)"
    by (auto simp: stk_rel_def create_ev_stack_def threads_ok_def th_def intro!: exI [of _ "[]"])
  from stk_run_sim [OF this assms] obtain xs t where r: "as_run es ([], \<lambda>_. A_idle) = Some (xs, t)" "stk_rel s (xs, t)" by auto
  moreover have "elements (sk_nodes s) (unmark (sk_head s)) xs" using r(2) chain_elements unfolding stk_rel_def by fastforce
  ultimately show ?thesis using stack.exec_law [of s] by fastforce
qed

abbreviation demo_stack_ops :: "stk_op list" where
  "demo_stack_ops \<equiv> [Call_push 0 7, Stk_step 0, Stk_step 0, Call_pop 1, Stk_step 1, Stk_step 1, Call_push 0 8,
     Stk_step 0, Stk_step 0, Stk_step 1, Stk_step 1, Stk_step 1, Stk_step 1, Stk_step 1, Stk_step 1, Stk_step 1]"

theorem stack_linearizable_witness:
  "\<exists>es s xs t. stk_run demo_stack_ops (create_ev_stack 2) = Some (es, s) \<and> last es = E_return 1 8 \<and>
     as_run es ([], \<lambda>_. A_idle) = Some (xs, t) \<and> elements (sk_nodes s) (unmark (sk_head s)) xs"
proof -
  have "\<exists>es s. stk_run demo_stack_ops (create_ev_stack 2) = Some (es, s) \<and> last es = E_return 1 8"
    by (simp add: create_ev_stack_def numeral_2_eq_2 stk_goto_def push_def pop_def stk_node_at_def hptr_of_def)
  then obtain es s where r: "stk_run demo_stack_ops (create_ev_stack 2) = Some (es, s)" "last es = E_return 1 8" by blast
  from stack_linearizable [OF r(1)] r show ?thesis by blast
qed

text \<open>
  C27. An operation of the stack that runs alone finishes. In every state the threads can reach, a thread that is left
  alone while the head is not marked returns from its \<open>push\<close> or \<open>pop\<close> within seven steps, however stale what it has
  read; and when all threads are outside, \<open>destroy_ev_stack\<close> ends after at most one \<open>pop\<close> more than the stack has
  elements, having popped them from the top down to the first \<open>NULL\<close>.
\<close>

theorem stack_alone_returns:
  assumes run: "stk_run ops (create_ev_stack n) = Some (es, s)" and i: "i < n"
  shows "((\<forall>a. sk_head s \<noteq> HMark a) \<longrightarrow> (\<exists>fs s'. alone 7 i s = Some (fs, s') \<and> sk_threads s' ! i = K_idle)) \<and>
    ((\<forall>j<n. sk_threads s ! j = K_idle) \<longrightarrow>
       (\<exists>xs. elements (sk_nodes s) (unmark (sk_head s)) xs \<and>
          destroy_ev_stack (length xs + 1) i s = Some (takeWhile (\<lambda>d. d \<noteq> 0) xs)))"
proof -
  have inv: "alone_inv s" and len: "length (sk_threads s) = n"
    using stk_run_alone [OF stack_alone.start_law [OF refl] run] by (simp_all add: create_ev_stack_def)
  then obtain as where c: "chain (sk_nodes s) (unmark (sk_head s)) as" by (auto simp: alone_inv_def stk_rel_def)
  have "\<exists>fs s'. alone 7 i s = Some (fs, s') \<and> sk_threads s' ! i = K_idle" if h: "\<forall>a. sk_head s \<noteq> HMark a"
  proof -
    have "ends 7 i s" by (rule ends_alone [OF inv]) (use h i len in auto)
    then obtain fs s' where r: "alone 7 i s = Some (fs, s')" "th s' i = K_idle" unfolding ends_def by blast
    with alone_length [OF r(1)] i len show ?thesis by (auto simp: th_def)
  qed
  moreover have "destroy_ev_stack (length as + 1) i s = Some (takeWhile (\<lambda>d. d \<noteq> 0) (map (\<lambda>a. st_data (sk_nodes s ! a)) as))"
    if idle: "\<forall>j<n. sk_threads s ! j = K_idle"
  proof (rule destroy_pops [OF c])
    have "th s j = K_idle" for j using idle len by (simp add: th_def)
    then have "\<forall>a. sk_head s \<noteq> HMark a" using inv by (auto simp: alone_inv_def mark_owned_def)
    then show "sk_head s = hptr_of (unmark (sk_head s))" by (cases "sk_head s") (simp_all add: hptr_of_def)
  qed (use i len in simp)
  ultimately show ?thesis using chain_elements [OF c] by (metis length_map)
qed

theorem stack_alone_returns_witness:
  "\<exists>es s. stk_run demo_stack_ops (create_ev_stack 2) = Some (es, s) \<and> elements (sk_nodes s) (unmark (sk_head s)) [7] \<and>
     destroy_ev_stack 2 0 s = Some [7]"
proof -
  have "\<exists>es s. stk_run demo_stack_ops (create_ev_stack 2) = Some (es, s) \<and> sk_threads s = [K_idle, K_idle] \<and>
      sk_head s = HPtr 0 \<and> sk_nodes s = [\<lparr>st_data = 7, st_next = None\<rparr>, \<lparr>st_data = 8, st_next = Some 0\<rparr>]"
    by (simp add: create_ev_stack_def numeral_2_eq_2 stk_goto_def push_def pop_def stk_node_at_def hptr_of_def)
  then obtain es s where r: "stk_run demo_stack_ops (create_ev_stack 2) = Some (es, s)" and t: "sk_threads s = [K_idle, K_idle]"
    and n: "sk_head s = HPtr 0" "sk_nodes s = [\<lparr>st_data = 7, st_next = None\<rparr>, \<lparr>st_data = 8, st_next = Some 0\<rparr>]" by blast
  have c: "chain (sk_nodes s) (unmark (sk_head s)) [0]" by (simp add: n)
  from stack_alone_returns [OF r, of 0] t obtain xs where xs: "elements (sk_nodes s) (unmark (sk_head s)) xs"
    "destroy_ev_stack (length xs + 1) 0 s = Some (takeWhile (\<lambda>d. d \<noteq> 0) xs)" by (auto simp: less_2_cases_iff)
  with elements_chain [OF xs(1) c] n r show ?thesis by (auto simp: numeral_2_eq_2)
qed

end
