(* ===== verification/Compression.thy ===== *)
theory Compression
  imports Prelude
begin

text \<open>
  \<open>src/core_utils/ev_compression.c\<close>: compression of a buffer into one that grows by chunks of the size of the input, and
  decompression by way of a chunk. zlib is a parameter, the functions of the record \<open>zlib\<close>; \<open>zlib_laws\<close> states what its
  documentation promises of them. So is \<open>realloc\<close>, which may move the block or fail; the \<open>malloc\<close> of the chunk succeeds.
\<close>

subsection \<open>zlib and memory\<close>

abbreviation Z_OK :: int where "Z_OK \<equiv> 0"
abbreviation Z_STREAM_END :: int where "Z_STREAM_END \<equiv> 1"
abbreviation Z_NEED_DICT :: int where "Z_NEED_DICT \<equiv> 2"
abbreviation Z_ERRNO :: int where "Z_ERRNO \<equiv> -1"
abbreviation Z_STREAM_ERROR :: int where "Z_STREAM_ERROR \<equiv> -2"
abbreviation Z_DATA_ERROR :: int where "Z_DATA_ERROR \<equiv> -3"
abbreviation Z_MEM_ERROR :: int where "Z_MEM_ERROR \<equiv> -4"
abbreviation Z_BUF_ERROR :: int where "Z_BUF_ERROR \<equiv> -5"
abbreviation Z_VERSION_ERROR :: int where "Z_VERSION_ERROR \<equiv> -6"

text \<open>
  A stream is opened on its whole input; a call to \<open>deflate\<close> (with \<open>Z_FINISH\<close>) or \<open>inflate\<close> with room for \<open>n\<close> bytes
  gives a return value, the bytes it stores and the stream after it.
\<close>

record 'z zlib =
  deflateInit :: "byte list \<Rightarrow> int \<times> 'z"
  deflate :: "'z \<Rightarrow> nat \<Rightarrow> int \<times> byte list \<times> 'z"
  avail_in :: "'z \<Rightarrow> nat"
  inflateInit :: "byte list \<Rightarrow> int \<times> 'z"
  inflate :: "'z \<Rightarrow> nat \<Rightarrow> int \<times> byte list \<times> 'z"

text \<open>The \<open>i\<close>-th \<open>realloc\<close>: \<open>None\<close> when it fails, else whether it moves the block.\<close>

type_synonym realloc = "nat \<Rightarrow> bool option"

text \<open>\<open>uInt\<close> fields of the stream take a \<open>size_t\<close> modulo \<open>2 ^ 32\<close>.\<close>

definition uInt :: "nat \<Rightarrow> nat" where
  "uInt n = n mod 2 ^ 32"

subsection \<open>Compression\<close>

text \<open>
  The loop of \<open>compress_inp_buf\<close>. \<open>stale\<close>: \<open>strm.next_out\<close> points into a block that \<open>realloc\<close> has moved away from,
  because only the first round sets it. The results are what is in the buffer and the number stored through
  \<open>written_size_ptr\<close>. When \<open>fuel\<close> rounds are not enough, the loop has not ended.
\<close>

fun compress_loop ::
  "nat \<Rightarrow> 'z zlib \<Rightarrow> realloc \<Rightarrow> nat \<Rightarrow> 'z \<Rightarrow> nat \<Rightarrow> bool \<Rightarrow> byte list \<Rightarrow> nat \<Rightarrow> (int \<times> (byte list \<times> nat) option) outcome" where
  "compress_loop 0 zl re in_size z i stale out written = Spins"
| "compress_loop (Suc fuel) zl re in_size z i stale out written =
     (case re (i + 1) of
        None \<Rightarrow> if i = 0 then Aborted else Bad_access
      | Some moved \<Rightarrow>
          let stale1 = (stale \<or> i \<noteq> 0 \<and> moved);
              (ret, bs, z1) = deflate zl z (uInt in_size);
              avail_out = uInt in_size - length bs
          in if ret = Z_STREAM_ERROR then Aborted
             else if bs \<noteq> [] \<and> stale1 then Bad_access
             else if avail_out = 0
               then compress_loop fuel zl re in_size z1 (i + 1) stale1 (out @ bs) (written + (in_size - avail_out))
             else if avail_in zl z1 \<noteq> 0 then Aborted
             else if ret \<noteq> Z_STREAM_END then Aborted
             else Done (Z_OK, Some (out @ bs, written + (in_size - avail_out))))"

definition compress_inp_buf :: "nat \<Rightarrow> 'z zlib \<Rightarrow> realloc \<Rightarrow> byte list \<Rightarrow> (int \<times> (byte list \<times> nat) option) outcome" where
  "compress_inp_buf fuel zl re inp =
     (let in_size = length inp; (ret, z) = deflateInit zl (take (uInt in_size) inp)
      in if ret \<noteq> Z_OK then Done (ret, None) else compress_loop fuel zl re in_size z 0 False [] 0)"

subsection \<open>Decompression\<close>

text \<open>
  The loop of \<open>uncompress_inp_buf\<close>: a chunk goes to \<open>temp_out\<close> and from there behind the bytes written so far, in a
  block of \<open>i\<close> times the size of the input. Bytes of the chunk that were never stored count as memory that is not there.
\<close>

fun uncompress_loop ::
  "nat \<Rightarrow> 'z zlib \<Rightarrow> realloc \<Rightarrow> nat \<Rightarrow> 'z \<Rightarrow> nat \<Rightarrow> byte list \<Rightarrow> (int \<times> (byte list \<times> nat) option) outcome" where
  "uncompress_loop 0 zl re in_size z i out = Spins"
| "uncompress_loop (Suc fuel) zl re in_size z i out =
     (let (ret, bs, z1) = inflate zl z (uInt in_size);
          avail_out = uInt in_size - length bs;
          written = in_size - avail_out
      in if ret = Z_STREAM_ERROR then Aborted
         else if ret = Z_NEED_DICT then Done (Z_DATA_ERROR, Some (out, length out))
         else if ret = Z_DATA_ERROR \<or> ret = Z_MEM_ERROR then Done (ret, Some (out, length out))
         else if re (i + 1) = None \<and> written \<noteq> 0 then Bad_access
         else if written > length bs \<or> length out + written > in_size * (i + 1) then Bad_access
         else if avail_out = 0 then uncompress_loop fuel zl re in_size z1 (i + 1) (out @ bs)
         else Done (if ret = Z_STREAM_END then Z_OK else Z_DATA_ERROR, Some (out @ bs, length (out @ bs))))"

definition uncompress_inp_buf :: "nat \<Rightarrow> 'z zlib \<Rightarrow> realloc \<Rightarrow> byte list \<Rightarrow> (int \<times> (byte list \<times> nat) option) outcome" where
  "uncompress_inp_buf fuel zl re inp =
     (let in_size = length inp; (ret, z) = inflateInit zl (take (uInt in_size) inp)
      in if ret \<noteq> Z_OK then Done (ret, None) else uncompress_loop fuel zl re in_size z 0 [])"

text \<open>The text for an error of zlib, \<open>None\<close> for the null pointer.\<close>

definition zerr :: "int \<Rightarrow> string option" where
  "zerr ret =
     (if ret = Z_ERRNO then Some ''error in input/output''
      else if ret = Z_STREAM_ERROR then Some ''invalid compression level''
      else if ret = Z_DATA_ERROR then Some ''invalid or incomplete deflate data''
      else if ret = Z_MEM_ERROR then Some ''out of memory''
      else if ret = Z_VERSION_ERROR then Some ''zlib version mismatch!''
      else None)"

subsection \<open>What zlib promises\<close>

text \<open>
  \<open>packed d\<close> is the compressed form of \<open>d\<close>. Both directions hand out the rest of their result in pieces as large as
  there is room for; when the room was more than enough, the stream has ended and has read all its input; when it was
  not, it asks for more room, or has just ended.
\<close>

definition hands_out :: "('z \<Rightarrow> nat \<Rightarrow> int \<times> byte list \<times> 'z) \<Rightarrow> ('z \<Rightarrow> byte list) \<Rightarrow> bool" where
  "hands_out f rest \<longleftrightarrow>
     (\<forall>z n. case f z n of (ret, bs, z') \<Rightarrow>
        bs = take n (rest z) \<and> rest z' = drop n (rest z) \<and>
        (if length (rest z) < n then ret = Z_STREAM_END else ret \<in> {Z_OK, Z_STREAM_END, Z_BUF_ERROR}))"

definition zlib_laws :: "'z zlib \<Rightarrow> (byte list \<Rightarrow> byte list) \<Rightarrow> ('z \<Rightarrow> byte list) \<Rightarrow> ('z \<Rightarrow> byte list) \<Rightarrow> bool" where
  "zlib_laws zl packed drest irest \<longleftrightarrow>
     (\<forall>d. packed d \<noteq> [] \<and> fst (deflateInit zl d) = Z_OK \<and> drest (snd (deflateInit zl d)) = packed d) \<and>
     (\<forall>d. fst (inflateInit zl (packed d)) = Z_OK \<and> irest (snd (inflateInit zl (packed d))) = d) \<and>
     hands_out (deflate zl) drest \<and> hands_out (inflate zl) irest \<and>
     (\<forall>z n. length (drest z) < n \<longrightarrow> avail_in zl (snd (snd (deflate zl z n))) = 0)"

lemma hands_outE:
  assumes "hands_out f rest"
  obtains ret z' where "f z n = (ret, take n (rest z), z')" "rest z' = drop n (rest z)"
    "length (rest z) < n \<Longrightarrow> ret = Z_STREAM_END" "ret \<in> {Z_OK, Z_STREAM_END, Z_BUF_ERROR}"
proof -
  obtain ret bs z' where e: "f z n = (ret, bs, z')" by (cases "f z n") auto
  note assms [unfolded hands_out_def, THEN spec, of z, THEN spec, of n]
  with e show thesis by (intro that [of ret z']) (auto split: if_splits)
qed

lemma uInt_small [simp]: "n < 2 ^ 32 \<Longrightarrow> uInt n = n"
  by (simp add: uInt_def)

subsection \<open>What the loops do\<close>

text \<open>Some round \<open>j\<close> after \<open>i\<close>, not the first of all, moves the block and has bytes to store.\<close>

definition moves_away :: "realloc \<Rightarrow> nat \<Rightarrow> nat \<Rightarrow> nat \<Rightarrow> bool" where
  "moves_away re n i r \<longleftrightarrow> (\<exists>j>i. 1 < j \<and> re j = Some True \<and> n * (j - 1 - i) < r)"

lemma moves_away_step:
  assumes "0 < n"
  shows "moves_away re n i r \<longleftrightarrow>
    (0 < i \<and> re (i + 1) = Some True \<and> 0 < r) \<or> (n \<le> r \<and> moves_away re n (i + 1) (r - n))"
proof
  assume "moves_away re n i r"
  then obtain j where j: "j > i" "1 < j" "re j = Some True" "n * (j - 1 - i) < r" unfolding moves_away_def by blast
  show "(0 < i \<and> re (i + 1) = Some True \<and> 0 < r) \<or> (n \<le> r \<and> moves_away re n (i + 1) (r - n))"
  proof (cases "j = i + 1")
    case False
    with j(1) obtain k where k: "j - 1 - i = Suc k" "j - 1 - (i + 1) = k" "j > i + 1" by (cases "j - 1 - i") auto
    with j show ?thesis unfolding moves_away_def by (intro disjI2 conjI exI [of _ j]) (simp_all add: less_diff_conv)
  qed (use j in simp)
next
  assume "(0 < i \<and> re (i + 1) = Some True \<and> 0 < r) \<or> (n \<le> r \<and> moves_away re n (i + 1) (r - n))"
  then show "moves_away re n i r"
  proof
    assume "0 < i \<and> re (i + 1) = Some True \<and> 0 < r"
    then show ?thesis unfolding moves_away_def by (intro exI [of _ "i + 1"]) simp
  next
    assume "n \<le> r \<and> moves_away re n (i + 1) (r - n)"
    then obtain j where j: "n \<le> r" "j > i + 1" "re j = Some True" "n * (j - 1 - (i + 1)) < r - n" unfolding moves_away_def by blast
    then have "j - 1 - i = Suc (j - 1 - (i + 1))" by simp
    with j show ?thesis unfolding moves_away_def by (intro exI [of _ j]) (simp add: less_diff_conv add.commute)
  qed
qed

lemma compress_loop_exact:
  assumes laws: "zlib_laws zl packed drest irest" and n: "0 < n" "n < 2 ^ 32" and re: "\<And>i. re i \<noteq> None"
  shows "length (drest z) < fuel \<Longrightarrow>
    compress_loop fuel zl re n z i stale out (length out) =
      (if stale \<and> drest z \<noteq> [] \<or> moves_away re n i (length (drest z)) then Bad_access
       else Done (Z_OK, Some (out @ drest z, length (out @ drest z))))"
proof (induction fuel arbitrary: z i stale out)
  case (Suc fuel)
  let ?r = "drest z"
  from laws have d: "hands_out (deflate zl) drest" by (simp add: zlib_laws_def)
  obtain ret z1 where e: "deflate zl z n = (ret, take n ?r, z1)" "drest z1 = drop n ?r"
    and r: "length ?r < n \<Longrightarrow> ret = Z_STREAM_END" "ret \<in> {Z_OK, Z_STREAM_END, Z_BUF_ERROR}"
    using hands_outE [OF d] by metis
  have fin: "length ?r < n \<Longrightarrow> avail_in zl z1 = 0" using laws e(1) unfolding zlib_laws_def by (metis snd_conv)
  obtain m where m: "re (i + 1) = Some m" using re [of "i + 1"] by auto
  have ns: "ret \<noteq> Z_STREAM_ERROR" using r(2) by auto
  note step = moves_away_step [OF n(1), of re i "length ?r"]
  show ?case
  proof (cases "n \<le> length ?r")
    case False
    then show ?thesis using e m ns r(1) fin n step by auto
  next
    case True
    then have ne: "?r \<noteq> []" "take n ?r \<noteq> []" using n(1) by auto
    have len: "length (drest z1) < fuel" using Suc.prems True n(1) e(2) by simp
    have k: "length (take n ?r) = n" using True by simp
    have one: "compress_loop (Suc fuel) zl re n z i stale out (length out) =
      (if stale \<or> i \<noteq> 0 \<and> m then Bad_access
       else compress_loop fuel zl re n z1 (i + 1) False (out @ take n ?r) (length (out @ take n ?r)))"
      using e(1) m ns ne(2) n k by (simp add: Let_def)
    show ?thesis
    proof (cases "stale \<or> i \<noteq> 0 \<and> m")
      case True
      with m ne step show ?thesis unfolding one by auto
    next
      case False
      then have "moves_away re n i (length ?r) = moves_away re n (i + 1) (length ?r - n)"
        using step m \<open>n \<le> length ?r\<close> by auto
      with False Suc.IH [OF len, of "i + 1" False "out @ take n ?r"] e(2) show ?thesis
        unfolding one if_not_P [OF False] by simp
    qed
  qed
qed simp

lemma uncompress_loop_exact:
  assumes laws: "zlib_laws zl packed drest irest" and n: "0 < n" "n < 2 ^ 32" and re: "\<And>i. re i \<noteq> None"
  shows "length (irest z) < fuel \<Longrightarrow> length out \<le> n * i \<Longrightarrow>
    uncompress_loop fuel zl re n z i out = Done (Z_OK, Some (out @ irest z, length (out @ irest z)))"
proof (induction fuel arbitrary: z i out)
  case (Suc fuel)
  let ?r = "irest z"
  from laws have d: "hands_out (inflate zl) irest" by (simp add: zlib_laws_def)
  obtain ret z1 where e: "inflate zl z n = (ret, take n ?r, z1)" "irest z1 = drop n ?r"
    and r: "length ?r < n \<Longrightarrow> ret = Z_STREAM_END" "ret \<in> {Z_OK, Z_STREAM_END, Z_BUF_ERROR}"
    using hands_outE [OF d] by metis
  have bound: "length out + n \<le> n * (i + 1)" using Suc.prems(2) by simp
  show ?case
  proof (cases "n \<le> length ?r")
    case False
    then show ?thesis using e r n re [of "i + 1"] bound by (simp add: Let_def)
  next
    case True
    then have k: "length (take n ?r) = n" by simp
    have len: "length (irest z1) < fuel" using Suc.prems True n(1) e(2) by simp
    have one: "uncompress_loop (Suc fuel) zl re n z i out = uncompress_loop fuel zl re n z1 (i + 1) (out @ take n ?r)"
      using e(1) r(2) n k re [of "i + 1"] bound by (auto simp: Let_def)
    have "length (out @ take n ?r) \<le> n * (i + 1)" using bound k by simp
    with Suc.IH [OF len, of "out @ take n ?r" "i + 1"] e(2) show ?thesis unfolding one by simp
  qed
qed simp

text \<open>An empty input has no room for a byte: the loop of \<open>compress_inp_buf\<close> never ends.\<close>

lemma compress_empty_hangs:
  assumes "hands_out (deflate zl) rest" "\<And>i. re i \<noteq> None"
  shows "compress_loop fuel zl re 0 z i stale out written = Spins"
proof (induction fuel arbitrary: z i stale out written)
  case (Suc fuel)
  obtain ret z1 where e: "deflate zl z 0 = (ret, [], z1)" "ret \<in> {Z_OK, Z_STREAM_END, Z_BUF_ERROR}"
    using hands_outE [OF assms(1), of z 0] by (metis take0)
  obtain m where "re (i + 1) = Some m" using assms(2) [of "i + 1"] by auto
  with e Suc.IH show ?case by (auto simp: uInt_def Let_def)
qed simp

subsection \<open>Properties\<close>

text \<open>A stored stream as an instance of zlib: a byte in front of the input.\<close>

definition stored :: "byte list zlib" where
  "stored = \<lparr>deflateInit = (\<lambda>d. (Z_OK, 120 # d)),
     deflate = (\<lambda>z n. (if length z < n then Z_STREAM_END else Z_OK, take n z, drop n z)),
     avail_in = (\<lambda>z. 0), inflateInit = (\<lambda>d. (Z_OK, tl d)),
     inflate = (\<lambda>z n. (if length z < n then Z_STREAM_END else Z_OK, take n z, drop n z))\<rparr>"

lemma stored_laws: "zlib_laws stored ((#) 120) id id"
  by (simp add: zlib_laws_def stored_def hands_out_def)

text \<open>
  C28. \<open>compress_inp_buf\<close> gives exactly the compressed form of its input, or touches a block that is not there: it does
  when, with bytes left to store, a \<open>realloc\<close> after the first one moves the block, because \<open>strm.next_out\<close> then still
  points into the old one. (Input that is not empty and has less than 4 GiB; no \<open>realloc\<close> fails.)
\<close>

theorem compress_exact:
  assumes "zlib_laws zl packed drest irest" "\<And>i. re i \<noteq> None" "inp \<noteq> []" "length inp < 2 ^ 32"
    "length (packed inp) < fuel"
  shows "compress_inp_buf fuel zl re inp =
    (if \<exists>j>1. re j = Some True \<and> length inp * (j - 1) < length (packed inp) then Bad_access
     else Done (Z_OK, Some (packed inp, length (packed inp))))"
proof -
  obtain z where z: "deflateInit zl inp = (Z_OK, z)" "drest z = packed inp"
    using assms(1) unfolding zlib_laws_def by (metis prod.collapse)
  have "moves_away re (length inp) 0 (length (packed inp)) = (\<exists>j>1. re j = Some True \<and> length inp * (j - 1) < length (packed inp))"
    unfolding moves_away_def by (auto intro: less_trans)
  then show ?thesis using compress_loop_exact [OF assms(1) _ assms(4), of re, where z = z and fuel = fuel and i = 0 and stale = False and out = "[]"] assms(2-5) z
    by (simp add: compress_inp_buf_def) blast
qed

theorem compress_exact_witness:
  "compress_inp_buf 10 stored (\<lambda>i. Some False) [1, 2, 3] = Done (Z_OK, Some ([120, 1, 2, 3], 4)) \<and>
   compress_inp_buf 10 stored (\<lambda>i. Some (i = 2)) [1, 2, 3] = Bad_access"
proof -
  have "compress_inp_buf 10 stored (\<lambda>i. Some (i = 2)) [1, 2, 3] = Bad_access"
    by (subst compress_exact [OF stored_laws]) (auto intro!: exI [of _ 2])
  moreover have "compress_inp_buf 10 stored (\<lambda>i. Some False) [1, 2, 3] = Done (Z_OK, Some ([120, 1, 2, 3], 4))"
    by (subst compress_exact [OF stored_laws]) simp_all
  ultimately show ?thesis by simp
qed

text \<open>
  C29. Decompressing what \<open>compress_inp_buf\<close> gave returns the input, when no \<open>realloc\<close> fails and none moves a block
  during the compression; the number of rounds of both loops is bounded by the number of bytes they produce.
\<close>

theorem compress_roundtrip:
  assumes "zlib_laws zl packed drest irest" "\<And>i. re i = Some False" "\<And>i. re' i \<noteq> None" "inp \<noteq> []"
    "length inp < 2 ^ 32" "length (packed inp) < 2 ^ 32" "length (packed inp) < fuel" "length inp < fuel"
  shows "\<exists>out. compress_inp_buf fuel zl re inp = Done (Z_OK, Some (out, length out)) \<and>
    uncompress_inp_buf fuel zl re' out = Done (Z_OK, Some (inp, length inp))"
proof -
  obtain zd where d: "deflateInit zl inp = (Z_OK, zd)" "drest zd = packed inp"
    using assms(1) unfolding zlib_laws_def by (metis prod.collapse)
  obtain zi where i: "inflateInit zl (packed inp) = (Z_OK, zi)" "irest zi = inp"
    using assms(1) unfolding zlib_laws_def by (metis prod.collapse)
  have p: "packed inp \<noteq> []" using assms(1) unfolding zlib_laws_def by blast
  have "\<not> moves_away re (length inp) 0 (length (packed inp))" by (simp add: moves_away_def assms(2))
  then have "compress_inp_buf fuel zl re inp = Done (Z_OK, Some (packed inp, length (packed inp)))"
    using compress_loop_exact [OF assms(1) _ assms(5), of re, where z = zd and fuel = fuel and i = 0 and stale = False and out = "[]"] assms d by (simp add: compress_inp_buf_def)
  moreover have "uncompress_inp_buf fuel zl re' (packed inp) = Done (Z_OK, Some (inp, length inp))"
    using uncompress_loop_exact [OF assms(1) _ assms(6,3), where z = zi and fuel = fuel and i = 0 and out = "[]"] assms(6,8) i p by (simp add: uncompress_inp_buf_def)
  ultimately show ?thesis by blast
qed

theorem compress_roundtrip_witness:
  "\<exists>out. compress_inp_buf 10 stored (\<lambda>i. Some False) [1, 2, 3] = Done (Z_OK, Some (out, length out)) \<and>
    uncompress_inp_buf 10 stored (\<lambda>i. Some True) out = Done (Z_OK, Some ([1, 2, 3], 3))"
  using compress_roundtrip [OF stored_laws, of "\<lambda>i. Some False" "\<lambda>i. Some True" "[1, 2, 3]" 10] by (simp add: numeral_3_eq_3)

end
