(* ===== verification/BinaryData.thy ===== *)
theory BinaryData
  imports Prelude
begin

text \<open>
  \<open>src/core_utils/core.c\<close>: blocks of memory with a header in front of the data (a magic number and the size) and eight
  bytes of 0xA5 behind it, which \<open>free_binary_data\<close> checks. A block is its header and the bytes behind the header; \<open>malloc\<close> is a
  predicate that says which requests are granted. Reading memory that has been freed, and reaching outside a
  block, is \<open>Bad_access\<close>. A \<open>size_t\<close> is a natural number modulo \<open>2 ^ 64\<close>.
\<close>

subsection \<open>Operations\<close>

abbreviation BD_MAGIC :: "32 word" where "BD_MAGIC \<equiv> 0xB10BDADA"
abbreviation BD_FREED :: "32 word" where "BD_FREED \<equiv> 0xDEADFA11"

definition BD_TAIL :: "byte list" where
  "BD_TAIL = replicate 8 0xA5"

record bd_block =
  bd_magic :: "32 word"
  bd_pad :: "32 word"
  bd_size :: nat
  bd_data :: "byte list"

record bd_heap =
  bd_at :: "nat \<Rightarrow> bd_block option"
  bd_brk :: nat

definition size_t :: "nat \<Rightarrow> nat" where
  "size_t n = n mod 2 ^ 64"

abbreviation sizeof_BDHdr :: nat where "sizeof_BDHdr \<equiv> 16"

text \<open>The pointer to the data stands for the block; \<open>None\<close> is the null pointer. \<open>junk\<close> is what fresh memory holds.\<close>

definition alloc_binary_data_memory ::
  "(nat \<Rightarrow> bool) \<Rightarrow> (nat \<Rightarrow> byte) \<Rightarrow> nat \<Rightarrow> bd_heap \<Rightarrow> (nat option \<times> bd_heap) outcome" where
  "alloc_binary_data_memory malloc junk sz h =
     (let total = size_t (sizeof_BDHdr + sz + 1 + 8)
      in if \<not> malloc total then Done (None, h)
         else if total < sizeof_BDHdr then Bad_access
         else
           let mem = map junk [0..<total - sizeof_BDHdr]; cleared = size_t (sz + 1)
           in if cleared > length mem then Bad_access
              else
                let mem1 = splice_at 0 mem 0 (replicate cleared 0)
                in if size_t (sz + 1) + 8 > length mem1 then Bad_access
                   else Done (Some (bd_brk h),
                          h\<lparr>bd_at := (bd_at h)(bd_brk h \<mapsto>
                              \<lparr>bd_magic = BD_MAGIC, bd_pad = 0, bd_size = sz,
                               bd_data = splice_at 0 mem1 (size_t (sz + 1)) BD_TAIL\<rparr>),
                            bd_brk := bd_brk h + 1\<rparr>))"

definition binary_data_len :: "nat option \<Rightarrow> bd_heap \<Rightarrow> nat outcome" where
  "binary_data_len data h =
     (case data of
        None \<Rightarrow> Done 0
      | Some a \<Rightarrow> obind (of_ptr (bd_at h a)) (\<lambda>b. if bd_magic b \<noteq> BD_MAGIC then Aborted else Done (bd_size b)))"

definition free_binary_data :: "nat option \<Rightarrow> bd_heap \<Rightarrow> bd_heap outcome" where
  "free_binary_data data h =
     (case data of
        None \<Rightarrow> Done h
      | Some a \<Rightarrow>
          obind (of_ptr (bd_at h a)) (\<lambda>b.
            if bd_magic b = BD_FREED then Aborted
            else if bd_magic b \<noteq> BD_MAGIC then Aborted
            else if size_t (bd_size b + 1) + 8 > length (bd_data b) then Bad_access
            else if take 8 (drop (size_t (bd_size b + 1)) (bd_data b)) \<noteq> BD_TAIL then Aborted
            else if size_t (bd_size b + 1) > length (bd_data b) then Bad_access
            else Done (h\<lparr>bd_at := (bd_at h)(a := None)\<rparr>)))"

text \<open>What a program does with the data: it stores bytes, some perhaps behind the end.\<close>

definition store :: "nat \<Rightarrow> nat \<times> byte \<Rightarrow> bd_heap \<Rightarrow> bd_heap outcome" where
  "store a w h =
     (case w of (i, x) \<Rightarrow>
        obind (of_ptr (bd_at h a)) (\<lambda>b.
          if i < length (bd_data b) then Done (h\<lparr>bd_at := (bd_at h)(a \<mapsto> b\<lparr>bd_data := (bd_data b)[i := x]\<rparr>)\<rparr>)
          else Bad_access))"

fun stores :: "nat \<Rightarrow> (nat \<times> byte) list \<Rightarrow> bd_heap \<Rightarrow> bd_heap outcome" where
  "stores a [] h = Done h"
| "stores a (w # ws) h = obind (store a w h) (stores a ws)"

subsection \<open>Lemmas\<close>

text \<open>The bytes of a block after the stores of a list.\<close>

definition written :: "(nat \<times> byte) list \<Rightarrow> byte list \<Rightarrow> byte list" where
  "written ws bs = fold (\<lambda>(i, x) b. b[i := x]) ws bs"

lemma length_written [simp]: "length (written ws bs) = length bs"
  unfolding written_def by (induction ws arbitrary: bs) auto

lemma written_Cons: "written ((i, x) # ws) bs = written ws (bs[i := x])"
  by (simp add: written_def)

lemma stores_written:
  "bd_at h a = Some b \<Longrightarrow> (\<forall>w\<in>set ws. fst w < length (bd_data b)) \<Longrightarrow>
   stores a ws h = Done (h\<lparr>bd_at := (bd_at h)(a \<mapsto> b\<lparr>bd_data := written ws (bd_data b)\<rparr>)\<rparr>)"
proof (induction ws arbitrary: h b)
  case Nil
  then have "(bd_at h)(a \<mapsto> b) = bd_at h" by auto
  then show ?case by (simp add: written_def)
next
  case (Cons w ws)
  obtain i x where w: "w = (i, x)" by force
  let ?b = "b\<lparr>bd_data := (bd_data b)[i := x]\<rparr>"
  let ?h = "h\<lparr>bd_at := (bd_at h)(a \<mapsto> ?b)\<rparr>"
  have "stores a ws ?h = Done (?h\<lparr>bd_at := (bd_at ?h)(a \<mapsto> ?b\<lparr>bd_data := written ws (bd_data ?b)\<rparr>)\<rparr>)"
    by (rule Cons.IH) (use Cons.prems in auto)
  with Cons.prems w show ?case by (simp add: store_def written_Cons) (simp add: fun_upd_def)
qed

text \<open>What is stored last at a place below the end is what the guard at its place becomes.\<close>

lemma written_inside: "(\<forall>w\<in>set ws. fst w < n) \<Longrightarrow> drop n (written ws bs) = drop n bs"
  unfolding written_def by (induction ws arbitrary: bs) auto

lemma alloc_ok:
  assumes "malloc (sz + 25)" "sz + 25 < 2 ^ 64"
  shows "alloc_binary_data_memory malloc junk sz h =
    Done (Some (bd_brk h), h\<lparr>bd_at := (bd_at h)(bd_brk h \<mapsto>
      \<lparr>bd_magic = BD_MAGIC, bd_pad = 0, bd_size = sz, bd_data = replicate (sz + 1) 0 @ BD_TAIL\<rparr>), bd_brk := bd_brk h + 1\<rparr>)"
  using assms by (simp add: alloc_binary_data_memory_def size_t_def splice_at_def BD_TAIL_def add.commute del: replicate_Suc)

subsection \<open>Properties\<close>

text \<open>
  C31. The guard of \<open>core.c\<close>. A block for \<open>sz\<close> bytes takes stores at every place up to the terminator and behind it in the
  guard; \<open>binary_data_len\<close> returns its size; \<open>free_binary_data\<close> frees it and no other block when the guard is as it
  was, which it is when no store was behind the terminator, and aborts when a byte of the guard has changed; and a second
  \<open>free_binary_data\<close> reads memory that has been freed, before its test for that can abort.
\<close>

theorem binary_data_guard:
  assumes "malloc (sz + 25)" "sz + 25 < 2 ^ 64" "\<forall>w\<in>set ws. fst w < sz + 9"
    and "alloc_binary_data_memory malloc junk sz h = Done (p, h1)"
  defines "mem \<equiv> written ws (replicate (sz + 1) 0 @ BD_TAIL)"
  shows "\<exists>a h2. p = Some a \<and> stores a ws h1 = Done h2 \<and> binary_data_len p h2 = Done sz \<and>
    (if drop (sz + 1) mem = BD_TAIL
     then \<exists>h3. free_binary_data p h2 = Done h3 \<and> bd_at h3 = (bd_at h)(a := None) \<and> free_binary_data p h3 = Bad_access
     else free_binary_data p h2 = Aborted) \<and>
    ((\<forall>w\<in>set ws. fst w \<le> sz) \<longrightarrow> drop (sz + 1) mem = BD_TAIL)"
proof -
  let ?b = "\<lparr>bd_magic = BD_MAGIC, bd_pad = 0, bd_size = sz, bd_data = replicate (sz + 1) 0 @ BD_TAIL\<rparr>"
  from assms(4) alloc_ok [of malloc sz, OF assms(1,2), of junk h] have p: "p = Some (bd_brk h)"
    and h1: "bd_at h1 = (bd_at h)(bd_brk h \<mapsto> ?b)" by auto
  let ?h2 = "h1\<lparr>bd_at := (bd_at h1)(bd_brk h \<mapsto> ?b\<lparr>bd_data := mem\<rparr>)\<rparr>"
  have len: "length mem = sz + 9" by (simp add: mem_def BD_TAIL_def)
  have st: "stores (bd_brk h) ws h1 = Done ?h2"
    using stores_written [of h1 "bd_brk h" ?b ws] assms(3) h1 by (simp add: mem_def BD_TAIL_def add.commute)
  have st_sz: "size_t (sz + 1) = sz + 1" using assms(2) by (simp add: size_t_def)
  have tk: "take 8 (drop (sz + 1) mem) = drop (sz + 1) mem" using len by simp
  have bad: "BD_MAGIC \<noteq> BD_FREED" by simp
  have free: "free_binary_data p ?h2 =
      (if drop (sz + 1) mem = BD_TAIL then Done (?h2\<lparr>bd_at := (bd_at ?h2)(bd_brk h := None)\<rparr>) else Aborted)"
    unfolding free_binary_data_def p using len bad by (simp add: st_sz [unfolded Suc_eq_plus1 [symmetric]] tk [unfolded Suc_eq_plus1 [symmetric]])
  have "(\<forall>w\<in>set ws. fst w \<le> sz) \<longrightarrow> drop (sz + 1) mem = BD_TAIL"
    using written_inside [of ws "sz + 1" "replicate (sz + 1) 0 @ BD_TAIL"] by (auto simp: mem_def less_Suc_eq_le)
  with st free p h1 show ?thesis
    by (intro exI [of _ "bd_brk h"] exI [of _ ?h2]) (auto simp: binary_data_len_def free_binary_data_def)
qed

theorem binary_data_guard_witness:
  "\<exists>p h1 a h2. alloc_binary_data_memory (\<lambda>_. True) (\<lambda>_. 7) 3 \<lparr>bd_at = Map.empty, bd_brk = 0\<rparr> = Done (p, h1) \<and>
     p = Some a \<and> stores a [(0, 1), (4, 2)] h1 = Done h2 \<and> free_binary_data p h2 = Aborted"
proof -
  let ?h = "\<lparr>bd_at = Map.empty, bd_brk = 0\<rparr>"
  obtain p h1 where a: "alloc_binary_data_memory (\<lambda>_. True) (\<lambda>_. 7) 3 ?h = Done (p, h1)"
    using alloc_ok [of "\<lambda>_. True" 3] by auto
  have ne: "drop 4 (written [(0, 1), (4, 2)] (replicate 4 0 @ BD_TAIL)) \<noteq> BD_TAIL"
    by code_simp
  from binary_data_guard [OF _ _ _ a, of "[(0, 1), (4, 2)]"] ne a show ?thesis by auto
qed

end
