(* ===== verification/Trigrams.thy ===== *)
theory Trigrams
  imports Prelude Complex_Main
begin

text \<open>
  \<open>src/core_utils/trigraph.c\<close>. A C string is the list of its bytes before
  the terminator, a trigram the list of its three bytes, the array of the caller a list of trigrams with their counts
  whose length is \<open>*count\<close>; storing behind the array of \<open>MAX_TRIGRAMS\<close> is \<open>Bad_access\<close>. The products of
  two counts are C \<open>int\<close>s that wrap around; their sums are \<open>double\<close>s, but at most 1000 terms below \<open>2 ^ 31\<close> and so
  whole numbers that a \<open>double\<close> holds exactly. The operations on other \<open>double\<close>s are a parameter, \<open>double_ops\<close>; the theorems are
  about exact real numbers in their place.
\<close>

subsection \<open>The code\<close>

abbreviation MAX_TRIGRAMS :: nat where "MAX_TRIGRAMS \<equiv> 1000"

type_synonym trigram = "byte list"

text \<open>The search through the array: it counts the trigram where it is, or gives \<open>None\<close> when \<open>j\<close> reaches \<open>*count\<close>.\<close>

fun count_trigram :: "trigram \<Rightarrow> (trigram \<times> int) list \<Rightarrow> (trigram \<times> int) list option" where
  "count_trigram tg [] = None"
| "count_trigram tg ((t, c) # ts) =
     (if t = tg then Some ((t, c + 1) # ts) else map_option ((#) (t, c)) (count_trigram tg ts))"

fun extract_loop :: "nat list \<Rightarrow> byte list \<Rightarrow> (trigram \<times> int) list \<Rightarrow> (trigram \<times> int) list outcome" where
  "extract_loop [] str ts = Done ts"
| "extract_loop (i # is) str ts =
     (let tg = take 3 (drop i str)
      in case count_trigram tg ts of
           Some ts' \<Rightarrow> extract_loop is str ts'
         | None \<Rightarrow> if length ts \<ge> MAX_TRIGRAMS then Bad_access else extract_loop is str (ts @ [(tg, 1)]))"

definition extract_trigrams :: "byte list \<Rightarrow> (trigram \<times> int) list outcome" where
  "extract_trigrams str = (if length str < 3 then Done [] else extract_loop [0..<length str - 2] str [])"

text \<open>The inner loop of \<open>dot_product\<close> leaves at the first trigram that is the same.\<close>

definition int_mult :: "int \<Rightarrow> int \<Rightarrow> int" where
  "int_mult a b = sint (word_of_int a * word_of_int b :: 32 word)"

fun dot_inner :: "trigram \<times> int \<Rightarrow> (trigram \<times> int) list \<Rightarrow> int \<Rightarrow> int" where
  "dot_inner a [] dot = dot"
| "dot_inner a (b # bs) dot = (if fst a = fst b then dot + int_mult (snd a) (snd b) else dot_inner a bs dot)"

fun dot_product :: "(trigram \<times> int) list \<Rightarrow> (trigram \<times> int) list \<Rightarrow> int \<Rightarrow> int" where
  "dot_product [] bs dot = dot"
| "dot_product (a # as) bs dot = dot_product as bs (dot_inner a bs dot)"

fun mag_loop :: "(trigram \<times> int) list \<Rightarrow> int \<Rightarrow> int" where
  "mag_loop [] mag = mag"
| "mag_loop (t # ts) mag = mag_loop ts (mag + int_mult (snd t) (snd t))"

record 'd double_ops =
  d_of_int :: "int \<Rightarrow> 'd"
  d_sqrt :: "'d \<Rightarrow> 'd"
  d_mult :: "'d \<Rightarrow> 'd \<Rightarrow> 'd"
  d_div :: "'d \<Rightarrow> 'd \<Rightarrow> 'd"

definition magnitude :: "'d double_ops \<Rightarrow> (trigram \<times> int) list \<Rightarrow> 'd" where
  "magnitude ops ts = d_sqrt ops (d_of_int ops (mag_loop ts 0))"

text \<open>\<open>tolower\<close> of the C library, in the locale of a program that sets none.\<close>

definition c_tolower :: "byte \<Rightarrow> byte" where
  "c_tolower b = (if 0x41 \<le> b \<and> b \<le> 0x5A then b + 0x20 else b)"

definition str_cosine_similarity :: "'d double_ops \<Rightarrow> byte list \<Rightarrow> byte list \<Rightarrow> 'd outcome" where
  "str_cosine_similarity ops str1 str2 =
     (let w_str1 = map c_tolower str1; w_str2 = map c_tolower str2
      in obind (extract_trigrams w_str1) (\<lambda>trigrams1. obind (extract_trigrams w_str2) (\<lambda>trigrams2.
         let dot = d_of_int ops (dot_product trigrams1 trigrams2 0);
             mag1 = magnitude ops trigrams1;
             mag2 = magnitude ops trigrams2
         in if mag1 = d_of_int ops 0 \<or> mag2 = d_of_int ops 0 then Done (d_of_int ops (if w_str1 = w_str2 then 1 else 0))
            else Done (d_div ops dot (d_mult ops mag1 mag2)))))"

subsection \<open>The reference\<close>

text \<open>All trigrams of a string, with repetitions, and the distinct elements of a list in the order they first occur.\<close>

definition trigrams :: "byte list \<Rightarrow> trigram list" where
  "trigrams str = map (\<lambda>i. take 3 (drop i str)) [0..<length str - 2]"

definition firsts :: "'a list \<Rightarrow> 'a list" where
  "firsts xs = rev (remdups (rev xs))"

definition tally :: "'a list \<Rightarrow> ('a \<times> int) list" where
  "tally xs = map (\<lambda>x. (x, int (count_list xs x))) (firsts xs)"

lemma firsts_simps [simp]:
  "firsts [] = []" "set (firsts xs) = set xs" "distinct (firsts xs)"
  "firsts (xs @ [x]) = (if x \<in> set xs then firsts xs else firsts xs @ [x])"
  by (simp_all add: firsts_def)

lemma length_firsts: "length (firsts xs) = card (set xs)"
  using distinct_card [of "firsts xs"] by simp

lemma tally_Nil [simp]: "tally [] = []"
  by (simp add: tally_def)

lemma count_trigram_map:
  "distinct xs \<Longrightarrow> count_trigram tg (map (\<lambda>x. (x, f x)) xs) =
     (if tg \<in> set xs then Some (map (\<lambda>x. (x, if x = tg then f x + 1 else f x)) xs) else None)"
  by (induction xs) (auto intro!: map_cong)

lemma count_trigram_tally:
  "count_trigram tg (tally xs) = (if tg \<in> set xs then Some (tally (xs @ [tg])) else None)"
proof (cases "tg \<in> set xs")
  case True
  have "int (count_list (xs @ [tg]) x) = (if x = tg then int (count_list xs x) + 1 else int (count_list xs x))" for x
    by simp
  with True show ?thesis unfolding tally_def by (subst count_trigram_map) (auto intro!: map_cong)
qed (simp add: tally_def count_trigram_map)

lemma tally_new: "tg \<notin> set xs \<Longrightarrow> tally (xs @ [tg]) = tally xs @ [(tg, 1)]"
  by (auto simp: tally_def intro!: map_cong)

lemma extract_loop_tally:
  assumes "card (set xs) \<le> MAX_TRIGRAMS"
  shows "extract_loop is str (tally xs) =
    (let ys = xs @ map (\<lambda>i. take 3 (drop i str)) is
     in if card (set ys) \<le> MAX_TRIGRAMS then Done (tally ys) else Bad_access)"
  using assms
proof (induction "is" arbitrary: xs)
  case (Cons i "is")
  let ?tg = "take 3 (drop i str)"
  have len: "length (tally xs) = card (set xs)" by (simp add: tally_def length_firsts)
  show ?case
  proof (cases "?tg \<in> set xs")
    case True
    then have "card (set (xs @ [?tg])) \<le> MAX_TRIGRAMS" using Cons.prems by (simp add: insert_absorb)
    from Cons.IH [OF this] True show ?thesis by (simp add: count_trigram_tally)
  next
    case new: False
    show ?thesis
    proof (cases "card (set xs) < MAX_TRIGRAMS")
      case True
      then have "card (set (xs @ [?tg])) \<le> MAX_TRIGRAMS" using new by simp
      from Cons.IH [OF this] True new len show ?thesis by (simp add: count_trigram_tally tally_new)
    next
      case False
      have "card (insert ?tg (set xs)) \<le> card (set (xs @ ?tg # map (\<lambda>i. take 3 (drop i str)) is))"
        by (rule card_mono) auto
      then have "\<not> card (set (xs @ ?tg # map (\<lambda>i. take 3 (drop i str)) is)) \<le> MAX_TRIGRAMS" using False new by simp
      then show ?thesis using False new len by (simp add: count_trigram_tally Let_def)
    qed
  qed
qed (use assms in simp)

lemma extract_trigrams_tally:
  "extract_trigrams str = (if card (set (trigrams str)) \<le> MAX_TRIGRAMS then Done (tally (trigrams str)) else Bad_access)"
  using extract_loop_tally [of "[]" "[0..<length str - 2]" str]
  by (auto simp: extract_trigrams_def trigrams_def)

text \<open>Counts up to 46340 have a product that is an \<open>int\<close>.\<close>

lemma int_mult_small:
  assumes "0 \<le> a" "a \<le> 46340" "0 \<le> b" "b \<le> 46340"
  shows "int_mult a b = a * b"
proof -
  have "a * b \<le> 46340 * 46340" by (rule mult_mono) (use assms in auto)
  moreover have "0 \<le> a * b" using assms by simp
  moreover have "int_mult a b = signed_take_bit 31 (a * b)" by (simp add: int_mult_def signed_of_int flip: of_int_mult)
  ultimately show ?thesis by (simp add: signed_take_bit_int_eq_self)
qed

lemma count_small: "length xs \<le> 46340 \<Longrightarrow> int (count_list xs x) \<le> 46340"
  using count_le_length [of xs x] by linarith

text \<open>The product of two tallies is the sum over the common trigrams.\<close>

lemma dot_inner_map:
  "distinct ys \<Longrightarrow> dot_inner (x, c) (map (\<lambda>y. (y, g y)) ys) dot = dot + (if x \<in> set ys then int_mult c (g x) else 0)"
  by (induction ys) auto

lemma dot_product_map:
  "distinct ys \<Longrightarrow> dot_product (map (\<lambda>x. (x, f x)) xs) (map (\<lambda>y. (y, g y)) ys) dot =
     dot + sum_list (map (\<lambda>x. if x \<in> set ys then int_mult (f x) (g x) else 0) xs)"
  by (induction xs arbitrary: dot) (simp_all add: dot_inner_map)

lemma dot_product_tally:
  assumes "length xs \<le> 46340" "length ys \<le> 46340"
  shows "dot_product (tally xs) (tally ys) 0 = (\<Sum>t\<in>set xs \<inter> set ys. int (count_list xs t) * int (count_list ys t))"
proof -
  have "int_mult (int (count_list xs t)) (int (count_list ys t)) = int (count_list xs t) * int (count_list ys t)" for t
    by (rule int_mult_small) (use count_small assms in auto)
  then have "dot_product (tally xs) (tally ys) 0 =
      (\<Sum>t\<leftarrow>firsts xs. if t \<in> set ys then int (count_list xs t) * int (count_list ys t) else 0)"
    by (simp add: tally_def dot_product_map cong: if_cong)
  also have "\<dots> = (\<Sum>t\<in>set xs. if t \<in> set ys then int (count_list xs t) * int (count_list ys t) else 0)"
    by (simp add: sum_list_distinct_conv_sum_set)
  also have "\<dots> = (\<Sum>t\<in>set xs \<inter> set ys. int (count_list xs t) * int (count_list ys t))"
    by (simp add: sum.inter_restrict)
  finally show ?thesis .
qed

lemma mag_loop_map: "mag_loop (map (\<lambda>x. (x, f x)) xs) mag = mag + sum_list (map (\<lambda>x. int_mult (f x) (f x)) xs)"
  by (induction xs arbitrary: mag) simp_all

lemma mag_loop_tally:
  assumes "length xs \<le> 46340"
  shows "mag_loop (tally xs) 0 = (\<Sum>t\<in>set xs. (int (count_list xs t))\<^sup>2)"
  using count_small [OF assms]
  by (simp add: tally_def mag_loop_map int_mult_small power2_eq_square sum_list_distinct_conv_sum_set)

subsection \<open>The cosine\<close>

definition occurrences :: "byte list \<Rightarrow> trigram \<Rightarrow> real" where
  "occurrences str t = real (count_list (trigrams str) t)"

definition cosine :: "byte list \<Rightarrow> byte list \<Rightarrow> real" where
  "cosine u v =
     (if trigrams u = [] \<or> trigrams v = [] then if u = v then 1 else 0
      else (\<Sum>t\<in>set (trigrams u) \<inter> set (trigrams v). occurrences u t * occurrences v t) /
        (sqrt (\<Sum>t\<in>set (trigrams u). (occurrences u t)\<^sup>2) * sqrt (\<Sum>t\<in>set (trigrams v). (occurrences v t)\<^sup>2)))"

lemma sum_mult_le:
  fixes f g :: "'a \<Rightarrow> real"
  shows "(\<Sum>x\<in>A. f x * g x)\<^sup>2 \<le> (\<Sum>x\<in>A. (f x)\<^sup>2) * (\<Sum>x\<in>A. (g x)\<^sup>2)"
proof -
  have sq: "(f x * g y - f y * g x)\<^sup>2 = (f x)\<^sup>2 * (g y)\<^sup>2 + (f y)\<^sup>2 * (g x)\<^sup>2 - 2 * ((f x * g x) * (f y * g y))" for x y
    by (simp add: power2_eq_square algebra_simps)
  have "0 \<le> (\<Sum>x\<in>A. \<Sum>y\<in>A. (f x * g y - f y * g x)\<^sup>2)" by (intro sum_nonneg) simp
  also have "\<dots> = (\<Sum>x\<in>A. \<Sum>y\<in>A. (f x)\<^sup>2 * (g y)\<^sup>2) + (\<Sum>x\<in>A. \<Sum>y\<in>A. (f y)\<^sup>2 * (g x)\<^sup>2) -
      2 * (\<Sum>x\<in>A. \<Sum>y\<in>A. (f x * g x) * (f y * g y))"
    by (simp only: sq sum.distrib sum_subtractf sum_distrib_left)
  also have "(\<Sum>x\<in>A. \<Sum>y\<in>A. (f y)\<^sup>2 * (g x)\<^sup>2) = (\<Sum>x\<in>A. \<Sum>y\<in>A. (f x)\<^sup>2 * (g y)\<^sup>2)" by (rule sum.swap)
  also have "(\<Sum>x\<in>A. \<Sum>y\<in>A. (f x)\<^sup>2 * (g y)\<^sup>2) = (\<Sum>x\<in>A. (f x)\<^sup>2) * (\<Sum>x\<in>A. (g x)\<^sup>2)" by (rule sum_product [symmetric])
  also have "(\<Sum>x\<in>A. \<Sum>y\<in>A. (f x * g x) * (f y * g y)) = (\<Sum>x\<in>A. f x * g x)\<^sup>2" by (simp add: power2_eq_square sum_product)
  finally show ?thesis by simp
qed

lemma sum_squares_mono: "finite A \<Longrightarrow> S \<subseteq> A \<Longrightarrow> (\<Sum>x\<in>S. (f x :: real)\<^sup>2) \<le> (\<Sum>x\<in>A. (f x)\<^sup>2)"
  by (rule sum_mono2) simp_all

lemma occurrences_pos: "t \<in> set (trigrams u) \<Longrightarrow> 0 < occurrences u t"
  by (simp add: occurrences_def count_list_0_iff zero_less_iff_neq_zero)

lemma magnitude_pos: "trigrams u \<noteq> [] \<Longrightarrow> 0 < (\<Sum>t\<in>set (trigrams u). (occurrences u t)\<^sup>2)"
  by (intro sum_pos) (auto dest: occurrences_pos)

lemma cosine_bounds: "0 \<le> cosine u v" "cosine u v \<le> 1"
proof -
  let ?U = "set (trigrams u)" and ?V = "set (trigrams v)"
  let ?dot = "\<Sum>t\<in>?U \<inter> ?V. occurrences u t * occurrences v t"
    and ?a = "\<Sum>t\<in>?U. (occurrences u t)\<^sup>2" and ?b = "\<Sum>t\<in>?V. (occurrences v t)\<^sup>2"
  have d: "0 \<le> ?dot" by (intro sum_nonneg) (simp add: occurrences_def)
  then show "0 \<le> cosine u v" by (simp add: cosine_def sum_nonneg)
  have "?dot\<^sup>2 \<le> (\<Sum>t\<in>?U \<inter> ?V. (occurrences u t)\<^sup>2) * (\<Sum>t\<in>?U \<inter> ?V. (occurrences v t)\<^sup>2)" by (rule sum_mult_le)
  also have "\<dots> \<le> ?a * ?b" by (intro mult_mono sum_squares_mono sum_nonneg) auto
  finally have "?dot \<le> sqrt (?a * ?b)" using d by (simp add: real_le_rsqrt)
  then show "cosine u v \<le> 1"
    using magnitude_pos [of u] magnitude_pos [of v] by (simp add: cosine_def real_sqrt_mult divide_le_eq_1)
qed

lemma cosine_sym: "cosine u v = cosine v u"
  by (simp add: cosine_def Int_commute mult.commute)

lemma cosine_same: "cosine u u = 1"
  using magnitude_pos [of u] by (auto simp: cosine_def power2_eq_square)

definition real_ops :: "real double_ops" where
  "real_ops = \<lparr>d_of_int = of_int, d_sqrt = sqrt, d_mult = (*), d_div = (/)\<rparr>"

lemma magnitude_tally:
  "length (trigrams u) \<le> 46340 \<Longrightarrow> magnitude real_ops (tally (trigrams u)) = sqrt (\<Sum>t\<in>set (trigrams u). (occurrences u t)\<^sup>2)"
  by (simp add: magnitude_def real_ops_def mag_loop_tally occurrences_def)

subsection \<open>Properties\<close>

text \<open>
  C32. On strings of at most 46342 characters \<open>str_cosine_similarity\<close>, computed without rounding, is the cosine of the
  angle between the vectors of the numbers of occurrences of all trigrams of the strings in lower case (and compares
  the strings when one has no trigram): a number between 0 and 1 that does not depend on the order of the strings
  and is 1 for strings that differ in case only. With more than \<open>MAX_TRIGRAMS\<close> distinct trigrams it stores behind an array.
\<close>

theorem cosine_similarity_exact:
  assumes "length str1 \<le> 46342" "length str2 \<le> 46342"
  defines "u \<equiv> map c_tolower str1" and "v \<equiv> map c_tolower str2"
  shows "if card (set (trigrams u)) \<le> MAX_TRIGRAMS \<and> card (set (trigrams v)) \<le> MAX_TRIGRAMS
    then \<exists>c. str_cosine_similarity real_ops str1 str2 = Done c \<and> str_cosine_similarity real_ops str2 str1 = Done c \<and>
      c = cosine u v \<and> 0 \<le> c \<and> c \<le> 1 \<and> (u = v \<longrightarrow> c = 1)
    else str_cosine_similarity real_ops str1 str2 = Bad_access"
proof -
  have run: "str_cosine_similarity real_ops s t =
    (if card (set (trigrams (map c_tolower s))) \<le> MAX_TRIGRAMS \<and> card (set (trigrams (map c_tolower t))) \<le> MAX_TRIGRAMS
     then Done (cosine (map c_tolower s) (map c_tolower t)) else Bad_access)" if l: "length s \<le> 46342" "length t \<le> 46342" for s t
  proof -
    let ?u = "map c_tolower s" and ?v = "map c_tolower t"
    have len: "length (trigrams ?u) \<le> 46340" "length (trigrams ?v) \<le> 46340" using l by (simp_all add: trigrams_def)
    have dot: "real_of_int (dot_product (tally (trigrams ?u)) (tally (trigrams ?v)) 0) =
        (\<Sum>t\<in>set (trigrams ?u) \<inter> set (trigrams ?v). occurrences ?u t * occurrences ?v t)"
      by (simp add: dot_product_tally [OF len] occurrences_def)
    have z: "magnitude real_ops (tally (trigrams w)) = 0 \<longleftrightarrow> trigrams w = []" if "length (trigrams w) \<le> 46340" for w
    proof (cases "trigrams w = []")
      case True
      then show ?thesis by (simp add: magnitude_def real_ops_def)
    next
      case False
      with magnitude_pos [of w] show ?thesis by (simp add: magnitude_tally [OF that])
    qed
    have r: "d_of_int real_ops = of_int" "d_mult real_ops = (*)" "d_div real_ops = (/)" by (simp_all add: real_ops_def)
    show ?thesis
      unfolding str_cosine_similarity_def Let_def extract_trigrams_tally r of_int_0 z [OF len(1)]
      using magnitude_pos [of ?u] magnitude_pos [of ?v]
      by (auto simp: z [OF len(1)] z [OF len(2)] cosine_def dot magnitude_tally len)
  qed
  from run [OF assms(1,2)] run [OF assms(2,1)] cosine_bounds [of u v] cosine_sym [of u v] cosine_same [of u] show ?thesis
    unfolding u_def v_def by auto
qed

theorem cosine_similarity_exact_witness:
  "\<exists>c. str_cosine_similarity real_ops [0x41, 0x62, 0x63, 0x64] [0x61, 0x62, 0x63] = Done c \<and> 0 \<le> c \<and> c \<le> 1"
proof -
  have n: "card (set (trigrams (map c_tolower xs))) \<le> MAX_TRIGRAMS" if "length xs \<le> 4" for xs
  proof -
    have "card (set (trigrams (map c_tolower xs))) \<le> length (trigrams (map c_tolower xs))" by (rule card_length)
    then show ?thesis using that by (simp add: trigrams_def)
  qed
  show ?thesis using cosine_similarity_exact [of "[0x41, 0x62, 0x63, 0x64]" "[0x61, 0x62, 0x63]"]
    n [of "[0x41, 0x62, 0x63, 0x64]"] n [of "[0x61, 0x62, 0x63]"] by (auto simp del: list.map)
qed

end
