(* ===== verification/Kernel.thy ===== *)
theory Kernel
  imports Prelude
begin

text \<open>
  The system calls that \<open>src/evio/ef_file.c\<close> uses (\<open>open\<close>, \<open>close\<close>, \<open>fstat\<close>, \<open>lseek\<close>, \<open>pread\<close>,
  \<open>pwrite\<close>, \<open>ftruncate\<close>, \<open>fcntl\<close>), with the behaviour Linux documents: an \<open>O_APPEND\<close> descriptor
  appends on every \<open>pwrite\<close> whatever the offset, and an \<open>O_DIRECT\<close> descriptor refuses with \<open>EINVAL\<close>
  buffers, positions and lengths that are not multiples of the block size. A call either transfers all
  the bytes it can or fails; which files deny access and which devices fail is part of the state.
\<close>

subsection \<open>Flags and error numbers\<close>

type_synonym flags = "32 word"

abbreviation O_RDONLY :: flags where "O_RDONLY \<equiv> 0"
abbreviation O_WRONLY :: flags where "O_WRONLY \<equiv> 1"
abbreviation O_RDWR :: flags where "O_RDWR \<equiv> 2"
abbreviation O_CREAT :: flags where "O_CREAT \<equiv> 0x40"
abbreviation O_TRUNC :: flags where "O_TRUNC \<equiv> 0x200"
abbreviation O_APPEND :: flags where "O_APPEND \<equiv> 0x400"
abbreviation O_DIRECT :: flags where "O_DIRECT \<equiv> 0x4000"

text \<open>The C test \<open>m & x\<close>.\<close>

definition any_flag :: "flags \<Rightarrow> flags \<Rightarrow> bool" where
  "any_flag m x \<longleftrightarrow> m AND x \<noteq> 0"

abbreviation ENOENT :: int where "ENOENT \<equiv> 2"
abbreviation EIO :: int where "EIO \<equiv> 5"
abbreviation EBADF :: int where "EBADF \<equiv> 9"
abbreviation EAGAIN :: int where "EAGAIN \<equiv> 11"
abbreviation EACCES :: int where "EACCES \<equiv> 13"
abbreviation EBUSY :: int where "EBUSY \<equiv> 16"
abbreviation EINVAL :: int where "EINVAL \<equiv> 22"
abbreviation EMFILE :: int where "EMFILE \<equiv> 24"

subsection \<open>State\<close>

record kfd =
  kf_ino :: nat
  kf_flags :: flags

text \<open>
  \<open>k_dir\<close> names inodes and \<open>k_data\<close> holds their bytes; \<open>k_fds\<close> is the descriptor table. \<open>errno\<close> is
  that of the running thread.
\<close>

record kernel =
  k_dir :: "string \<Rightarrow> nat option"
  k_data :: "nat \<Rightarrow> byte list"
  k_next_ino :: nat
  k_fds :: "nat \<Rightarrow> kfd option"
  k_next_fd :: nat
  k_block :: nat
  k_denied :: "string \<Rightarrow> bool"
  k_read_fails :: "nat \<Rightarrow> bool"
  k_write_fails :: "nat \<Rightarrow> bool"
  errno :: int

definition kfd_of :: "kernel \<Rightarrow> int \<Rightarrow> kfd option" where
  "kfd_of k fd = (if fd < 0 then None else k_fds k (nat fd))"

definition set_errno :: "int \<Rightarrow> kernel \<Rightarrow> kernel" where
  "set_errno e k = k\<lparr>errno := e\<rparr>"

definition can_write :: "flags \<Rightarrow> bool" where
  "can_write fl \<longleftrightarrow> fl AND 3 = O_WRONLY \<or> fl AND 3 = O_RDWR"

definition can_read :: "flags \<Rightarrow> bool" where
  "can_read fl \<longleftrightarrow> fl AND 3 = O_RDONLY \<or> fl AND 3 = O_RDWR"

definition kset_data :: "nat \<Rightarrow> byte list \<Rightarrow> kernel \<Rightarrow> kernel" where
  "kset_data ino d k = k\<lparr>k_data := (k_data k)(ino := d)\<rparr>"

subsection \<open>Calls\<close>

definition k_new_fd :: "kernel \<Rightarrow> nat \<Rightarrow> flags \<Rightarrow> int \<times> kernel" where
  "k_new_fd k ino fl =
     (int (k_next_fd k), k\<lparr>k_fds := (k_fds k)(k_next_fd k := Some \<lparr>kf_ino = ino, kf_flags = fl\<rparr>),
                           k_next_fd := Suc (k_next_fd k)\<rparr>)"

definition sys_open :: "kernel \<Rightarrow> string \<Rightarrow> flags \<Rightarrow> int \<times> kernel" where
  "sys_open k path fl =
     (if k_denied k path then (-1, set_errno EACCES k)
      else case k_dir k path of
             Some ino \<Rightarrow>
               k_new_fd (if any_flag O_TRUNC fl \<and> can_write fl then kset_data ino [] k else k) ino fl
           | None \<Rightarrow>
               if any_flag O_CREAT fl then
                 k_new_fd (kset_data (k_next_ino k) [] (k\<lparr>k_dir := (k_dir k)(path \<mapsto> k_next_ino k),
                   k_next_ino := Suc (k_next_ino k)\<rparr>)) (k_next_ino k) fl
               else (-1, set_errno ENOENT k))"

definition sys_close :: "kernel \<Rightarrow> int \<Rightarrow> int \<times> kernel" where
  "sys_close k fd =
     (case kfd_of k fd of
        None \<Rightarrow> (-1, set_errno EBADF k)
      | Some _ \<Rightarrow> (0, k\<lparr>k_fds := (k_fds k)(nat fd := None)\<rparr>))"

text \<open>\<open>st_size\<close> of \<open>fstat\<close>, and the position \<open>lseek(fd, 0, SEEK_END)\<close> returns.\<close>

definition sys_fstat_size :: "kernel \<Rightarrow> int \<Rightarrow> nat" where
  "sys_fstat_size k fd = (case kfd_of k fd of None \<Rightarrow> 0 | Some e \<Rightarrow> length (k_data k (kf_ino e)))"

definition sys_lseek_end :: "kernel \<Rightarrow> int \<Rightarrow> nat" where
  "sys_lseek_end k fd = (case kfd_of k fd of None \<Rightarrow> 0 | Some e \<Rightarrow> length (k_data k (kf_ino e)))"

text \<open>The alignment that \<open>O_DIRECT\<close> asks for; \<open>al\<close> says whether the caller's buffer is aligned.\<close>

definition direct_ok :: "kernel \<Rightarrow> kfd \<Rightarrow> bool \<Rightarrow> nat \<Rightarrow> nat \<Rightarrow> bool" where
  "direct_ok k e al pos n \<longleftrightarrow>
     any_flag O_DIRECT (kf_flags e) \<longrightarrow> al \<and> pos mod k_block k = 0 \<and> n mod k_block k = 0"

definition sys_pread :: "kernel \<Rightarrow> int \<Rightarrow> bool \<Rightarrow> nat \<Rightarrow> nat \<Rightarrow> byte list option \<times> kernel" where
  "sys_pread k fd al n off =
     (case kfd_of k fd of
        None \<Rightarrow> (None, set_errno EBADF k)
      | Some e \<Rightarrow>
          if \<not> can_read (kf_flags e) then (None, set_errno EBADF k)
          else if \<not> direct_ok k e al off n then (None, set_errno EINVAL k)
          else if k_read_fails k (kf_ino e) then (None, set_errno EIO k)
          else (Some (take n (drop off (k_data k (kf_ino e)))), k))"

definition sys_pwrite :: "kernel \<Rightarrow> int \<Rightarrow> bool \<Rightarrow> byte list \<Rightarrow> nat \<Rightarrow> int \<times> kernel" where
  "sys_pwrite k fd al bs off =
     (case kfd_of k fd of
        None \<Rightarrow> (-1, set_errno EBADF k)
      | Some e \<Rightarrow>
          let d = k_data k (kf_ino e);
              pos = (if any_flag O_APPEND (kf_flags e) then length d else off)
          in if \<not> can_write (kf_flags e) then (-1, set_errno EBADF k)
             else if \<not> direct_ok k e al pos (length bs) then (-1, set_errno EINVAL k)
             else if k_write_fails k (kf_ino e) then (-1, set_errno EIO k)
             else (int (length bs), kset_data (kf_ino e) (splice_at 0 d pos bs) k))"

definition resize :: "nat \<Rightarrow> byte list \<Rightarrow> byte list" where
  "resize n d = take n d @ replicate (n - length d) 0"

definition sys_ftruncate :: "kernel \<Rightarrow> int \<Rightarrow> nat \<Rightarrow> int \<times> kernel" where
  "sys_ftruncate k fd n =
     (case kfd_of k fd of
        None \<Rightarrow> (-1, set_errno EBADF k)
      | Some e \<Rightarrow>
          if \<not> can_write (kf_flags e) then (-1, set_errno EINVAL k)
          else (0, kset_data (kf_ino e) (resize n (k_data k (kf_ino e))) k))"

text \<open>\<open>fcntl(fd, F_GETFL)\<close> and \<open>fcntl(fd, F_SETFL, fl)\<close>, which changes status flags only.\<close>

definition sys_getfl :: "kernel \<Rightarrow> int \<Rightarrow> flags" where
  "sys_getfl k fd = (case kfd_of k fd of None \<Rightarrow> -1 | Some e \<Rightarrow> kf_flags e)"

definition settable :: flags where
  "settable = O_APPEND OR O_DIRECT"

definition sys_setfl :: "kernel \<Rightarrow> int \<Rightarrow> flags \<Rightarrow> kernel" where
  "sys_setfl k fd fl =
     (case kfd_of k fd of
        None \<Rightarrow> set_errno EBADF k
      | Some e \<Rightarrow> k\<lparr>k_fds := (k_fds k)(nat fd \<mapsto>
            e\<lparr>kf_flags := (kf_flags e AND NOT settable) OR (fl AND settable)\<rparr>)\<rparr>)"

subsection \<open>Laws\<close>

text \<open>The bytes behind a descriptor, and its flags.\<close>

definition kdata :: "kernel \<Rightarrow> int \<Rightarrow> byte list" where
  "kdata k fd = k_data k (kf_ino (the (kfd_of k fd)))"

definition kflags :: "kernel \<Rightarrow> int \<Rightarrow> flags" where
  "kflags k fd = kf_flags (the (kfd_of k fd))"

definition kino :: "kernel \<Rightarrow> int \<Rightarrow> nat" where
  "kino k fd = kf_ino (the (kfd_of k fd))"

definition kdirect :: "kernel \<Rightarrow> int \<Rightarrow> bool" where
  "kdirect k fd = any_flag O_DIRECT (kflags k fd)"

definition kappend :: "kernel \<Rightarrow> int \<Rightarrow> bool" where
  "kappend k fd = any_flag O_APPEND (kflags k fd)"

lemma any_flag_bit: "any_flag (2 ^ n) (x::flags) \<longleftrightarrow> bit x n"
  by (simp add: any_flag_def and.commute and_exp_eq_0_iff_not_bit)

lemma any_flag_bits [simp]:
  "any_flag O_WRONLY x \<longleftrightarrow> bit x 0" "any_flag O_RDWR x \<longleftrightarrow> bit x 1" "any_flag O_CREAT x \<longleftrightarrow> bit x 6"
  "any_flag O_TRUNC x \<longleftrightarrow> bit x 9" "any_flag O_APPEND x \<longleftrightarrow> bit x 10" "any_flag O_DIRECT x \<longleftrightarrow> bit x 14"
  using any_flag_bit [of 0 x] any_flag_bit [of 1 x] any_flag_bit [of 6 x] any_flag_bit [of 9 x]
    any_flag_bit [of 10 x] any_flag_bit [of 14 x] by simp_all

lemma any_flag_or: "any_flag (a OR b) x \<longleftrightarrow> any_flag a x \<or> any_flag b x"
  by (auto simp: any_flag_def bit_eq_iff bit_simps)

lemma any_flag_masks [simp]:
  "any_flag 3 x \<longleftrightarrow> bit x 0 \<or> bit x 1"
  "any_flag 0x403 x \<longleftrightarrow> bit x 10 \<or> bit x 0 \<or> bit x 1"
  "any_flag 0x442 x \<longleftrightarrow> bit x 1 \<or> bit x 10 \<or> bit x 6"
proof -
  have m: "(3::flags) = O_WRONLY OR O_RDWR" "(0x403::flags) = O_APPEND OR (O_WRONLY OR O_RDWR)"
    "(0x442::flags) = O_RDWR OR (O_APPEND OR O_CREAT)" by simp_all
  show "any_flag 3 x \<longleftrightarrow> bit x 0 \<or> bit x 1" "any_flag 0x403 x \<longleftrightarrow> bit x 10 \<or> bit x 0 \<or> bit x 1"
    "any_flag 0x442 x \<longleftrightarrow> bit x 1 \<or> bit x 10 \<or> bit x 6"
    unfolding m any_flag_or any_flag_bits by (rule refl)+
qed

lemma settable_bits [simp]: "bit settable n \<longleftrightarrow> n = 10 \<or> n = 14"
proof -
  have "O_APPEND = (2 ^ 10 :: flags)" "O_DIRECT = (2 ^ 14 :: flags)" by simp_all
  then show ?thesis unfolding settable_def by (simp only: bit_or_iff bit_exp_iff) auto
qed

lemma O_DIRECT_bits [simp]: "bit (O_DIRECT::flags) n \<longleftrightarrow> n = 14"
proof -
  have "O_DIRECT = (2 ^ 14 :: flags)" by simp
  then show ?thesis by (simp only: bit_exp_iff) auto
qed

lemma and3_eq:
  "x AND 3 = (if bit x 0 then 1 else 0) + (if bit x 1 then 2 else 0)" for x :: flags
proof -
  have "x AND 3 = take_bit 2 x" by (simp add: take_bit_eq_mask mask_eq_exp_minus_1)
  also have "\<dots> = of_bool (bit x 0) + 2 * of_bool (bit x 1)"
    by (simp add: numeral_2_eq_2 take_bit_Suc mod_2_eq_odd bit_Suc bit_0)
  finally show ?thesis by simp
qed

lemma can_write_bits: "can_write x \<longleftrightarrow> bit x 0 \<noteq> bit x 1"
  by (simp add: can_write_def and3_eq)

lemma can_read_bits: "can_read x \<longleftrightarrow> \<not> bit x 0"
  by (simp add: can_read_def and3_eq)


lemma kfd_of_simps [simp]:
  "kfd_of (set_errno e k) fd = kfd_of k fd"
  "kfd_of (kset_data i d k) fd = kfd_of k fd"
  "kfd_of (k\<lparr>errno := x\<rparr>) fd = kfd_of k fd"
  by (simp_all add: kfd_of_def set_errno_def kset_data_def)

lemma kproj_simps [simp]:
  "kdata (set_errno e k) fd = kdata k fd" "kflags (set_errno e k) fd = kflags k fd"
  "kino (set_errno e k) fd = kino k fd" "kdirect (set_errno e k) fd = kdirect k fd"
  "kappend (set_errno e k) fd = kappend k fd"
  "kflags (kset_data i d k) fd = kflags k fd" "kino (kset_data i d k) fd = kino k fd"
  "kdirect (kset_data i d k) fd = kdirect k fd" "kappend (kset_data i d k) fd = kappend k fd"
  "kdata (kset_data (kino k fd) d k) fd = d" "kdata (kset_data (kino k fd) d (set_errno e k)) fd = d"
  by (simp_all add: kdata_def kflags_def kino_def kdirect_def kappend_def)
    (simp_all add: set_errno_def kset_data_def)

text \<open>A descriptor the writer can use: open, on a device that works, with pages of whole blocks.\<close>

definition kgood :: "nat \<Rightarrow> kernel \<Rightarrow> int \<Rightarrow> bool" where
  "kgood P k fd \<longleftrightarrow> kfd_of k fd \<noteq> None \<and> 0 < P \<and> P mod k_block k = 0 \<and>
     \<not> k_read_fails k (kino k fd) \<and> \<not> k_write_fails k (kino k fd)"

lemma kgood_simps [simp]:
  "kgood P (set_errno e k) fd = kgood P k fd" "kgood P (kset_data i d k) fd = kgood P k fd"
  by (simp_all add: kgood_def) (simp_all add: set_errno_def kset_data_def)

lemma mod_block: "P mod B = 0 \<Longrightarrow> n mod P = 0 \<Longrightarrow> n mod B = (0::nat)"
  by (metis dvd_trans mod_0_imp_dvd mod_eq_0_iff_dvd)

definition page_aligned :: "nat \<Rightarrow> kernel \<Rightarrow> int \<Rightarrow> bool \<Rightarrow> nat \<Rightarrow> nat \<Rightarrow> bool" where
  "page_aligned P k fd al pos n \<longleftrightarrow> (kdirect k fd \<longrightarrow> al \<and> pos mod P = 0 \<and> n mod P = 0)"

lemma direct_okI: "kgood P k fd \<Longrightarrow> page_aligned P k fd al pos n \<Longrightarrow> direct_ok k (the (kfd_of k fd)) al pos n"
  by (auto simp: kgood_def page_aligned_def kdirect_def kflags_def direct_ok_def intro: mod_block)

lemma sys_pread_good:
  assumes "kgood P k fd" "can_read (kflags k fd)" "page_aligned P k fd al off n"
  shows "sys_pread k fd al n off = (Some (take n (drop off (kdata k fd))), k)"
  using assms direct_okI [OF assms(1,3)]
  by (auto simp: sys_pread_def kgood_def kflags_def kdata_def kino_def)

definition kpos :: "kernel \<Rightarrow> int \<Rightarrow> nat \<Rightarrow> nat" where
  "kpos k fd off = (if kappend k fd then length (kdata k fd) else off)"

lemma sys_pwrite_good:
  assumes "kgood P k fd" "can_write (kflags k fd)" "page_aligned P k fd al (kpos k fd off) (length bs)"
  shows "sys_pwrite k fd al bs off =
    (int (length bs), kset_data (kino k fd) (splice_at 0 (kdata k fd) (kpos k fd off) bs) k)"
  using assms direct_okI [OF assms(1,3)]
  by (auto simp: sys_pwrite_def kgood_def kflags_def kdata_def kino_def kpos_def kappend_def Let_def)

lemma sys_ftruncate_good:
  assumes "kgood P k fd" "can_write (kflags k fd)"
  shows "sys_ftruncate k fd n = (0, kset_data (kino k fd) (resize n (kdata k fd)) k)"
  using assms by (auto simp: sys_ftruncate_def kgood_def kflags_def kdata_def kino_def)

lemma sys_lseek_end_good: "kgood P k fd \<Longrightarrow> sys_lseek_end k fd = length (kdata k fd)"
  by (auto simp: sys_lseek_end_def kgood_def kdata_def)

text \<open>Changing the flags of a descriptor.\<close>

lemma kfd_of_setfl:
  "kfd_of k fd = Some e \<Longrightarrow>
   kfd_of (sys_setfl k fd fl) fd = Some (e\<lparr>kf_flags := (kf_flags e AND NOT settable) OR (fl AND settable)\<rparr>)"
  by (auto simp: sys_setfl_def kfd_of_def split: if_splits)

lemma sys_setfl_proj:
  assumes "kfd_of k fd \<noteq> None"
  shows "kdata (sys_setfl k fd fl) fd = kdata k fd" "kino (sys_setfl k fd fl) fd = kino k fd"
    "kgood P (sys_setfl k fd fl) fd = kgood P k fd"
    "can_read (kflags (sys_setfl k fd fl) fd) = can_read (kflags k fd)"
    "can_write (kflags (sys_setfl k fd fl) fd) = can_write (kflags k fd)"
    "kappend (sys_setfl k fd fl) fd = bit fl 10"
    "kdirect (sys_setfl k fd fl) fd = bit fl 14"
proof -
  from assms obtain e where e: "kfd_of k fd = Some e" by auto
  note s = kfd_of_setfl [OF e, of fl]
  have p: "kflags (sys_setfl k fd fl) fd = (kf_flags e AND NOT settable) OR (fl AND settable)"
    "kflags k fd = kf_flags e" "kino (sys_setfl k fd fl) fd = kf_ino e" "kino k fd = kf_ino e"
    using s e by (simp_all add: kflags_def kino_def)
  have d: "k_data (sys_setfl k fd fl) = k_data k" "k_block (sys_setfl k fd fl) = k_block k"
    "k_read_fails (sys_setfl k fd fl) = k_read_fails k" "k_write_fails (sys_setfl k fd fl) = k_write_fails k"
    using e by (simp_all add: sys_setfl_def)
  show "kdata (sys_setfl k fd fl) fd = kdata k fd" using s e d by (simp add: kdata_def)
  show "kino (sys_setfl k fd fl) fd = kino k fd" using p by simp
  show "kgood P (sys_setfl k fd fl) fd = kgood P k fd" using s e d p by (simp add: kgood_def)
  show "can_read (kflags (sys_setfl k fd fl) fd) = can_read (kflags k fd)"
    "can_write (kflags (sys_setfl k fd fl) fd) = can_write (kflags k fd)"
    "kappend (sys_setfl k fd fl) fd = bit fl 10" "kdirect (sys_setfl k fd fl) fd = bit fl 14"
    by (simp_all add: can_read_bits can_write_bits p bit_simps kappend_def kdirect_def)
qed

lemma sys_getfl_good: "kfd_of k fd \<noteq> None \<Longrightarrow> sys_getfl k fd = kflags k fd"
  by (auto simp: sys_getfl_def kflags_def)

text \<open>
  \<open>k_same fd k k'\<close>: from \<open>k\<close> to \<open>k'\<close> nothing changed but the bytes behind \<open>fd\<close>, the status flags of
  \<open>fd\<close> and \<open>errno\<close>; this is all that an operation on one open file may touch.
\<close>

definition k_same :: "int \<Rightarrow> kernel \<Rightarrow> kernel \<Rightarrow> bool" where
  "k_same fd k k' \<longleftrightarrow>
     k_dir k' = k_dir k \<and> k_next_ino k' = k_next_ino k \<and> k_next_fd k' = k_next_fd k \<and>
     k_block k' = k_block k \<and> k_denied k' = k_denied k \<and>
     k_read_fails k' = k_read_fails k \<and> k_write_fails k' = k_write_fails k \<and>
     (\<forall>fd'. fd' \<noteq> fd \<longrightarrow> kfd_of k' fd' = kfd_of k fd') \<and>
     (kfd_of k' fd = None \<longleftrightarrow> kfd_of k fd = None) \<and> kino k' fd = kino k fd \<and>
     (\<forall>ino. ino \<noteq> kino k fd \<longrightarrow> k_data k' ino = k_data k ino)"

lemma k_same_refl [simp]: "k_same fd k k"
  by (simp add: k_same_def)

lemma k_same_trans: "k_same fd k k1 \<Longrightarrow> k_same fd k1 k2 \<Longrightarrow> k_same fd k k2"
  by (simp add: k_same_def)

lemma k_same_set_errno [simp]: "k_same fd (set_errno e k) k' = k_same fd k k'"
  "k_same fd k (set_errno e k') = k_same fd k k'"
  by (simp_all add: k_same_def) (simp_all add: set_errno_def)

lemma k_same_kset_data [simp]: "k_same fd k (kset_data (kino k fd) d k)"
  "k_same fd k (kset_data (kino k fd) d (set_errno e k))"
  by (simp_all add: k_same_def) (simp_all add: kset_data_def set_errno_def)

lemma k_same_setfl: "kfd_of k fd \<noteq> None \<Longrightarrow> k_same fd k (sys_setfl k fd fl)"
  using sys_setfl_proj(2) [of k fd fl]
  by (auto simp: k_same_def kfd_of_def sys_setfl_def split: if_splits)

lemma k_same_kgood: "k_same fd k k' \<Longrightarrow> kgood P k' fd = kgood P k fd"
  by (auto simp: k_same_def kgood_def)

end
