(* ===== verification/EfTypes.thy ===== *)
theory EfTypes
  imports Kernel
begin

text \<open>
  The data of the file layer: the types of \<open>src/evio/ef_internals.h\<close> and of the head of
  \<open>src/evio/ef_file.c\<close>, the initialisation and clean-up macros. Pointers to \<open>EF_FILE\<close> are addresses in a
  heap; every other object has one owner and is a value. Sizes and offsets are natural numbers: they
  stay far below the width of \<open>off_t\<close> and \<open>size_t\<close>. The queues of the layer are lists, the meaning
  that \<open>ev_queue_refines_fifo\<close> gives to an \<open>ev_queue\<close>. Unused fields (\<open>_outstanding_writes\<close>,
  \<open>_first_write\<close>) are left out, and so is \<open>_mode\<close>, which is only handed to \<open>open\<close>.
\<close>

datatype file_oper_type = oper_open | oper_read | oper_close | oper_readahead | oper_write

datatype file_status = FILE_NOT_OPEN | FILE_OPEN_ATTEMPTED | FILE_OPEN

datatype action_status = ACTION_INITIATED | ACTION_IN_PROGRESS | ACTION_COMPLETE

datatype write_task_evt = file_write_evt | file_fsync_evt

record write_task =
  w_cmd :: write_task_evt
  w_buf :: "byte list option"
  w_nbyte :: nat

record data_buf =
  d_buf :: "byte list"
  d_nbyte :: int
  d_errno :: int
  d_page_no :: nat

record eio_write_oper =
  w_queue :: "write_task list"
  b_w_list :: "write_task list"
  accum_data :: "byte list option"
  accum_bytes :: nat
  write_totreq_count :: nat
  write_req_count :: nat
  write_cmpl_count :: nat

datatype eio_inp =
    Open_inp string flags
  | Read_inp
  | Write_inp eio_write_oper
  | No_inp

record eio_file_cmd =
  a_cmd :: file_oper_type
  a_status :: action_status
  a_return_value :: int
  a_err :: int
  a_inp :: eio_inp

record ef_file =
  f_ef_fd :: nat
  f_fd :: int
  f_oflag :: flags
  f_status :: file_status
  f_write_suspended :: int
  f_orig_size :: nat
  f_curr_size :: nat
  f_running_size :: nat
  f_unaligned :: bool
  f_offset :: nat
  f_buffer :: "byte list option"
  f_index :: nat
  f_dirty :: bool
  f_r_a_list :: "data_buf list"
  f_r_a_started :: nat
  f_r_a_completed :: nat
  f_action :: "eio_file_cmd option"
  f_prevent_mutation :: int

subsection \<open>Initialisation macros\<close>

definition eio_write_oper_init :: eio_write_oper where
  "eio_write_oper_init =
     \<lparr>w_queue = [], b_w_list = [], accum_data = None, accum_bytes = 0,
      write_totreq_count = 0, write_req_count = 0, write_cmpl_count = 0\<rparr>"

text \<open>
  \<open>low_eio_cmd_init\<close> on an action that exists; it keeps the input of a write, so that the counts and
  the queue of a running write survive.
\<close>

definition low_eio_cmd_init :: "eio_file_cmd \<Rightarrow> file_oper_type \<Rightarrow> eio_file_cmd" where
  "low_eio_cmd_init a oper =
     a\<lparr>a_status := ACTION_INITIATED, a_return_value := -100, a_err := 0, a_cmd := oper,
       a_inp := (case oper of
                   oper_open \<Rightarrow> Open_inp '''' 0
                 | oper_read \<Rightarrow> Read_inp
                 | oper_readahead \<Rightarrow> Read_inp
                 | oper_write \<Rightarrow> a_inp a
                 | oper_close \<Rightarrow> a_inp a)\<rparr>"

definition eio_cmd_init :: "file_oper_type \<Rightarrow> eio_file_cmd" where
  "eio_cmd_init oper =
     (let a = low_eio_cmd_init \<lparr>a_cmd = oper, a_status = ACTION_INITIATED, a_return_value = 0,
                                a_err = 0, a_inp = No_inp\<rparr> oper
      in if oper = oper_write then a\<lparr>a_inp := Write_inp eio_write_oper_init\<rparr> else a)"

definition SET_WRITE_ACTION_STATUS :: "eio_file_cmd option \<Rightarrow> eio_file_cmd option outcome" where
  "SET_WRITE_ACTION_STATUS p =
     (case p of
        None \<Rightarrow> Done None
      | Some a \<Rightarrow>
          if a_cmd a = oper_write then
            (case a_inp a of
               Write_inp w \<Rightarrow>
                 Done (Some (if write_totreq_count w = write_cmpl_count w
                             then a\<lparr>a_status := ACTION_COMPLETE\<rparr> else a))
             | _ \<Rightarrow> Bad_access)
          else Done (Some a))"

text \<open>
  \<open>EF_FILE_INIT\<close> on the memory of a new \<open>EF_FILE\<close>; it leaves \<open>_file_offset\<close> and \<open>_ef_fd\<close> alone, which
  hold whatever the memory held.
\<close>

definition EF_FILE_INIT :: "nat \<Rightarrow> nat \<Rightarrow> ef_file" where
  "EF_FILE_INIT garbage_offset garbage_fd =
     \<lparr>f_ef_fd = garbage_fd, f_fd = -1, f_oflag = 0, f_status = FILE_NOT_OPEN, f_write_suspended = 0,
      f_orig_size = 0, f_curr_size = 0, f_running_size = 0, f_unaligned = False,
      f_offset = garbage_offset, f_buffer = None, f_index = 0, f_dirty = False, f_r_a_list = [],
      f_r_a_started = 0, f_r_a_completed = 0, f_action = None, f_prevent_mutation = 0\<rparr>"

subsection \<open>Allocating and freeing the action of a file\<close>

text \<open>
  The spin lock \<open>_prevent_action_mutation\<close> as \<open>free_file_action\<close> and \<open>alloc_file_action\<close> take it: after
  a failed exchange the expected value is the one found, so the second attempt succeeds. They never
  wait, whether the lock is free or held.
\<close>

definition pam_take :: "ef_file \<Rightarrow> ef_file" where
  "pam_take f = f\<lparr>f_prevent_mutation := 1\<rparr>"

definition pam_drop :: "ef_file \<Rightarrow> ef_file" where
  "pam_drop f = (if f_prevent_mutation f = 1 then f\<lparr>f_prevent_mutation := 0\<rparr> else f)"

text \<open>\<open>EF_FILE_ACTION_CLEANUP\<close> frees what the action owns and the action.\<close>

definition free_file_action :: "ef_file \<Rightarrow> ef_file outcome" where
  "free_file_action f =
     (case f_action f of
        None \<Rightarrow> Bad_access
      | Some a \<Rightarrow> Done (pam_drop ((pam_take f)\<lparr>f_action := None\<rparr>)))"

definition alloc_file_action :: "ef_file \<Rightarrow> file_oper_type \<Rightarrow> ef_file" where
  "alloc_file_action f oper = pam_drop ((pam_take f)\<lparr>f_action := Some (eio_cmd_init oper)\<rparr>)"

definition write_inp :: "ef_file \<Rightarrow> eio_write_oper outcome" where
  "write_inp f =
     (case f_action f of
        None \<Rightarrow> Bad_access
      | Some a \<Rightarrow> (case a_inp a of Write_inp w \<Rightarrow> Done w | _ \<Rightarrow> Bad_access))"

definition set_write_inp :: "eio_write_oper \<Rightarrow> ef_file \<Rightarrow> ef_file" where
  "set_write_inp w f =
     f\<lparr>f_action := (case f_action f of None \<Rightarrow> None | Some a \<Rightarrow> Some (a\<lparr>a_inp := Write_inp w\<rparr>))\<rparr>"

definition set_action_status :: "action_status \<Rightarrow> ef_file \<Rightarrow> ef_file outcome" where
  "set_action_status st f =
     (case f_action f of
        None \<Rightarrow> Bad_access
      | Some a \<Rightarrow> Done (f\<lparr>f_action := Some (a\<lparr>a_status := st\<rparr>)\<rparr>))"

lemma pam_simps [simp]:
  "pam_drop ((pam_take f)\<lparr>f_action := a\<rparr>) = f\<lparr>f_action := a, f_prevent_mutation := 0\<rparr>"
  by (simp add: pam_take_def pam_drop_def)

end
