(* ===== verification/EfWriter.thy ===== *)
theory EfWriter
  imports EfTypes
begin

text \<open>
  The disk side of writing: how \<open>ef_one_single_write\<close>, \<open>sync_buf_from_file\<close>, \<open>sync_buf_to_file\<close> and
  \<open>ef_file_fsync\<close> of \<open>src/evio/ef_file.c\<close> move the bytes of a write task through the one-page buffer of
  the file to the disk, for files opened for reading and writing, for writing, and for appending.
  \<open>P\<close> is \<open>sg_page_size\<close> and \<open>junk\<close> the contents of memory that has just been allocated.
\<close>

subsection \<open>The page buffer\<close>

fun get_read_ahead_buf :: "data_buf list \<Rightarrow> nat \<Rightarrow> data_buf option \<times> data_buf list" where
  "get_read_ahead_buf [] page_no = (None, [])"
| "get_read_ahead_buf (d # ds) page_no =
     (if d_page_no d = page_no then (Some d, ds) else get_read_ahead_buf ds page_no)"

definition fresh_page :: "nat \<Rightarrow> (nat \<Rightarrow> byte) \<Rightarrow> byte list" where
  "fresh_page P junk = map junk [0..<P]"

definition sync_buf_from_file ::
  "nat \<Rightarrow> (nat \<Rightarrow> byte) \<Rightarrow> ef_file \<Rightarrow> kernel \<Rightarrow> (ef_file \<times> kernel) outcome" where
  "sync_buf_from_file P junk f k =
     (let b = (case f_buffer f of None \<Rightarrow> fresh_page P junk | Some b \<Rightarrow> b);
          f1 = f\<lparr>f_buffer := Some b, f_dirty := False\<rparr>
      in if f_index f * P < f_curr_size f then
           let (db, ra) = (if f_r_a_started f \<noteq> 0 then get_read_ahead_buf (f_r_a_list f) (f_index f)
                           else (None, f_r_a_list f));
               f2 = f1\<lparr>f_r_a_list := ra\<rparr>
           in case db of
                Some d \<Rightarrow> Done (f2\<lparr>f_buffer := Some (d_buf d)\<rparr>, k)
              | None \<Rightarrow>
                  if f_oflag f = O_RDONLY \<or> any_flag O_RDWR (f_oflag f) then
                    (case sys_pread (set_errno 0 k) (f_fd f) True P (f_index f * P) of
                       (None, k1) \<Rightarrow> Aborted
                     | (Some bs, k1) \<Rightarrow> Done (f2\<lparr>f_buffer := Some (splice_at 0 b 0 bs)\<rparr>, k1))
                  else Done (f2, k)
         else Done (f1, k))"

text \<open>A failed \<open>pwrite\<close> is ignored; a failed \<open>ftruncate\<close> aborts.\<close>

definition sync_buf_to_file :: "nat \<Rightarrow> ef_file \<Rightarrow> kernel \<Rightarrow> (ef_file \<times> kernel) outcome" where
  "sync_buf_to_file P f k =
     (if f_dirty f then
        obind (of_ptr (f_buffer f)) (\<lambda>b.
          let (r, k1) = sys_pwrite (set_errno 0 k) (f_fd f) True b (f_index f * P);
              (t, k2) = sys_ftruncate k1 (f_fd f) (f_running_size f)
          in if t \<noteq> 0 then Aborted else Done (f\<lparr>f_dirty := False\<rparr>, k2))
      else Done (f, k))"

text \<open>\<open>fcntl\<close> with \<open>F_GETFL\<close>, a change of \<open>O_DIRECT\<close>, and \<open>F_SETFL\<close>.\<close>

definition direct_on :: "kernel \<Rightarrow> int \<Rightarrow> kernel" where
  "direct_on k fd = sys_setfl k fd (sys_getfl k fd OR O_DIRECT)"

definition direct_off :: "kernel \<Rightarrow> int \<Rightarrow> kernel" where
  "direct_off k fd =
     (let flg = sys_getfl k fd
      in sys_setfl k fd (if any_flag O_DIRECT flg then flg XOR O_DIRECT else flg))"

subsection \<open>Writing one task\<close>

text \<open>The start of \<open>ef_one_single_write\<close>: an appending file moves to its end.\<close>

definition append_position :: "nat \<Rightarrow> ef_file \<Rightarrow> kernel \<Rightarrow> ef_file outcome" where
  "append_position P f k =
     (if any_flag O_APPEND (f_oflag f) then
        if \<not> f_dirty f then
          let old_buffer_index = f_index f;
              off = sys_lseek_end k (f_fd f);
              f1 = f\<lparr>f_offset := off, f_index := off div P\<rparr>
          in Done (if old_buffer_index \<noteq> f_index f1 then f1\<lparr>f_buffer := None\<rparr> else f1)
        else if f_index f \<noteq> f_curr_size f div P then Aborted
        else Done f
      else Done f)"

text \<open>
  One pass of the loop when \<open>_block_write_unaligned\<close> is set: the bytes go straight to the end of
  the file. The source reads from the start of the task's buffer.
\<close>

definition unaligned_chunk ::
  "nat \<Rightarrow> (nat \<Rightarrow> byte) \<Rightarrow> byte list \<Rightarrow> nat \<Rightarrow> nat \<Rightarrow> ef_file \<Rightarrow> kernel \<Rightarrow> (nat \<times> ef_file \<times> kernel) outcome" where
  "unaligned_chunk P junk buf page_offset transfer_size f k =
     (if \<not> any_flag (O_APPEND OR O_WRONLY) (f_oflag f) then Aborted
      else if length buf < transfer_size then Bad_access
      else
        let (r, k1) = sys_pwrite (set_errno 0 k) (f_fd f) False (take transfer_size buf) (f_curr_size f)
        in if r = -1 then Aborted
           else
             let page_offset = page_offset + transfer_size;
                 f1 = f\<lparr>f_offset := f_offset f + transfer_size,
                        f_curr_size := f_curr_size f + transfer_size,
                        f_running_size := f_running_size f + transfer_size\<rparr>
             in if page_offset = P then
                  obind (sync_buf_from_file P junk
                           (f1\<lparr>f_unaligned := False, f_dirty := False, f_index := f_index f1 + 1\<rparr>)
                           (direct_on k1 (f_fd f)))
                    (\<lambda>(f2, k2). Done (0, f2, k2))
                else Done (page_offset, f1, k1))"

text \<open>A full page goes to the disk and the buffer moves to the next page.\<close>

definition page_full ::
  "nat \<Rightarrow> (nat \<Rightarrow> byte) \<Rightarrow> ef_file \<Rightarrow> kernel \<Rightarrow> (nat \<times> ef_file \<times> kernel) outcome" where
  "page_full P junk f k =
     obind (sync_buf_to_file P f k) (\<lambda>(f1, k1).
       let f2 = f1\<lparr>f_index := f_index f1 + 1\<rparr>;
           f3 = (if f_index f2 * P > f_curr_size f2
                 then f2\<lparr>f_curr_size := f_index f2 * P\<rparr> else f2)
       in obind (sync_buf_from_file P junk (f3\<lparr>f_dirty := False\<rparr>) k1)
            (\<lambda>(f4, k2). Done (0, f4, k2)))"

text \<open>One pass of the loop through the page buffer.\<close>

definition aligned_chunk ::
  "nat \<Rightarrow> (nat \<Rightarrow> byte) \<Rightarrow> byte list \<Rightarrow> nat \<Rightarrow> nat \<Rightarrow> nat \<Rightarrow> ef_file \<Rightarrow> kernel \<Rightarrow> (nat \<times> ef_file \<times> kernel) outcome" where
  "aligned_chunk P junk buf wb_pos page_offset transfer_size f k =
     obind (of_ptr (f_buffer f)) (\<lambda>b.
     obind (memcpy b page_offset buf wb_pos transfer_size) (\<lambda>b1.
       let f1 = f\<lparr>f_dirty := True, f_buffer := Some b1\<rparr>;
           page_offset = page_offset + transfer_size;
           f2 = (if f_offset f1 div P = f_running_size f1 div P \<and>
                    f_offset f1 + transfer_size > f_running_size f1
                 then f1\<lparr>f_running_size := f_offset f1 + transfer_size\<rparr> else f1);
           f3 = f2\<lparr>f_offset := f_offset f2 + transfer_size\<rparr>
       in if page_offset = P then page_full P junk f3 k
          else if page_offset > P then Aborted
          else Done (page_offset, f3, k)))"

text \<open>
  The loop over the remaining bytes. A pass consumes at least one byte or starts a new page, so
  \<open>Suc (2 * remaining)\<close> passes are enough.
\<close>

fun write_loop ::
  "nat \<Rightarrow> nat \<Rightarrow> (nat \<Rightarrow> byte) \<Rightarrow> byte list \<Rightarrow> nat \<Rightarrow> nat \<Rightarrow> nat \<Rightarrow> nat \<Rightarrow> ef_file \<Rightarrow> kernel \<Rightarrow>
     (nat \<times> ef_file \<times> kernel) outcome" where
  "write_loop 0 P junk buf page_offset remaining wb_pos bytes f k =
     (if remaining = 0 then Done (bytes, f, k) else Spins)"
| "write_loop (Suc fuel) P junk buf page_offset remaining wb_pos bytes f k =
     (if remaining = 0 then Done (bytes, f, k)
      else
        obind (if f_buffer f = None \<and> \<not> f_dirty f then sync_buf_from_file P junk f k else Done (f, k))
          (\<lambda>(f1, k1).
            let transfer_size = (if page_offset \<le> P \<and> P - page_offset < remaining then P - page_offset
                                 else remaining)
            in obind (if f_unaligned f1 then unaligned_chunk P junk buf page_offset transfer_size f1 k1
                      else aligned_chunk P junk buf wb_pos page_offset transfer_size f1 k1)
                 (\<lambda>(page_offset', f2, k2).
                   write_loop fuel P junk buf page_offset' (remaining - transfer_size)
                     (wb_pos + transfer_size) (bytes + transfer_size) f2 k2)))"

definition ef_one_single_write ::
  "nat \<Rightarrow> (nat \<Rightarrow> byte) \<Rightarrow> ef_file \<Rightarrow> kernel \<Rightarrow> write_task \<Rightarrow> (nat \<times> ef_file \<times> kernel) outcome" where
  "ef_one_single_write P junk f k w_t =
     obind (append_position P f k) (\<lambda>f1.
       let page_offset = f_offset f1 - f_index f1 * P;
           remaining_bytes = c_int (w_nbyte w_t)
       in if remaining_bytes < 0 then Aborted
          else write_loop (Suc (2 * nat remaining_bytes)) P junk
                 (case w_buf w_t of None \<Rightarrow> [] | Some b \<Rightarrow> b) page_offset (nat remaining_bytes) 0 0 f1 k)"

subsection \<open>Pushing the buffer to the disk\<close>

definition ef_file_fsync :: "nat \<Rightarrow> ef_file \<Rightarrow> kernel \<Rightarrow> (ef_file \<times> kernel) outcome" where
  "ef_file_fsync P f k =
     obind (sync_buf_to_file P f k) (\<lambda>(f1, k1).
       let f2 = f1\<lparr>f_curr_size := f_running_size f1\<rparr>;
           page_offset = f_offset f2 - f_index f2 * P
       in if page_offset = P then
            Done (f2\<lparr>f_buffer := None, f_index := f_index f2 + 1\<rparr>, k1)
          else if any_flag O_APPEND (f_oflag f2) then
            Done (f2\<lparr>f_unaligned := True\<rparr>, direct_off k1 (f_fd f2))
          else Done (f2, k1))"

text \<open>The loop of \<open>ef_file_write\<close> over the batched tasks: the bytes transferred by all of them.\<close>

fun write_tasks ::
  "nat \<Rightarrow> (nat \<Rightarrow> byte) \<Rightarrow> write_task list \<Rightarrow> nat \<Rightarrow> ef_file \<Rightarrow> kernel \<Rightarrow> (nat \<times> ef_file \<times> kernel) outcome" where
  "write_tasks P junk [] bytes f k = Done (bytes, f, k)"
| "write_tasks P junk (w_t # w_list) bytes f k =
     (case w_cmd w_t of
        file_write_evt \<Rightarrow>
          obind (ef_one_single_write P junk f (set_errno 0 k) w_t)
            (\<lambda>(n, f1, k1). write_tasks P junk w_list (bytes + n) f1 k1)
      | file_fsync_evt \<Rightarrow>
          obind (ef_file_fsync P f (set_errno 0 k))
            (\<lambda>(f1, k1). write_tasks P junk w_list bytes f1 k1))"

subsection \<open>Writing a page\<close>

text \<open>
  What the writer needs of the disk: a page written where it \<open>lands\<close>, then a truncation, leave the
  bytes of the file with the page laid over them.
\<close>

definition page_view :: "nat \<Rightarrow> byte list \<Rightarrow> nat \<Rightarrow> byte list \<Rightarrow> nat \<Rightarrow> byte list" where
  "page_view P d i b n = take n (splice_at 0 d (i * P) b)"

locale page_device =
  fixes good :: "'k \<Rightarrow> bool"
    and contents :: "'k \<Rightarrow> byte list"
    and lands :: "'k \<Rightarrow> nat \<Rightarrow> bool"
    and same :: "'k \<Rightarrow> 'k \<Rightarrow> bool"
    and put :: "'k \<Rightarrow> byte list \<Rightarrow> nat \<Rightarrow> int \<times> 'k"
    and trunc :: "'k \<Rightarrow> nat \<Rightarrow> int \<times> 'k"
    and P :: nat
  assumes put_law: "good k \<Longrightarrow> lands k i \<Longrightarrow> length b = P \<Longrightarrow>
      \<exists>r k'. put k b (i * P) = (r, k') \<and> good k' \<and> same k k' \<and> contents k' = splice_at 0 (contents k) (i * P) b"
    and trunc_law: "good k \<Longrightarrow>
      \<exists>k'. trunc k n = (0, k') \<and> good k' \<and> same k k' \<and> contents k' = resize n (contents k)"
    and same_trans: "same k k1 \<Longrightarrow> same k1 k2 \<Longrightarrow> same k k2"
begin

lemma flush_law:
  assumes "good k" "lands k i" "length b = P" "n \<le> max (length (contents k)) (i * P + P)"
  shows "\<exists>r k1 k2. put k b (i * P) = (r, k1) \<and> trunc k1 n = (0, k2) \<and> good k2 \<and> same k k2 \<and>
    contents k2 = page_view P (contents k) i b n"
proof -
  from put_law [OF assms(1-3)] obtain r k1 where
    k1: "put k b (i * P) = (r, k1)" "good k1" "same k k1" "contents k1 = splice_at 0 (contents k) (i * P) b" by blast
  from trunc_law [OF k1(2), of n] obtain k2 where
    "trunc k1 n = (0, k2)" "good k2" "same k1 k2" "contents k2 = resize n (contents k1)" by blast
  with k1 assms same_trans show ?thesis by (fastforce simp: resize_def page_view_def)
qed

end

definition wgood :: "nat \<Rightarrow> int \<Rightarrow> kernel \<Rightarrow> bool" where
  "wgood P fd k \<longleftrightarrow> kgood P k fd \<and> can_write (kflags k fd)"

definition wsame :: "int \<Rightarrow> kernel \<Rightarrow> kernel \<Rightarrow> bool" where
  "wsame fd k k' \<longleftrightarrow> k_same fd k k' \<and> kflags k' fd = kflags k fd"

interpretation disk: page_device "wgood P fd" "\<lambda>k. kdata k fd"
  "\<lambda>k i. kappend k fd \<longrightarrow> length (kdata k fd) = i * P" "wsame fd"
  "\<lambda>k b off. sys_pwrite k fd True b off" "\<lambda>k n. sys_ftruncate k fd n" P
proof
  fix k i and b :: "byte list"
  assume a: "wgood P fd k" "kappend k fd \<longrightarrow> length (kdata k fd) = i * P" "length b = P"
  then have "kpos k fd (i * P) = i * P" by (simp add: kpos_def)
  with a have "sys_pwrite k fd True b (i * P) =
      (int P, kset_data (kino k fd) (splice_at 0 (kdata k fd) (i * P) b) k)"
    using sys_pwrite_good [of P k fd True "i * P" b] by (simp add: wgood_def page_aligned_def)
  with a(1) show "\<exists>r k'. sys_pwrite k fd True b (i * P) = (r, k') \<and> wgood P fd k' \<and> wsame fd k k' \<and>
      kdata k' fd = splice_at 0 (kdata k fd) (i * P) b"
    by (simp add: wgood_def wsame_def)
next
  fix k n
  assume "wgood P fd k"
  then show "\<exists>k'. sys_ftruncate k fd n = (0, k') \<and> wgood P fd k' \<and> wsame fd k k' \<and>
      kdata k' fd = resize n (kdata k fd)"
    using sys_ftruncate_good [of P k fd n] by (simp add: wgood_def wsame_def)
next
  fix k k1 k2
  assume "wsame fd k k1" "wsame fd k1 k2"
  then show "wsame fd k k2" using k_same_trans by (auto simp: wsame_def)
qed

subsection \<open>Laying a page over the file\<close>

lemma length_page_view: "n \<le> max (length d) (i * P + length b) \<Longrightarrow> length (page_view P d i b n) = n"
  by (simp add: page_view_def)

lemma page_view_nth:
  assumes "j < n" "n \<le> max (length d) (i * P + P)" "length b = P" "i * P \<le> length d"
  shows "page_view P d i b n ! j = (if i * P \<le> j \<and> j < i * P + P then b ! (j - i * P) else d ! j)"
  using assms by (auto simp: page_view_def nth_splice_at max_def split: if_splits)

lemma page_view_clean:
  assumes "take (length d - i * P) b = take P (drop (i * P) d)" "length b = P" "i * P \<le> length d"
  shows "page_view P d i b (length d) = d"
proof (rule nth_equalityI)
  show "length (page_view P d i b (length d)) = length d" by (simp add: page_view_def)
next
  fix j assume "j < length (page_view P d i b (length d))"
  then have j: "j < length d" by (simp add: page_view_def)
  have "b ! (j - i * P) = d ! j" if "i * P \<le> j" "j < i * P + P"
  proof -
    have "b ! (j - i * P) = take (length d - i * P) b ! (j - i * P)" using that j by simp
    also have "\<dots> = d ! j" using that j assms(1) by simp
    finally show ?thesis .
  qed
  with j assms show "page_view P d i b (length d) ! j = d ! j" by (simp add: page_view_nth)
qed

lemma page_view_matches:
  assumes "length b = P" "i * P \<le> length d" "i * P \<le> n" "n \<le> max (length d) (i * P + P)"
  shows "take (n - i * P) b = take P (drop (i * P) (page_view P d i b n))"
proof (rule nth_equalityI)
  show "length (take (n - i * P) b) = length (take P (drop (i * P) (page_view P d i b n)))"
    using assms by (simp add: length_page_view)
next
  fix j assume "j < length (take (n - i * P) b)"
  with assms show "take (n - i * P) b ! j = take P (drop (i * P) (page_view P d i b n)) ! j"
    using page_view_nth [of "i * P + j" n d i P b] by (simp add: length_page_view less_diff_conv add.commute)
qed

lemma page_view_memcpy:
  assumes "length b = P" "po + length c \<le> P" "i * P \<le> length d"
    and "i * P + po \<le> n" "n \<le> max (length d) (i * P + P)" "n' = max n (i * P + po + length c)"
  shows "page_view P d i (splice_at 0 b po c) n' = splice_at 0 (page_view P d i b n) (i * P + po) c"
proof (rule nth_equalityI)
  have lb: "length (splice_at 0 b po c) = P" using assms by simp
  have n': "n' \<le> max (length d) (i * P + P)" using assms by simp
  show "length (page_view P d i (splice_at 0 b po c) n') = length (splice_at 0 (page_view P d i b n) (i * P + po) c)"
    using assms n' lb by (simp add: length_page_view)
  fix j assume "j < length (page_view P d i (splice_at 0 b po c) n')"
  then have j: "j < n'" using n' lb by (simp add: length_page_view)
  show "page_view P d i (splice_at 0 b po c) n' ! j = splice_at 0 (page_view P d i b n) (i * P + po) c ! j"
    using assms j n' lb
    by (auto simp: page_view_nth nth_splice_at length_page_view less_diff_conv2 algebra_simps)
qed


subsection \<open>The state of a file that is written\<close>

text \<open>
  What the file holds once the page buffer is taken into account, and the invariant of an open,
  writable file between two writes. Files opened with \<open>O_WRONLY\<close> and without \<open>O_APPEND\<close> are covered
  as long as every byte on disk lies before the offset: such a file is not read back.
\<close>

abbreviation f_append :: "ef_file \<Rightarrow> bool" where
  "f_append f \<equiv> bit (f_oflag f) 10"

definition f_view :: "nat \<Rightarrow> ef_file \<Rightarrow> kernel \<Rightarrow> byte list" where
  "f_view P f k =
     (if f_dirty f then page_view P (kdata k (f_fd f)) (f_index f) (the (f_buffer f)) (f_running_size f)
      else kdata k (f_fd f))"

definition buf_matches :: "nat \<Rightarrow> ef_file \<Rightarrow> kernel \<Rightarrow> bool" where
  "buf_matches P f k \<longleftrightarrow>
     (\<forall>b. f_buffer f = Some b \<longrightarrow>
        take (length (kdata k (f_fd f)) - f_index f * P) b = take P (drop (f_index f * P) (kdata k (f_fd f))))"

definition w_fd_ok :: "nat \<Rightarrow> ef_file \<Rightarrow> kernel \<Rightarrow> bool" where
  "w_fd_ok P f k \<longleftrightarrow>
     kgood P k (f_fd f) \<and> can_write (f_oflag f) \<and> can_write (kflags k (f_fd f)) \<and>
     can_read (kflags k (f_fd f)) = can_read (f_oflag f) \<and> kappend k (f_fd f) = f_append f \<and>
     f_r_a_started f = 0 \<and> (\<forall>b. f_buffer f = Some b \<longrightarrow> length b = P)"

definition w_sizes_ok :: "nat \<Rightarrow> ef_file \<Rightarrow> nat \<Rightarrow> bool" where
  "w_sizes_ok P f L \<longleftrightarrow>
     f_curr_size f = L \<and> f_index f * P \<le> f_offset f \<and> f_offset f < f_index f * P + P \<and>
     f_index f * P \<le> L \<and>
     (if f_dirty f then f_buffer f \<noteq> None \<and> \<not> f_unaligned f \<and> f_running_size f = max L (f_offset f)
      else f_running_size f = L \<and> f_offset f \<le> L)"

definition w_mode_ok :: "nat \<Rightarrow> ef_file \<Rightarrow> kernel \<Rightarrow> nat \<Rightarrow> bool" where
  "w_mode_ok P f k L \<longleftrightarrow>
     (if f_append f then
        (f_dirty f \<longrightarrow> L = f_index f * P) \<and>
        (\<not> f_dirty f \<and> \<not> f_unaligned f \<longrightarrow> L mod P = 0) \<and>
        (f_unaligned f \<longrightarrow> \<not> kdirect k (f_fd f)) \<and>
        (\<not> f_dirty f \<and> f_offset f < L \<longrightarrow> buf_matches P f k)
      else
        \<not> f_unaligned f \<and> (\<not> f_dirty f \<longrightarrow> buf_matches P f k) \<and>
        (bit (f_oflag f) 1 \<or> L \<le> f_offset f \<and> (f_buffer f = None \<longrightarrow> L \<le> f_index f * P)))"

definition winv :: "nat \<Rightarrow> ef_file \<Rightarrow> kernel \<Rightarrow> bool" where
  "winv P f k \<longleftrightarrow> w_fd_ok P f k \<and> w_sizes_ok P f (length (kdata k (f_fd f))) \<and>
     w_mode_ok P f k (length (kdata k (f_fd f)))"

definition at_end :: "ef_file \<Rightarrow> bool" where
  "at_end f \<longleftrightarrow> (f_append f \<longrightarrow> f_offset f = f_running_size f)"

text \<open>The fields that writing leaves alone.\<close>

definition w_same :: "ef_file \<Rightarrow> ef_file \<Rightarrow> bool" where
  "w_same f f' \<longleftrightarrow>
     f_ef_fd f' = f_ef_fd f \<and> f_fd f' = f_fd f \<and> f_oflag f' = f_oflag f \<and> f_status f' = f_status f \<and>
     f_write_suspended f' = f_write_suspended f \<and> f_orig_size f' = f_orig_size f \<and>
     f_r_a_list f' = f_r_a_list f \<and> f_r_a_started f' = f_r_a_started f \<and>
     f_r_a_completed f' = f_r_a_completed f \<and> f_action f' = f_action f \<and>
     f_prevent_mutation f' = f_prevent_mutation f"

lemma w_same_refl [simp]: "w_same f f"
  by (simp add: w_same_def)

lemma w_same_trans: "w_same f g \<Longrightarrow> w_same g h \<Longrightarrow> w_same f h"
  by (simp add: w_same_def)

lemma length_f_view: "winv P f k \<Longrightarrow> length (f_view P f k) = f_running_size f"
  by (auto simp: winv_def w_fd_ok_def w_sizes_ok_def f_view_def length_page_view)

subsection \<open>Loading and flushing the buffer\<close>

lemma sync_buf_from_file_ok:
  assumes "w_fd_ok P f k" "f_curr_size f = length (kdata k (f_fd f))"
  shows "\<exists>b k'. sync_buf_from_file P junk f k = Done (f\<lparr>f_buffer := Some b, f_dirty := False\<rparr>, k') \<and>
    length b = P \<and> (k' = k \<or> k' = set_errno 0 k) \<and>
    (length (kdata k (f_fd f)) \<le> f_index f * P \<or> bit (f_oflag f) 1 \<longrightarrow>
       buf_matches P (f\<lparr>f_buffer := Some b, f_dirty := False\<rparr>) k)"
proof -
  let ?d = "kdata k (f_fd f)"
  let ?b = "case f_buffer f of None \<Rightarrow> fresh_page P junk | Some b \<Rightarrow> b"
  have lb: "length ?b = P" using assms by (auto simp: w_fd_ok_def fresh_page_def split: option.splits)
  have ro: "f_oflag f \<noteq> O_RDONLY" using assms by (auto simp: w_fd_ok_def can_write_bits)
  show ?thesis
  proof (cases "f_index f * P < length ?d \<and> bit (f_oflag f) 1")
    case True
    then have "can_read (kflags k (f_fd f))"
      using assms(1) by (auto simp: w_fd_ok_def can_write_bits can_read_bits)
    with True assms(1) have rd: "sys_pread (set_errno 0 k) (f_fd f) True P (f_index f * P) =
        (Some (take P (drop (f_index f * P) ?d)), set_errno 0 k)"
      using sys_pread_good [of P "set_errno 0 k" "f_fd f" True "f_index f * P" P]
      by (simp add: w_fd_ok_def page_aligned_def)
    let ?bs = "take P (drop (f_index f * P) ?d)"
    have "sync_buf_from_file P junk f k =
        Done (f\<lparr>f_buffer := Some (splice_at 0 ?b 0 ?bs), f_dirty := False\<rparr>, set_errno 0 k)"
      using True assms rd by (simp add: sync_buf_from_file_def Let_def w_fd_ok_def)
    moreover have "length (splice_at 0 ?b 0 ?bs) = P" using lb by (simp del: option.case)
    moreover have "take (length ?d - f_index f * P) (splice_at 0 ?b 0 ?bs) = ?bs"
      using True lb by (simp add: splice_at_def min_def)
    ultimately show ?thesis by (auto simp: buf_matches_def)
  next
    case False
    then have "sync_buf_from_file P junk f k = Done (f\<lparr>f_buffer := Some ?b, f_dirty := False\<rparr>, k)"
      using assms ro by (auto simp: sync_buf_from_file_def Let_def w_fd_ok_def)
    with False lb show ?thesis by (auto simp: buf_matches_def)
  qed
qed

lemma sync_buf_to_file_ok:
  assumes "w_fd_ok P f k" "f_dirty f" "f_buffer f = Some b"
    and "f_append f \<longrightarrow> length (kdata k (f_fd f)) = f_index f * P"
    and "f_running_size f \<le> max (length (kdata k (f_fd f))) (f_index f * P + P)"
  shows "\<exists>k'. sync_buf_to_file P f k = Done (f\<lparr>f_dirty := False\<rparr>, k') \<and> w_fd_ok P f k' \<and> wsame (f_fd f) k k' \<and>
    kdata k' (f_fd f) = page_view P (kdata k (f_fd f)) (f_index f) b (f_running_size f)"
proof -
  have good: "wgood P (f_fd f) (set_errno 0 k)" using assms(1) by (simp add: w_fd_ok_def wgood_def)
  from disk.flush_law [of P "f_fd f" "set_errno 0 k" "f_index f" b "f_running_size f"] assms good
  obtain r k1 k2 where k2: "sys_pwrite (set_errno 0 k) (f_fd f) True b (f_index f * P) = (r, k1)"
    "sys_ftruncate k1 (f_fd f) (f_running_size f) = (0, k2)" "wgood P (f_fd f) k2" "wsame (f_fd f) (set_errno 0 k) k2"
    "kdata k2 (f_fd f) = page_view P (kdata k (f_fd f)) (f_index f) b (f_running_size f)"
    by (auto simp: w_fd_ok_def)
  moreover from k2 assms(1) have "w_fd_ok P f k2"
    by (auto simp: w_fd_ok_def wgood_def wsame_def kappend_def)
  ultimately show ?thesis using assms(2,3) by (auto simp: sync_buf_to_file_def wsame_def)
qed


lemma page_boundary: "L mod P = 0 \<Longrightarrow> i * P \<le> L \<Longrightarrow> L < i * P + P \<Longrightarrow> L = i * (P::nat)"
proof -
  assume a: "L mod P = 0" "i * P \<le> L" "L < i * P + P"
  then have "L div P = i" by (intro div_nat_eqI) (simp_all add: mult.commute)
  with a(1) show "L = i * P" using div_mult_mod_eq [of L P] by simp
qed

lemma append_page:
  assumes "winv P f k" "at_end f" "f_append f" "\<not> f_unaligned f"
  shows "length (kdata k (f_fd f)) = f_index f * P"
  using assms page_boundary [of "length (kdata k (f_fd f))" P "f_index f"]
  by (cases "f_dirty f") (auto simp: winv_def w_mode_ok_def at_end_def w_sizes_ok_def)

lemma loaded_view:
  assumes "winv P f k" "at_end f" "\<not> f_unaligned f" "f_buffer f = Some b"
  shows "f_view P f k = page_view P (kdata k (f_fd f)) (f_index f) b (f_running_size f)"
proof (cases "f_dirty f")
  case True
  with assms show ?thesis by (simp add: f_view_def)
next
  case False
  let ?d = "kdata k (f_fd f)"
  have L: "f_running_size f = length ?d" "f_index f * P \<le> length ?d" "length b = P"
    using assms False by (auto simp: winv_def w_sizes_ok_def w_fd_ok_def)
  have "take (length ?d - f_index f * P) b = take P (drop (f_index f * P) ?d)"
  proof (cases "f_append f")
    case True
    with assms have "length ?d = f_index f * P" by (intro append_page)
    then show ?thesis by simp
  next
    case False2: False
    with assms False show ?thesis by (auto simp: winv_def w_mode_ok_def buf_matches_def)
  qed
  then show ?thesis using page_view_clean [of ?d "f_index f" P b] L False by (simp add: f_view_def)
qed

text \<open>What one pass of the loop does, whichever way the bytes go.\<close>

definition chunk_done :: "nat \<Rightarrow> ef_file \<Rightarrow> kernel \<Rightarrow> byte list \<Rightarrow> nat \<Rightarrow> ef_file \<Rightarrow> kernel \<Rightarrow> bool" where
  "chunk_done P f k c po' f' k' \<longleftrightarrow>
     winv P f' k' \<and> at_end f' \<and> w_same f f' \<and> k_same (f_fd f) k k' \<and>
     po' = f_offset f' - f_index f' * P \<and> f_offset f' = f_offset f + length c \<and>
     f_view P f' k' = splice_at 0 (f_view P f k) (f_offset f) c"

lemma running_after:
  assumes "i * P \<le> off" "off < i * P + P" "off \<le> run" "off + t \<le> i * P + P"
  shows "(if off div P = run div P \<and> off + t > run then off + t else run) = max run (off + (t::nat))"
proof (cases "off + t > run")
  case True
  have "0 < P" using assms by simp
  have "off div P = i" "run div P = i"
    using assms True by (auto intro!: div_nat_eqI simp: mult.commute)
  with True show ?thesis by simp
qed auto

lemma curr_upd_same: "f_curr_size f = x \<Longrightarrow> f\<lparr>f_curr_size := x\<rparr> = f"
  by simp

lemma page_full_ok:
  assumes fd: "w_fd_ok P f k" and d: "f_dirty f" and u: "\<not> f_unaligned f" and b: "f_buffer f = Some b"
    and L: "L = length (kdata k (f_fd f))" and c: "f_curr_size f = L" and i: "f_index f * P \<le> L"
    and off: "f_offset f = (f_index f + 1) * P" and run: "f_running_size f = max L (f_offset f)"
    and app: "f_append f \<Longrightarrow> L = f_index f * P" and wo: "f_append f \<or> bit (f_oflag f) 1 \<or> L \<le> f_offset f"
  shows "\<exists>f' k'. page_full P junk f k = Done (0, f', k') \<and> winv P f' k' \<and> at_end f' \<and> w_same f f' \<and>
    k_same (f_fd f) k k' \<and> f_offset f' = f_offset f \<and> f_index f' = f_index f + 1 \<and> \<not> f_unaligned f' \<and>
    f_view P f' k' = page_view P (kdata k (f_fd f)) (f_index f) b (f_running_size f)"
proof -
  have le: "f_running_size f \<le> max (length (kdata k (f_fd f))) (f_index f * P + P)"
    using run off L by simp
  from sync_buf_to_file_ok [OF fd d b _ le] app L obtain k1 where
    k1: "sync_buf_to_file P f k = Done (f\<lparr>f_dirty := False\<rparr>, k1)" "w_fd_ok P f k1" "wsame (f_fd f) k k1"
      "kdata k1 (f_fd f) = page_view P (kdata k (f_fd f)) (f_index f) b (f_running_size f)"
    by auto
  have lb: "length b = P" "0 < P" using fd b by (simp_all add: w_fd_ok_def kgood_def)
  have L1: "length (kdata k1 (f_fd f)) = f_running_size f"
    using k1(4) lb run off L by (simp add: length_page_view)
  let ?f3 = "f\<lparr>f_index := f_index f + 1, f_curr_size := f_running_size f, f_dirty := False\<rparr>"
  have "w_fd_ok P ?f3 k1" using k1(2) by (simp add: w_fd_ok_def)
  from sync_buf_from_file_ok [OF this, of junk] L1 obtain b4 k2 where
    k2: "sync_buf_from_file P junk ?f3 k1 = Done (?f3\<lparr>f_buffer := Some b4, f_dirty := False\<rparr>, k2)" "length b4 = P"
      "k2 = k1 \<or> k2 = set_errno 0 k1"
      "f_running_size f \<le> (f_index f + 1) * P \<or> bit (f_oflag f) 1 \<longrightarrow>
         buf_matches P (?f3\<lparr>f_buffer := Some b4, f_dirty := False\<rparr>) k1"
    by auto
  let ?f4 = "?f3\<lparr>f_buffer := Some b4, f_dirty := False\<rparr>"
  have res: "page_full P junk f k = Done (0, ?f4, k2)"
    using k1(1) k2(1) run c off
    by (cases "f_curr_size f < P + f_index f * P") (auto simp: page_full_def Let_def max_def curr_upd_same)
  have k2': "w_fd_ok P ?f4 k2" "k_same (f_fd f) k k2" "kdata k2 (f_fd f) = kdata k1 (f_fd f)"
    "kdirect k2 (f_fd f) = kdirect k1 (f_fd f)"
    using k1(2,3) k2(2,3) by (auto simp: w_fd_ok_def wsame_def)
  have run': "f_running_size f \<le> (f_index f + 1) * P \<or> bit (f_oflag f) 1"
    using wo app run off by auto
  then have m: "buf_matches P ?f4 k2" using k2(3,4) by (auto simp: buf_matches_def)
  have "w_sizes_ok P ?f4 (length (kdata k2 (f_fd f)))"
    using k2' L1 run off lb by (simp add: w_sizes_ok_def)
  moreover have "w_mode_ok P ?f4 k2 (length (kdata k2 (f_fd f)))"
    using k2' L1 run off app wo u m by (auto simp: w_mode_ok_def)
  ultimately have "winv P ?f4 k2" using k2' by (simp add: winv_def)
  moreover have "at_end ?f4" using app run off by (simp add: at_end_def)
  ultimately show ?thesis using res k2' k1(4) u by (simp add: w_same_def f_view_def)
qed

lemma running_upd_same: "f_running_size f = x \<Longrightarrow> f\<lparr>f_running_size := x\<rparr> = f"
  by simp

lemma aligned_chunk_eq:
  assumes "f_buffer f = Some b" "memcpy b po buf wb t = Done b1"
    and r: "(if f_offset f div P = f_running_size f div P \<and> f_running_size f < f_offset f + t
      then f_offset f + t else f_running_size f) = r"
  shows "aligned_chunk P junk buf wb po t f k =
    (let g = f\<lparr>f_dirty := True, f_buffer := Some b1, f_running_size := r, f_offset := f_offset f + t\<rparr>
     in if po + t = P then page_full P junk g k else if P < po + t then Aborted else Done (po + t, g, k))"
proof (cases "f_offset f div P = f_running_size f div P \<and> f_running_size f < f_offset f + t")
  case True
  with r have "r = f_offset f + t" by simp
  with True assms(1,2) show ?thesis by (simp add: aligned_chunk_def Let_def)
next
  case False
  with r have r': "f_running_size f = r" by argo
  have "aligned_chunk P junk buf wb po t f k =
    (let g = f\<lparr>f_dirty := True, f_buffer := Some b1, f_offset := f_offset f + t\<rparr>
     in if po + t = P then page_full P junk g k else if P < po + t then Aborted else Done (po + t, g, k))"
    using False assms(1,2) by (auto simp: aligned_chunk_def Let_def)
  with r' show ?thesis by (simp add: running_upd_same)
qed

lemma aligned_chunk_ok:
  assumes w: "winv P f k" and e: "at_end f" and u: "\<not> f_unaligned f" and b: "f_buffer f = Some b"
    and po: "po = f_offset f - f_index f * P" and t: "0 < t" "t \<le> P - po" and wb: "wb + t \<le> length buf"
  shows "\<exists>po' f' k'. aligned_chunk P junk buf wb po t f k = Done (po', f', k') \<and>
    chunk_done P f k (take t (drop wb buf)) po' f' k' \<and> \<not> f_unaligned f'"
proof -
  let ?d = "kdata k (f_fd f)" and ?i = "f_index f" and ?c = "take t (drop wb buf)"
  let ?b = "splice_at 0 b po ?c" and ?r = "max (f_running_size f) (f_offset f + t)"
  have s: "f_curr_size f = length ?d" "?i * P \<le> f_offset f" "f_offset f < ?i * P + P" "?i * P \<le> length ?d"
    "length b = P" "f_offset f \<le> f_running_size f" "f_running_size f = max (length ?d) (f_offset f)"
    "w_fd_ok P f k"
    using w b by (auto simp: winv_def w_sizes_ok_def w_fd_ok_def split: if_splits)
  have lc: "length ?c = t" and off: "f_offset f = ?i * P + po" and pt: "po + t \<le> P" and P: "0 < P"
    using wb po s t by auto
  have cp: "memcpy b po buf wb t = Done ?b" using s wb pt by (simp add: memcpy_Done)
  let ?f3 = "f\<lparr>f_dirty := True, f_buffer := Some ?b, f_running_size := ?r, f_offset := f_offset f + t\<rparr>"
  have "(if f_offset f div P = f_running_size f div P \<and> f_running_size f < f_offset f + t
      then f_offset f + t else f_running_size f) = ?r"
    using running_after [of ?i P "f_offset f" "f_running_size f" t] s off pt by simp
  note eq = aligned_chunk_eq [OF b cp this, of junk k]
  have view: "page_view P ?d ?i ?b ?r = splice_at 0 (f_view P f k) (f_offset f) ?c"
    using loaded_view [OF w e u b] page_view_memcpy [of b P po ?c ?i ?d "f_running_size f" ?r] s lc off pt by simp
  have lb: "length ?b = P" using s lc pt by simp
  have app: "length ?d = ?i * P" if "f_append f"
    using append_page [OF w e that u] .
  show ?thesis
  proof (cases "po + t = P")
    case False
    with pt have "aligned_chunk P junk buf wb po t f k = Done (po + t, ?f3, k)"
      using False by (simp add: eq Let_def)
    moreover have "winv P ?f3 k" "at_end ?f3"
      using w e u s False pt off lb app
      by (auto simp: winv_def w_fd_ok_def w_sizes_ok_def w_mode_ok_def at_end_def)
    ultimately show ?thesis
      using view lc off u by (auto simp: chunk_done_def w_same_def f_view_def)
  next
    case True
    have fd3: "w_fd_ok P ?f3 k" using s lb by (simp add: w_fd_ok_def)
    have off': "f_offset f + t = (?i + 1) * P" using off True by simp
    have wo: "f_append f \<or> bit (f_oflag f) 1 \<or> length ?d \<le> f_offset f + t"
      using w by (auto simp: winv_def w_mode_ok_def)
    define g where "g = ?f3"
    have g: "f_fd g = f_fd f" "f_index g = ?i" "f_running_size g = ?r" "f_offset g = f_offset f + t" "f_dirty g"
      "f_buffer g = Some ?b" "f_curr_size g = length ?d" "f_unaligned g = f_unaligned f" "f_oflag g = f_oflag f"
      "w_same f g" "w_fd_ok P g k"
      using s fd3 by (simp_all add: g_def w_same_def)
    have "\<exists>f' k'. page_full P junk g k = Done (0, f', k') \<and> winv P f' k' \<and> at_end f' \<and> w_same g f' \<and>
        k_same (f_fd g) k k' \<and> f_offset f' = f_offset g \<and> f_index f' = f_index g + 1 \<and> \<not> f_unaligned f' \<and>
        f_view P f' k' = page_view P (kdata k (f_fd g)) (f_index g) ?b (f_running_size g)"
      by (rule page_full_ok [OF g(11) g(5) _ g(6) refl]) (use s off' app u wo g in simp_all)
    then obtain f' k' where
      f': "page_full P junk g k = Done (0, f', k')" "winv P f' k'" "at_end f'" "w_same g f'"
        "k_same (f_fd g) k k'" "f_offset f' = f_offset g" "f_index f' = f_index g + 1" "\<not> f_unaligned f'"
        "f_view P f' k' = page_view P (kdata k (f_fd g)) (f_index g) ?b (f_running_size g)"
      by blast
    have res: "aligned_chunk P junk buf wb po t f k = Done (0, f', k')"
      using True f'(1) by (simp add: eq Let_def g_def)
    have "chunk_done P f k ?c 0 f' k'"
      using f' g view lc off' w_same_trans [OF g(10) f'(4)] by (simp add: chunk_done_def)
    with res f'(8) show ?thesis by blast
  qed
qed

lemma direct_on_proj:
  assumes "kfd_of k fd \<noteq> None"
  shows "kdata (direct_on k fd) fd = kdata k fd" "kgood P (direct_on k fd) fd = kgood P k fd"
    "can_read (kflags (direct_on k fd) fd) = can_read (kflags k fd)"
    "can_write (kflags (direct_on k fd) fd) = can_write (kflags k fd)"
    "kappend (direct_on k fd) fd = kappend k fd" "k_same fd k (direct_on k fd)"
  using assms sys_setfl_proj [OF assms] k_same_setfl [OF assms]
  by (simp_all add: direct_on_def sys_getfl_good kappend_def bit_simps)

lemma direct_off_proj:
  assumes "kfd_of k fd \<noteq> None"
  shows "kdata (direct_off k fd) fd = kdata k fd" "kgood P (direct_off k fd) fd = kgood P k fd"
    "can_read (kflags (direct_off k fd) fd) = can_read (kflags k fd)"
    "can_write (kflags (direct_off k fd) fd) = can_write (kflags k fd)"
    "kappend (direct_off k fd) fd = kappend k fd" "k_same fd k (direct_off k fd)" "\<not> kdirect (direct_off k fd) fd"
  using assms sys_setfl_proj [OF assms] k_same_setfl [OF assms]
  by (simp_all add: direct_off_def sys_getfl_good kappend_def Let_def bit_simps)

lemma unaligned_chunk_ok:
  assumes w: "winv P f k" and e: "at_end f" and u: "f_unaligned f"
    and po: "po = f_offset f - f_index f * P" and t: "0 < t" "t \<le> P - po" and wb: "t \<le> length buf"
  shows "\<exists>po' f' k'. unaligned_chunk P junk buf po t f k = Done (po', f', k') \<and>
    chunk_done P f k (take t buf) po' f' k' \<and> (f_unaligned f' \<longrightarrow> t < P - po)"
proof -
  let ?fd = "f_fd f" and ?d = "kdata k (f_fd f)" and ?i = "f_index f" and ?c = "take t buf"
  have s: "f_curr_size f = length ?d" "?i * P \<le> f_offset f" "f_offset f < ?i * P + P" "f_append f"
    "\<not> f_dirty f" "f_running_size f = length ?d" "f_offset f = length ?d" "w_fd_ok P f k" "\<not> kdirect k ?fd"
    "kappend k ?fd" "kgood P k ?fd" "can_write (kflags k ?fd)"
    using w u e by (auto simp: winv_def w_sizes_ok_def w_mode_ok_def w_fd_ok_def at_end_def split: if_splits)
  let ?k1 = "kset_data (kino k ?fd) (?d @ ?c) (set_errno 0 k)"
  have "sys_pwrite (set_errno 0 k) ?fd False ?c (f_curr_size f) = (int t, ?k1)"
    using sys_pwrite_good [of P "set_errno 0 k" ?fd False "f_curr_size f" ?c] s wb
    by (simp add: page_aligned_def kpos_def splice_at_end)
  note pw = this
  have k1: "kdata ?k1 ?fd = ?d @ ?c" "k_same ?fd k ?k1" "w_fd_ok P f ?k1" "\<not> kdirect ?k1 ?fd"
    using s by (simp_all add: w_fd_ok_def)
  have flg: "any_flag (O_APPEND OR O_WRONLY) (f_oflag f)" by (subst any_flag_or) (simp add: s(4))
  have off: "f_offset f = ?i * P + po" using po s(2) by simp
  have view: "f_view P f k = ?d" using s(5) by (simp add: f_view_def)
  let ?f1 = "f\<lparr>f_offset := f_offset f + t, f_curr_size := f_curr_size f + t, f_running_size := f_running_size f + t\<rparr>"
  show ?thesis
  proof (cases "po + t = P")
    case False
    have "unaligned_chunk P junk buf po t f k = Done (po + t, ?f1, ?k1)"
      using False flg wb pw by (simp add: unaligned_chunk_def Let_def)
    moreover have "winv P ?f1 ?k1" using False t s k1 off wb u
      by (auto simp: winv_def w_fd_ok_def w_sizes_ok_def w_mode_ok_def)
    moreover have "f_view P ?f1 ?k1 = splice_at 0 (f_view P f k) (f_offset f) ?c"
      using s k1 view by (simp add: f_view_def splice_at_end)
    ultimately show ?thesis using s off k1 wb False t
      by (auto simp: chunk_done_def at_end_def w_same_def)
  next
    case True
    let ?f2 = "?f1\<lparr>f_unaligned := False, f_dirty := False, f_index := ?i + 1\<rparr>"
    let ?k2 = "direct_on ?k1 ?fd"
    have o1: "kfd_of ?k1 ?fd \<noteq> None" using s(11) by (simp add: kgood_def)
    note d = direct_on_proj [OF o1]
    have L: "length (kdata ?k2 ?fd) = (?i + 1) * P" "kdata ?k2 ?fd = ?d @ ?c"
      using d(1) k1(1) s(7) off True wb by simp_all
    have fd2: "w_fd_ok P ?f2 ?k2" using d k1(3) by (simp add: w_fd_ok_def)
    from sync_buf_from_file_ok [OF fd2, of junk] s L wb obtain b k3 where
      k3: "sync_buf_from_file P junk ?f2 ?k2 = Done (?f2\<lparr>f_buffer := Some b, f_dirty := False\<rparr>, k3)" "length b = P"
        "k3 = ?k2 \<or> k3 = set_errno 0 ?k2"
      by auto
    let ?f3 = "?f2\<lparr>f_buffer := Some b, f_dirty := False\<rparr>"
    have k3': "kdata k3 ?fd = ?d @ ?c" "k_same ?fd k k3" "w_fd_ok P ?f3 k3"
      using k3 L fd2 k_same_trans [OF k1(2) d(6)] by (auto simp: w_fd_ok_def)
    have res: "unaligned_chunk P junk buf po t f k = Done (0, ?f3, k3)"
      using True flg wb pw k3(1) by (simp add: unaligned_chunk_def Let_def)
    have Lt: "length ?d + t = (?i + 1) * P" "(length ?d + t) mod P = 0" "0 < P"
      using L wb s(11) by (simp_all add: kgood_def)
    have w3: "winv P ?f3 k3"
      using k3' Lt s wb by (simp add: winv_def w_sizes_ok_def w_mode_ok_def)
    have v3: "f_view P ?f3 k3 = splice_at 0 (f_view P f k) (f_offset f) ?c"
      using s k3' view by (simp add: f_view_def splice_at_end)
    have "at_end ?f3" "w_same f ?f3" "0 = f_offset ?f3 - f_index ?f3 * P" "f_offset ?f3 = f_offset f + length ?c"
      "\<not> f_unaligned ?f3"
      using s Lt wb by (simp_all add: at_end_def w_same_def)
    with res w3 v3 k3'(2) show ?thesis unfolding chunk_done_def by blast
  qed
qed

subsection \<open>One task\<close>

lemma load_ok:
  assumes w: "winv P f k" and e: "at_end f"
  shows "\<exists>f1 k1. (if f_buffer f = None \<and> \<not> f_dirty f then sync_buf_from_file P junk f k else Done (f, k)) = Done (f1, k1) \<and>
    winv P f1 k1 \<and> at_end f1 \<and> w_same f f1 \<and> k_same (f_fd f) k k1 \<and> f_view P f1 k1 = f_view P f k \<and>
    f_offset f1 = f_offset f \<and> f_index f1 = f_index f \<and> f_unaligned f1 = f_unaligned f \<and> f_buffer f1 \<noteq> None"
proof (cases "f_buffer f = None \<and> \<not> f_dirty f")
  case True
  let ?d = "kdata k (f_fd f)"
  from w have "w_fd_ok P f k" "f_curr_size f = length ?d" by (auto simp: winv_def w_sizes_ok_def)
  from sync_buf_from_file_ok [OF this, of junk] obtain b k' where
    b: "sync_buf_from_file P junk f k = Done (f\<lparr>f_buffer := Some b, f_dirty := False\<rparr>, k')" "length b = P"
      "k' = k \<or> k' = set_errno 0 k"
      "length ?d \<le> f_index f * P \<or> bit (f_oflag f) 1 \<longrightarrow> buf_matches P (f\<lparr>f_buffer := Some b, f_dirty := False\<rparr>) k"
    by blast
  let ?f = "f\<lparr>f_buffer := Some b, f_dirty := False\<rparr>"
  have k': "kdata k' (f_fd f) = ?d" "k_same (f_fd f) k k'" "kdirect k' (f_fd f) = kdirect k (f_fd f)"
    using b(3) by auto
  have m: "buf_matches P ?f k'" if "\<not> f_append f \<or> f_offset f < length ?d"
  proof -
    have "buf_matches P ?f k" using b(4) w e that True
      by (auto simp: winv_def w_mode_ok_def at_end_def w_sizes_ok_def split: if_splits)
    with k' show ?thesis by (simp add: buf_matches_def)
  qed
  have "w_fd_ok P ?f k'" using b(2,3) w by (auto simp: winv_def w_fd_ok_def)
  moreover have "w_sizes_ok P ?f (length ?d)" using w True by (auto simp: winv_def w_sizes_ok_def)
  moreover have "w_mode_ok P ?f k' (length ?d)" using w True m k' by (auto simp: winv_def w_mode_ok_def)
  ultimately have "winv P ?f k'" using k' by (simp add: winv_def)
  with True b k' e show ?thesis by (auto simp: w_same_def f_view_def at_end_def)
next
  case False
  with w e show ?thesis by (auto simp: winv_def w_sizes_ok_def split: if_splits)
qed

lemma write_loop_ok:
  assumes "winv P f k" "at_end f" "po = f_offset f - f_index f * P" "rem \<le> fuel" "wb + rem \<le> length buf"
    and "f_unaligned f \<and> 0 < rem \<longrightarrow> wb = 0"
  shows "\<exists>f' k'. write_loop fuel P junk buf po rem wb bt f k = Done (bt + rem, f', k') \<and>
    winv P f' k' \<and> at_end f' \<and> w_same f f' \<and> k_same (f_fd f) k k' \<and>
    f_offset f' = f_offset f + rem \<and>
    f_view P f' k' = splice_at 0 (f_view P f k) (f_offset f) (take rem (drop wb buf))"
  using assms
proof (induction fuel arbitrary: po rem wb bt f k)
  case 0
  then show ?case by (auto simp: splice_at_Nil_inside length_f_view winv_def w_sizes_ok_def split: if_splits)
next
  case (Suc fuel)
  show ?case
  proof (cases "rem = 0")
    case True
    have "f_offset f \<le> length (f_view P f k)"
      using Suc.prems(1) by (auto simp: length_f_view) (auto simp: winv_def w_sizes_ok_def split: if_splits)
    with True Suc.prems show ?thesis by (auto simp: splice_at_Nil_inside)
  next
    case False
    define t where "t = (if po \<le> P \<and> P - po < rem then P - po else rem)"
    from load_ok [OF Suc.prems(1,2), of junk] obtain f1 k1 where
      l: "(if f_buffer f = None \<and> \<not> f_dirty f then sync_buf_from_file P junk f k else Done (f, k)) = Done (f1, k1)"
        "winv P f1 k1" "at_end f1" "w_same f f1" "k_same (f_fd f) k k1" "f_view P f1 k1 = f_view P f k"
        "f_offset f1 = f_offset f" "f_index f1 = f_index f" "f_unaligned f1 = f_unaligned f" "f_buffer f1 \<noteq> None"
      by blast
    have po: "po < P" "po = f_offset f1 - f_index f1 * P"
      using Suc.prems(1,3) l by (auto simp: winv_def w_sizes_ok_def)
    have t: "0 < t" "t \<le> P - po" "t \<le> rem" "wb + t \<le> length buf" "t < P - po \<longrightarrow> t = rem"
      using po False Suc.prems(5) by (auto simp: t_def)
    have "\<exists>po2 f2 k2. (if f_unaligned f1 then unaligned_chunk P junk buf po t f1 k1
        else aligned_chunk P junk buf wb po t f1 k1) = Done (po2, f2, k2) \<and>
        chunk_done P f1 k1 (take t (drop wb buf)) po2 f2 k2 \<and> (f_unaligned f2 \<and> 0 < rem - t \<longrightarrow> wb + t = 0)"
    proof (cases "f_unaligned f1")
      case True
      with Suc.prems(6) l(9) False have "wb = 0" by simp
      with unaligned_chunk_ok [OF l(2,3) True po(2) t(1,2), of buf junk] t(4) obtain po2 f2 k2 where
        "unaligned_chunk P junk buf po t f1 k1 = Done (po2, f2, k2)"
        "chunk_done P f1 k1 (take t buf) po2 f2 k2" "f_unaligned f2 \<longrightarrow> t < P - po" by auto
      with True t(5) \<open>wb = 0\<close> show ?thesis by auto
    next
      case False
      obtain b where "f_buffer f1 = Some b" using l(10) by blast
      from aligned_chunk_ok [OF l(2,3) False this po(2) t(1,2,4), of junk] obtain po2 f2 k2 where
        c: "aligned_chunk P junk buf wb po t f1 k1 = Done (po2, f2, k2)"
          "chunk_done P f1 k1 (take t (drop wb buf)) po2 f2 k2" "\<not> f_unaligned f2" by blast
      with False show ?thesis by auto
    qed
    then obtain po2 f2 k2 where c: "(if f_unaligned f1 then unaligned_chunk P junk buf po t f1 k1
        else aligned_chunk P junk buf wb po t f1 k1) = Done (po2, f2, k2)"
        "chunk_done P f1 k1 (take t (drop wb buf)) po2 f2 k2" "f_unaligned f2 \<and> 0 < rem - t \<longrightarrow> wb + t = 0"
      by blast
    have "\<exists>f' k'. write_loop fuel P junk buf po2 (rem - t) (wb + t) (bt + t) f2 k2 = Done (bt + t + (rem - t), f', k') \<and>
      winv P f' k' \<and> at_end f' \<and> w_same f2 f' \<and> k_same (f_fd f2) k2 k' \<and>
      f_offset f' = f_offset f2 + (rem - t) \<and>
      f_view P f' k' = splice_at 0 (f_view P f2 k2) (f_offset f2) (take (rem - t) (drop (wb + t) buf))"
      by (rule Suc.IH) (use c Suc.prems(4,5) t in \<open>auto simp: chunk_done_def\<close>)
    then obtain f' k' where r: "write_loop fuel P junk buf po2 (rem - t) (wb + t) (bt + t) f2 k2 =
        Done (bt + t + (rem - t), f', k')"
      "winv P f' k'" "at_end f'" "w_same f2 f'" "k_same (f_fd f2) k2 k'" "f_offset f' = f_offset f2 + (rem - t)"
      "f_view P f' k' = splice_at 0 (f_view P f2 k2) (f_offset f2) (take (rem - t) (drop (wb + t) buf))"
      by blast
    have fds: "f_fd f1 = f_fd f" "f_fd f2 = f_fd f" using l(4) c(2) by (simp_all add: chunk_done_def w_same_def)
    have same: "w_same f f'" "k_same (f_fd f) k k'"
      using w_same_trans [OF l(4) w_same_trans [OF _ r(4), of f1]] c(2) r(5) fds
        k_same_trans [OF l(5) k_same_trans [of "f_fd f" k1 k2 k']]
      by (simp_all add: chunk_done_def)
    have off: "f_offset f' = f_offset f + rem" using r(6) c(2) l(7) t by (simp add: chunk_done_def)
    have "f_offset f \<le> length (f_view P f k)"
      using l(2,7) length_f_view [OF l(2)] l(6) by (auto simp: winv_def w_sizes_ok_def split: if_splits)
    then have "f_view P f' k' = splice_at 0 (f_view P f k) (f_offset f)
        (take t (drop wb buf) @ take (rem - t) (drop (wb + t) buf))"
      using splice_at_splice_at_adjacent [of "f_offset f" "f_view P f k" 0 "take t (drop wb buf)"
        "take (rem - t) (drop (wb + t) buf)"] r(7) c(2) l(6,7) t(4) by (simp add: chunk_done_def)
    also have "take t (drop wb buf) @ take (rem - t) (drop (wb + t) buf) = take rem (drop wb buf)"
      using t(3) by (metis add.commute drop_drop le_add_diff_inverse take_add)
    finally have view: "f_view P f' k' = splice_at 0 (f_view P f k) (f_offset f) (take rem (drop wb buf))" .
    have "write_loop (Suc fuel) P junk buf po rem wb bt f k = Done (bt + rem, f', k')"
      using False l(1) c(1) r(1) t(3) unfolding write_loop.simps t_def [symmetric] by (simp add: Let_def t_def [symmetric])
    with r(2,3) same off view show ?thesis by blast
  qed
qed

text \<open>What a task does to the contents of a file and its offset.\<close>

definition task_data :: "write_task \<Rightarrow> byte list" where
  "task_data w = take (w_nbyte w) (case w_buf w of None \<Rightarrow> [] | Some b \<Rightarrow> b)"

definition task_ok :: "write_task \<Rightarrow> bool" where
  "task_ok w \<longleftrightarrow> (w_cmd w = file_write_evt \<longrightarrow> length (task_data w) = w_nbyte w \<and> w_nbyte w < 2147483648)"

definition spec_write :: "bool \<Rightarrow> byte list \<Rightarrow> byte list \<times> nat \<Rightarrow> byte list \<times> nat" where
  "spec_write app d s =
     (let (v, off) = s; pos = (if app then length v else off)
      in (splice_at 0 v pos d, pos + length d))"

definition spec_task :: "bool \<Rightarrow> write_task \<Rightarrow> byte list \<times> nat \<Rightarrow> byte list \<times> nat" where
  "spec_task app w s = (case w_cmd w of file_write_evt \<Rightarrow> spec_write app (task_data w) s | file_fsync_evt \<Rightarrow> s)"

definition f_abs :: "nat \<Rightarrow> ef_file \<Rightarrow> kernel \<Rightarrow> byte list \<times> nat" where
  "f_abs P f k = (f_view P f k, f_offset f)"

lemma append_position_ok:
  assumes "winv P f k"
  shows "\<exists>f1. append_position P f k = Done f1 \<and> winv P f1 k \<and> at_end f1 \<and> w_same f f1 \<and>
    f_view P f1 k = f_view P f k \<and> f_offset f1 = (if f_append f then length (f_view P f k) else f_offset f)"
proof -
  have P: "0 < P" using assms by (simp add: winv_def w_fd_ok_def kgood_def)
  consider "\<not> f_append f" | "f_append f" "f_dirty f" | "f_append f" "\<not> f_dirty f" by blast
  then show ?thesis
  proof cases
    case 1
    with assms show ?thesis by (simp add: append_position_def at_end_def)
  next
    case 2
    with assms have "f_index f = f_curr_size f div P" "f_offset f = f_running_size f"
      using P by (auto simp: winv_def w_sizes_ok_def w_mode_ok_def)
    with 2 assms show ?thesis by (simp add: append_position_def at_end_def length_f_view)
  next
    case 3
    let ?L = "length (kdata k (f_fd f))"
    let ?f1 = "f\<lparr>f_offset := ?L, f_index := ?L div P\<rparr>"
    let ?f2 = "if f_index f \<noteq> ?L div P then ?f1\<lparr>f_buffer := None\<rparr> else ?f1"
    have "append_position P f k = Done ?f2"
      using 3 assms sys_lseek_end_good [of P k "f_fd f"]
      by (simp add: append_position_def Let_def winv_def w_fd_ok_def)
    moreover have "?L div P * P \<le> ?L" "?L < ?L div P * P + P"
      using P by (simp_all add: dividend_less_div_times add.commute)
    then have "winv P ?f2 k"
      using 3 assms by (simp add: winv_def w_fd_ok_def w_sizes_ok_def w_mode_ok_def)
    ultimately show ?thesis using 3 assms
      by (simp add: at_end_def w_same_def f_view_def winv_def w_sizes_ok_def)
  qed
qed

lemma ef_one_single_write_ok:
  assumes w: "winv P f k" and t: "task_ok w" "w_cmd w = file_write_evt"
  shows "\<exists>f' k'. ef_one_single_write P junk f k w = Done (w_nbyte w, f', k') \<and> winv P f' k' \<and>
    w_same f f' \<and> k_same (f_fd f) k k' \<and> f_abs P f' k' = spec_write (f_append f) (task_data w) (f_abs P f k)"
proof -
  let ?buf = "case w_buf w of None \<Rightarrow> [] | Some b \<Rightarrow> b"
  from append_position_ok [OF w] obtain f1 where
    f1: "append_position P f k = Done f1" "winv P f1 k" "at_end f1" "w_same f f1" "f_view P f1 k = f_view P f k"
      "f_offset f1 = (if f_append f then length (f_view P f k) else f_offset f)" by blast
  have n: "w_nbyte w \<le> length ?buf" "c_int (w_nbyte w) = int (w_nbyte w)" "take (w_nbyte w) ?buf = task_data w"
    "length (task_data w) = w_nbyte w"
    using t by (auto simp: task_ok_def task_data_def min_def split: if_splits)
  have "\<exists>f' k'. write_loop (Suc (2 * w_nbyte w)) P junk ?buf (f_offset f1 - f_index f1 * P) (w_nbyte w) 0 0 f1 k =
      Done (0 + w_nbyte w, f', k') \<and> winv P f' k' \<and> at_end f' \<and> w_same f1 f' \<and> k_same (f_fd f1) k k' \<and>
      f_offset f' = f_offset f1 + w_nbyte w \<and>
      f_view P f' k' = splice_at 0 (f_view P f1 k) (f_offset f1) (take (w_nbyte w) (drop 0 ?buf))"
    by (rule write_loop_ok [OF f1(2,3) refl]) (use n in simp_all)
  then obtain f' k' where l: "write_loop (Suc (2 * w_nbyte w)) P junk ?buf (f_offset f1 - f_index f1 * P) (w_nbyte w) 0 0 f1 k =
      Done (w_nbyte w, f', k')" "winv P f' k'" "w_same f1 f'" "k_same (f_fd f1) k k'"
      "f_offset f' = f_offset f1 + w_nbyte w" "f_view P f' k' = splice_at 0 (f_view P f k) (f_offset f1) (task_data w)"
    unfolding f1(5) drop_0 n(3) add_0 by blast
  have "ef_one_single_write P junk f k w = Done (w_nbyte w, f', k')"
    using f1(1) l(1) n(2) by (simp add: ef_one_single_write_def Let_def del: write_loop.simps)
  moreover have "f_fd f1 = f_fd f" using f1(4) by (simp add: w_same_def)
  ultimately show ?thesis
    using l f1(6) n(4) w_same_trans [OF f1(4) l(3)] by (simp add: f_abs_def spec_write_def Let_def)
qed

lemma ef_file_fsync_ok:
  assumes w: "winv P f k"
  shows "\<exists>f' k'. ef_file_fsync P f k = Done (f', k') \<and> winv P f' k' \<and> w_same f f' \<and>
    k_same (f_fd f) k k' \<and> f_abs P f' k' = f_abs P f k \<and> \<not> f_dirty f' \<and> kdata k' (f_fd f) = f_view P f k"
proof -
  let ?fd = "f_fd f" and ?d = "kdata k (f_fd f)" and ?i = "f_index f"
  have s: "w_fd_ok P f k" "f_curr_size f = length ?d" "?i * P \<le> f_offset f" "f_offset f < ?i * P + P" "?i * P \<le> length ?d"
    "f_offset f \<le> f_running_size f" "f_running_size f = max (length ?d) (f_offset f)"
    using w by (auto simp: winv_def w_sizes_ok_def split: if_splits)
  have "\<exists>k1. sync_buf_to_file P f k = Done (f\<lparr>f_dirty := False\<rparr>, k1) \<and> w_fd_ok P f k1 \<and> wsame ?fd k k1 \<and>
    kdata k1 ?fd = f_view P f k"
  proof (cases "f_dirty f")
    case True
    then obtain b where b: "f_buffer f = Some b" using w by (auto simp: winv_def w_sizes_ok_def)
    have "f_append f \<longrightarrow> length ?d = ?i * P" using True w by (auto simp: winv_def w_mode_ok_def)
    moreover have "f_running_size f \<le> max (length ?d) (?i * P + P)" using s by simp
    ultimately show ?thesis using sync_buf_to_file_ok [OF s(1) True b] True b by (simp add: f_view_def)
  next
    case False
    then have "f\<lparr>f_dirty := False\<rparr> = f" by simp
    with False s(1) show ?thesis by (simp add: sync_buf_to_file_def f_view_def wsame_def)
  qed
  then obtain k1 where k1: "sync_buf_to_file P f k = Done (f\<lparr>f_dirty := False\<rparr>, k1)" "w_fd_ok P f k1"
    "k_same ?fd k k1" "kflags k1 ?fd = kflags k ?fd" "kdata k1 ?fd = f_view P f k"
    by (auto simp: wsame_def)
  have L1: "length (kdata k1 ?fd) = f_running_size f" using k1(5) length_f_view [OF w] by simp
  let ?f2 = "f\<lparr>f_dirty := False, f_curr_size := f_running_size f\<rparr>"
  have np: "f_offset f - ?i * P \<noteq> P" using s by simp
  have m: "buf_matches P ?f2 k1" if "f_dirty f \<or> buf_matches P f k"
  proof (cases "f_dirty f")
    case True
    then obtain b where b: "f_buffer f = Some b" "length b = P"
      using w by (auto simp: winv_def w_sizes_ok_def w_fd_ok_def)
    then show ?thesis
      using page_view_matches [of b P ?i ?d "f_running_size f"] True s L1 k1(5) by (simp add: buf_matches_def f_view_def)
  next
    case False
    with that k1(5) show ?thesis by (simp add: buf_matches_def f_view_def)
  qed
  have wo: "bit (f_oflag f) 1 \<or> f_running_size f \<le> f_offset f \<and> (f_buffer f = None \<longrightarrow> f_running_size f \<le> ?i * P)"
    if "\<not> f_append f"
    using w that s(7) by (auto simp: winv_def w_mode_ok_def w_sizes_ok_def split: if_splits)
  have na: "\<not> f_unaligned f" "f_dirty f \<or> buf_matches P f k" if "\<not> f_append f"
    using w that by (auto simp: winv_def w_mode_ok_def)
  have am: "f_offset f < f_running_size f \<longrightarrow> buf_matches P ?f2 k1" if "f_append f"
    using w that m s(7) by (auto simp: winv_def w_mode_ok_def w_sizes_ok_def split: if_splits)
  show ?thesis
  proof (cases "f_append f")
    case True
    let ?k2 = "direct_off k1 ?fd" and ?f3 = "?f2\<lparr>f_unaligned := True\<rparr>"
    have o1: "kfd_of k1 ?fd \<noteq> None" using k1(2) by (simp add: w_fd_ok_def kgood_def)
    note d = direct_off_proj [OF o1]
    have "ef_file_fsync P f k = Done (?f3, ?k2)" using k1(1) np True by (simp add: ef_file_fsync_def Let_def)
    moreover have "winv P ?f3 ?k2"
      using d k1(2) L1 s am True
      by (auto simp: winv_def w_fd_ok_def w_sizes_ok_def w_mode_ok_def buf_matches_def)
    ultimately show ?thesis
      using d k1 k_same_trans [OF k1(3) d(6)] by (auto simp: f_abs_def f_view_def w_same_def)
  next
    case False
    have "ef_file_fsync P f k = Done (?f2, k1)" using k1(1) np False by (simp add: ef_file_fsync_def Let_def)
    moreover have "winv P ?f2 k1"
      using k1(2) L1 s m na False wo by (auto simp: winv_def w_fd_ok_def w_sizes_ok_def w_mode_ok_def)
    ultimately show ?thesis
      using k1 by (auto simp: f_abs_def f_view_def w_same_def)
  qed
qed


subsection \<open>A batch of tasks refines the specification\<close>

text \<open>One step of the loop of \<open>ef_file_write\<close> on the state (bytes transferred, file, kernel).\<close>

definition write_one :: "nat \<Rightarrow> (nat \<Rightarrow> byte) \<Rightarrow> write_task \<Rightarrow> nat \<times> ef_file \<times> kernel \<Rightarrow> (nat \<times> ef_file \<times> kernel) outcome" where
  "write_one P junk w s = (case s of (n, f, k) \<Rightarrow> write_tasks P junk [w] n f k)"

lemma write_tasks_steps: "write_tasks P junk ws n f k = run_steps (write_one P junk) ws (n, f, k)"
proof (induction ws arbitrary: n f k)
  case (Cons w ws)
  show ?case
  proof (cases "w_cmd w")
    case file_write_evt
    with Cons show ?thesis
      by (cases "ef_one_single_write P junk f (set_errno 0 k) w") (auto simp: write_one_def)
  next
    case file_fsync_evt
    with Cons show ?thesis
      by (cases "ef_file_fsync P f (set_errno 0 k)") (auto simp: write_one_def)
  qed
qed simp

definition batch_inv :: "nat \<Rightarrow> ef_file \<Rightarrow> kernel \<Rightarrow> nat \<times> ef_file \<times> kernel \<Rightarrow> bool" where
  "batch_inv P f0 k0 s = (case s of (n, f, k) \<Rightarrow> winv P f k \<and> w_same f0 f \<and> k_same (f_fd f0) k0 k)"

definition batch_abs :: "nat \<Rightarrow> nat \<times> ef_file \<times> kernel \<Rightarrow> byte list \<times> nat" where
  "batch_abs P s = (case s of (n, f, k) \<Rightarrow> f_abs P f k)"

lemma winv_set_errno [simp]: "winv P f (set_errno e k) = winv P f k" "f_abs P f (set_errno e k) = f_abs P f k"
  "f_view P f (set_errno e k) = f_view P f k"
  by (simp_all add: winv_def w_fd_ok_def w_mode_ok_def buf_matches_def f_abs_def f_view_def)

interpretation batch: simulation "batch_inv P f0 k0" "batch_abs P" task_ok "write_one P junk" "spec_task (f_append f0)"
proof
  fix s w
  assume i: "batch_inv P f0 k0 s" and t: "task_ok w"
  obtain n f k where s: "s = (n, f, k)" by (cases s)
  from i s have w: "winv P f (set_errno 0 k)" and sm: "w_same f0 f" "k_same (f_fd f0) k0 k"
    by (simp_all add: batch_inv_def)
  then have eq: "f_fd f = f_fd f0" "f_append f = f_append f0" by (simp_all add: w_same_def)
  show "\<exists>s'. write_one P junk w s = Done s' \<and> batch_inv P f0 k0 s' \<and> batch_abs P s' = spec_task (f_append f0) w (batch_abs P s)"
  proof (cases "w_cmd w")
    case file_write_evt
    from ef_one_single_write_ok [OF w t this, of junk] obtain f' k' where
      "ef_one_single_write P junk f (set_errno 0 k) w = Done (w_nbyte w, f', k')" "winv P f' k'" "w_same f f'"
      "k_same (f_fd f) k k'" "f_abs P f' k' = spec_write (f_append f) (task_data w) (f_abs P f k)" by auto
    with s sm eq file_write_evt w_same_trans [of f0 f f'] k_same_trans [of "f_fd f0" k0 k k'] show ?thesis
      by (simp add: write_one_def batch_inv_def batch_abs_def spec_task_def)
  next
    case file_fsync_evt
    from ef_file_fsync_ok [OF w] obtain f' k' where
      "ef_file_fsync P f (set_errno 0 k) = Done (f', k')" "winv P f' k'" "w_same f f'"
      "k_same (f_fd f) k k'" "f_abs P f' k' = f_abs P f k" by auto
    with s sm eq file_fsync_evt w_same_trans [of f0 f f'] k_same_trans [of "f_fd f0" k0 k k'] show ?thesis
      by (simp add: write_one_def batch_inv_def batch_abs_def spec_task_def)
  qed
qed

text \<open>A batch that ends with a flush leaves nothing in the page buffer.\<close>

lemma write_tasks_append:
  "write_tasks P junk (ws @ vs) n f k = obind (write_tasks P junk ws n f k) (\<lambda>(n', f', k'). write_tasks P junk vs n' f' k')"
proof (induction ws arbitrary: n f k)
  case (Cons w ws)
  show ?case
  proof (cases "w_cmd w")
    case file_write_evt
    with Cons show ?thesis by (cases "ef_one_single_write P junk f (set_errno 0 k) w") auto
  next
    case file_fsync_evt
    with Cons show ?thesis by (cases "ef_file_fsync P f (set_errno 0 k)") auto
  qed
qed simp

definition ends_flushed :: "write_task list \<Rightarrow> bool" where
  "ends_flushed ws \<longleftrightarrow> ws \<noteq> [] \<and> w_cmd (last ws) = file_fsync_evt"

lemma write_tasks_ok:
  assumes w: "winv P f k" "list_all task_ok ws"
  shows "\<exists>n' f' k'. write_tasks P junk ws n f k = Done (n', f', k') \<and> winv P f' k' \<and> w_same f f' \<and>
    k_same (f_fd f) k k' \<and> f_abs P f' k' = fold (spec_task (f_append f)) ws (f_abs P f k) \<and>
    (ends_flushed ws \<longrightarrow> \<not> f_dirty f')"
proof -
  have run: "\<exists>n' f' k'. write_tasks P junk vs n f k = Done (n', f', k') \<and> winv P f' k' \<and> w_same f f' \<and>
      k_same (f_fd f) k k' \<and> f_abs P f' k' = fold (spec_task (f_append f)) vs (f_abs P f k)" if "list_all task_ok vs" for vs
    using batch.run_law [of P f k "(n, f, k)" vs junk] w(1) that
    by (auto simp: batch_inv_def batch_abs_def write_tasks_steps split: prod.splits)
  from run [OF w(2)] obtain n' f' k' where r: "write_tasks P junk ws n f k = Done (n', f', k')" "winv P f' k'" "w_same f f'"
    "k_same (f_fd f) k k'" "f_abs P f' k' = fold (spec_task (f_append f)) ws (f_abs P f k)" by blast
  have "\<not> f_dirty f'" if e: "ends_flushed ws"
  proof -
    from e have ws: "ws = butlast ws @ [last ws]" and c: "w_cmd (last ws) = file_fsync_evt" by (simp_all add: ends_flushed_def)
    then have "list_all task_ok (butlast ws)" using w(2) by (metis list_all_append)
    from run [OF this] obtain n1 f1 k1 where
      l: "write_tasks P junk (butlast ws) n f k = Done (n1, f1, k1)" "winv P f1 k1" by blast
    from ef_file_fsync_ok [of P f1 "set_errno 0 k1"] l(2) obtain f2 k2 where
      z: "ef_file_fsync P f1 (set_errno 0 k1) = Done (f2, k2)" "\<not> f_dirty f2" by auto
    have "write_tasks P junk ws n f k = Done (n1, f2, k2)"
      using write_tasks_append [of P junk "butlast ws" "[last ws]" n f k] ws l(1) z(1) c by simp
    with r(1) z(2) show ?thesis by simp
  qed
  with r show ?thesis by blast
qed

end
