(* ===== verification/EfFile.thy ===== *)
theory EfFile
  imports EfWriter
begin

text \<open>
  The file layer of \<open>src/evio/ef_file.c\<close>: its global state and every function of the file, those the
  caller's thread runs (the \<open>ef_*\<close> interface), those the disk threads run (the tasks of
  \<open>sg_disk_io_thr_pool\<close>), the event loop of the file writer and the periodic \<open>slow_sync\<close>. Each of them
  is one step on the state. A wait for another thread is a \<open>Spins\<close> outcome, except in \<open>ef_close_api\<close>,
  which takes the steps that other threads make while it yields. \<open>errno\<close> is that of the thread whose
  step runs; memory is never exhausted.
\<close>

subsection \<open>State\<close>

datatype disk_task =
    T_open nat
  | T_close nat nat
  | T_read nat nat
  | T_readahead nat nat nat
  | T_write nat

datatype fw_task = Fw_write_req nat | Fw_write_cmpl nat | Fw_shutdown

text \<open>
  \<open>mem_junk\<close> and \<open>mem_garbage\<close> are what uninitialised memory holds. The threads of the module are
  represented by the queues they serve: \<open>sg_disk_io\<close> is the task queue of \<open>sg_disk_io_thr_pool\<close>, which names the pool
  (0 is the one that \<open>ef_init\<close> makes).
  \<open>sg_cb_log\<close> records the calls of the notification function.
\<close>

record ef_state =
  sg_open_files :: "nat option list"
  sg_handle_to_file_action :: "int list"
  sg_fd_queue :: "nat list"
  sg_disk_io :: "disk_task list"
  sg_file_writer_queue :: "fw_task list"
  sg_writer_shutdown :: bool
  sg_page_size :: nat
  sg_cb_func :: "nat option"
  sg_cb_data :: nat
  sg_cb_log :: "(nat \<times> nat \<times> file_oper_type \<times> nat) list"
  sg_ef_init_done :: bool
  sg_thr_pool_init_done :: bool
  sg_disk_io_thr_pool :: "nat option"
  ef_heap :: "nat \<Rightarrow> ef_file option"
  ef_brk :: nat
  kern :: kernel
  mem_junk :: "nat \<Rightarrow> byte"
  mem_garbage :: nat

abbreviation EF_MAX_FILES :: nat where
  "EF_MAX_FILES \<equiv> 128"

definition set_err :: "int \<Rightarrow> ef_state \<Rightarrow> ef_state" where
  "set_err e s = s\<lparr>kern := set_errno e (kern s)\<rparr>"

text \<open>\<open>sg_open_files[fd]\<close>; an index outside the array is not checked by the code.\<close>

definition slot :: "ef_state \<Rightarrow> int \<Rightarrow> nat option outcome" where
  "slot s fd =
     (if 0 \<le> fd \<and> nat fd < length (sg_open_files s) then Done (sg_open_files s ! nat fd) else Bad_access)"

definition file_at :: "ef_state \<Rightarrow> nat \<Rightarrow> ef_file outcome" where
  "file_at s a = of_ptr (ef_heap s a)"

definition put_file :: "nat \<Rightarrow> ef_file \<Rightarrow> ef_state \<Rightarrow> ef_state" where
  "put_file a f s = s\<lparr>ef_heap := (ef_heap s)(a \<mapsto> f)\<rparr>"

definition notify :: "nat \<Rightarrow> file_oper_type \<Rightarrow> ef_state \<Rightarrow> ef_state" where
  "notify fd oper s =
     (case sg_cb_func s of
        None \<Rightarrow> s
      | Some cb \<Rightarrow> s\<lparr>sg_cb_log := sg_cb_log s @ [(cb, fd, oper, sg_cb_data s)]\<rparr>)"

definition enqueue_task :: "disk_task \<Rightarrow> ef_state \<Rightarrow> ef_state" where
  "enqueue_task t s = s\<lparr>sg_disk_io := sg_disk_io s @ [t]\<rparr>"

definition enqueue_fwt :: "fw_task \<Rightarrow> ef_state \<Rightarrow> ef_state" where
  "enqueue_fwt t s = s\<lparr>sg_file_writer_queue := sg_file_writer_queue s @ [t]\<rparr>"

text \<open>The test \<open>_action && _action->_cmd == oper\<close>, and the same with the status.\<close>

definition has_action :: "file_oper_type \<Rightarrow> ef_file \<Rightarrow> bool" where
  "has_action oper f = (case f_action f of None \<Rightarrow> False | Some act \<Rightarrow> a_cmd act = oper)"

definition action_complete :: "ef_file \<Rightarrow> bool" where
  "action_complete f = (case f_action f of None \<Rightarrow> False | Some act \<Rightarrow> a_status act = ACTION_COMPLETE)"

subsection \<open>Slots of the table of open files\<close>

definition st_enqueue_sg_fd_queue :: "nat \<Rightarrow> ef_state \<Rightarrow> ef_state" where
  "st_enqueue_sg_fd_queue fd s = s\<lparr>sg_fd_queue := sg_fd_queue s @ [fd]\<rparr>"

definition st_dequeue_sg_fd_queue :: "ef_state \<Rightarrow> int \<times> ef_state" where
  "st_dequeue_sg_fd_queue s =
     (case sg_fd_queue s of [] \<Rightarrow> (-1, s) | fd # fds \<Rightarrow> (int fd, s\<lparr>sg_fd_queue := fds\<rparr>))"

definition setup_fd_slots :: "ef_state \<Rightarrow> ef_state" where
  "setup_fd_slots s = fold st_enqueue_sg_fd_queue [0..<EF_MAX_FILES] s"

text \<open>The spin lock \<open>sg_handle_to_file_action[fd]\<close>; the loop resets the expected value.\<close>

definition htfa_lock :: "nat \<Rightarrow> ef_state \<Rightarrow> ef_state outcome" where
  "htfa_lock fd s =
     (if sg_handle_to_file_action s ! fd = 0
      then Done (s\<lparr>sg_handle_to_file_action := (sg_handle_to_file_action s)[fd := 1]\<rparr>) else Spins)"

definition htfa_unlock :: "nat \<Rightarrow> ef_state \<Rightarrow> ef_state" where
  "htfa_unlock fd s =
     (if sg_handle_to_file_action s ! fd = 1
      then s\<lparr>sg_handle_to_file_action := (sg_handle_to_file_action s)[fd := 0]\<rparr> else s)"

text \<open>\<open>EF_FILE_CLEANUP(sg_open_files[fd])\<close>: the action, the buffers and the file are freed.\<close>

definition EF_FILE_CLEANUP :: "nat \<Rightarrow> nat \<Rightarrow> ef_state \<Rightarrow> ef_state outcome" where
  "EF_FILE_CLEANUP fd a s =
     obind (file_at s a) (\<lambda>f.
     obind (if f_action f = None then Done f else free_file_action f) (\<lambda>f1.
       Done (s\<lparr>ef_heap := (ef_heap s)(a := None), sg_open_files := (sg_open_files s)[fd := None]\<rparr>)))"

subsection \<open>Opening\<close>

definition open_flags :: "flags \<Rightarrow> flags" where
  "open_flags oflag =
     (if \<not> any_flag (O_APPEND OR O_WRONLY OR O_RDWR) oflag then oflag OR O_DIRECT else oflag)"

text \<open>The part of \<open>ef_file_open\<close> that runs when \<open>open\<close> has succeeded.\<close>

definition open_setup :: "nat \<Rightarrow> flags \<Rightarrow> ef_file \<Rightarrow> kernel \<Rightarrow> ef_file \<times> kernel" where
  "open_setup P oflag f k =
     (let size = sys_fstat_size k (f_fd f);
          f1 = f\<lparr>f_orig_size := size, f_curr_size := size, f_running_size := size, f_offset := 0,
                 f_unaligned := False, f_oflag := oflag\<rparr>;
          (f2, k2) =
            (if any_flag O_APPEND oflag then
               if any_flag O_WRONLY oflag then
                 let off = sys_lseek_end k (f_fd f); g = f1\<lparr>f_offset := off\<rparr>
                 in if off mod P \<noteq> 0 then (g\<lparr>f_unaligned := True\<rparr>, k) else (g, direct_on k (f_fd f))
               else if any_flag O_RDWR oflag then
                 if f_running_size f1 mod P \<noteq> 0 then (f1\<lparr>f_unaligned := True\<rparr>, k)
                 else (f1, direct_on k (f_fd f))
               else (f1, k)
             else (f1, k))
      in (f2\<lparr>f_index := f_offset f2 div P\<rparr>, k2))"

definition ef_file_open :: "nat \<Rightarrow> ef_state \<Rightarrow> ef_state outcome" where
  "ef_file_open a s0 =
     obind (file_at s0 a) (\<lambda>f.
       let s = set_err 0 s0
       in case f_action f of
            None \<Rightarrow> Done s
          | Some act \<Rightarrow>
              (case a_inp act of
                 Open_inp path oflag0 \<Rightarrow>
                   let oflag = open_flags oflag0;
                       (fd, k) = sys_open (kern s) path oflag;
                       f1 = f\<lparr>f_fd := fd\<rparr>;
                       (f2, k2) = (if 0 \<le> fd then open_setup (sg_page_size s) oflag f1 k else (f1, k));
                       f3 = f2\<lparr>f_action := Some (act\<lparr>a_inp := Open_inp path oflag, a_return_value := fd,
                                 a_err := errno k2, a_status := ACTION_COMPLETE\<rparr>),
                               f_status := (if fd = -1 then FILE_NOT_OPEN else FILE_OPEN)\<rparr>
                   in Done (notify (f_ef_fd f) oper_open (put_file a f3 (s\<lparr>kern := k2\<rparr>)))
               | _ \<Rightarrow> Bad_access))"

text \<open>The C string \<open>path\<close> may be a null pointer.\<close>

definition ef_open :: "string option \<Rightarrow> flags \<Rightarrow> ef_state \<Rightarrow> (int \<times> ef_state) outcome" where
  "ef_open path oflag s0 =
     (let s = set_err 0 s0
      in if \<not> sg_ef_init_done s then Aborted
         else if path = None \<or> path = Some [] then Done (-1, set_err EINVAL s)
         else if oflag = O_APPEND then Done (-1, set_err EINVAL s)
         else if oflag \<noteq> O_RDONLY \<and> \<not> any_flag (O_RDWR OR O_APPEND OR O_CREAT) oflag
           then Done (-1, set_err EINVAL s)
         else
           let (fd, s1) = st_dequeue_sg_fd_queue s
           in if fd = -1 then Done (-1, set_err EMFILE s1)
              else obind (htfa_lock (nat fd) s1) (\<lambda>s2.
                let a = ef_brk s2;
                    s3 = htfa_unlock (nat fd) (s2\<lparr>sg_open_files := (sg_open_files s2)[nat fd := Some a],
                                                   ef_brk := Suc a\<rparr>);
                    f = alloc_file_action ((EF_FILE_INIT (mem_garbage s3) (mem_garbage s3))\<lparr>f_ef_fd := nat fd\<rparr>)
                          oper_open;
                    f1 = f\<lparr>f_action := map_option (\<lambda>act. act\<lparr>a_inp := Open_inp (the path) oflag\<rparr>) (f_action f),
                           f_status := FILE_OPEN_ATTEMPTED\<rparr>
                in Done (fd, enqueue_task (T_open a) (put_file a f1 s3))))"

definition ef_file_state :: "int \<Rightarrow> ef_state \<Rightarrow> file_status outcome" where
  "ef_file_state fd s =
     obind (slot s fd) (\<lambda>p.
       case p of None \<Rightarrow> Done FILE_NOT_OPEN | Some a \<Rightarrow> obind (file_at s a) (\<lambda>f. Done (f_status f)))"

text \<open>Cleaning up a slot under its lock and giving the slot back.\<close>

definition release_slot :: "nat \<Rightarrow> nat \<Rightarrow> ef_state \<Rightarrow> ef_state outcome" where
  "release_slot fd a s =
     obind (htfa_lock fd s) (\<lambda>s1.
     obind (EF_FILE_CLEANUP fd a s1) (\<lambda>s2.
       Done (st_enqueue_sg_fd_queue fd (htfa_unlock fd s2))))"

definition ef_open_status :: "int \<Rightarrow> ef_state \<Rightarrow> (int \<times> ef_state) outcome" where
  "ef_open_status fd s0 =
     (let s = set_err 0 s0
      in obind (slot s fd) (\<lambda>p.
         case p of
           None \<Rightarrow> Done (-1, set_err EINVAL s)
         | Some a \<Rightarrow>
             obind (file_at s a) (\<lambda>f.
               if f_status f = FILE_OPEN_ATTEMPTED then Done (-1, set_err EAGAIN s)
               else if has_action oper_open f then
                 let act = the (f_action f)
                 in if a_status act = ACTION_COMPLETE then
                      if a_return_value act = -1 then
                        obind (release_slot (nat fd) a (set_err (a_err act) s)) (\<lambda>s1. Done (-1, s1))
                      else if a_return_value act = -100 then Done (-1, set_err EAGAIN s)
                      else obind (free_file_action f) (\<lambda>f1. Done (fd, put_file a f1 s))
                    else Done (-1, set_err EAGAIN s)
               else if f_status f = FILE_OPEN then Done (fd, s)
               else Done (-1, set_err EBADF s))))"

subsection \<open>Closing, on the disk thread\<close>

definition ef_close_status :: "int \<Rightarrow> ef_state \<Rightarrow> (int \<times> ef_state) outcome" where
  "ef_close_status fd s0 =
     (let s = set_err 0 s0
      in obind (slot s fd) (\<lambda>p.
         case p of
           None \<Rightarrow> Done (0, s)
         | Some a \<Rightarrow>
             obind (file_at s a) (\<lambda>f.
               if has_action oper_close f then
                 let act = the (f_action f)
                 in if a_status act = ACTION_COMPLETE then
                      if a_return_value act = -1 then
                        obind (free_file_action f) (\<lambda>f1. Done (-1, put_file a f1 (set_err (a_err act) s)))
                      else if a_return_value act = -100 then Done (-1, set_err EAGAIN s)
                      else obind (release_slot (nat fd) a s) (\<lambda>s1. Done (0, s1))
                    else Done (-1, set_err EAGAIN s)
               else Done (-1, set_err EINVAL s))))"

definition ef_file_close :: "nat \<Rightarrow> nat \<Rightarrow> ef_state \<Rightarrow> ef_state outcome" where
  "ef_file_close a file_index s0 =
     obind (file_at s0 a) (\<lambda>f.
       let s = set_err 0 s0
       in case f_action f of
            None \<Rightarrow> Done s
          | Some act \<Rightarrow>
              let (ret, k) = sys_close (kern s) (f_fd f);
                  f1 = f\<lparr>f_buffer := None, f_status := FILE_NOT_OPEN,
                         f_action := Some (act\<lparr>a_return_value := ret, a_err := errno k,
                                                a_status := ACTION_COMPLETE\<rparr>)\<rparr>;
                  s1 = notify (f_ef_fd f) oper_close (put_file a f1 (s\<lparr>kern := k\<rparr>))
              in obind (ef_close_status (int (f_ef_fd f)) s1) (\<lambda>(r, s2). Done s2))"

subsection \<open>Reading, on the disk thread\<close>

text \<open>A failed \<open>pread\<close> leaves the page as it was.\<close>

definition ef_file_read_ahead :: "nat \<Rightarrow> nat \<Rightarrow> nat \<Rightarrow> ef_state \<Rightarrow> ef_state outcome" where
  "ef_file_read_ahead a curr_page_no which s0 =
     obind (file_at s0 a) (\<lambda>f.
       let s = set_err 0 s0;
           page_no = curr_page_no + which;
           P = sg_page_size s;
           page = fresh_page P (mem_junk s);
           (r, k) = sys_pread (kern s) (f_fd f) True P (page_no * P);
           d = \<lparr>d_buf = (case r of None \<Rightarrow> page | Some bs \<Rightarrow> splice_at 0 page 0 bs),
                d_nbyte = (case r of None \<Rightarrow> -1 | Some bs \<Rightarrow> int (length bs)),
                d_errno = errno k, d_page_no = page_no\<rparr>
       in obind (set_action_status ACTION_COMPLETE (f\<lparr>f_r_a_list := f_r_a_list f @ [d]\<rparr>)) (\<lambda>f1.
            let s1 = put_file a f1 (s\<lparr>kern := k\<rparr>)
            in Done (if f_buffer f1 = None then notify (f_ef_fd f) oper_read s1 else s1)))"

definition ef_file_read :: "nat \<Rightarrow> nat \<Rightarrow> ef_state \<Rightarrow> ef_state outcome" where
  "ef_file_read a curr_page_no s =
     obind (file_at s a) (\<lambda>f.
     obind (of_ptr (f_action f)) (\<lambda>act.
       let P = sg_page_size s;
           buf_was_empty = (f_buffer f = None);
           b = (case f_buffer f of None \<Rightarrow> fresh_page P (mem_junk s) | Some b \<Rightarrow> b);
           (r, k) = sys_pread (kern s) (f_fd f) True P (curr_page_no * P);
           f1 = f\<lparr>f_buffer := Some (case r of None \<Rightarrow> b | Some bs \<Rightarrow> splice_at 0 b 0 bs),
                  f_action := Some (act\<lparr>a_return_value := (case r of None \<Rightarrow> -1 | Some bs \<Rightarrow> int (length bs)),
                                         a_err := errno k, a_status := ACTION_COMPLETE\<rparr>)\<rparr>;
           s1 = put_file a f1 (s\<lparr>kern := k\<rparr>)
       in Done (if buf_was_empty then notify (f_ef_fd f) oper_read s1 else s1)))"

subsection \<open>Reading, on the caller's thread\<close>

definition ef_fire_file_read_ahead :: "nat \<Rightarrow> ef_state \<Rightarrow> ef_state outcome" where
  "ef_fire_file_read_ahead a s =
     obind (file_at s a) (\<lambda>f.
       if f_index f * sg_page_size s \<noteq> f_offset f then Aborted
       else if f_action f \<noteq> None then Aborted
       else if f_r_a_started f > f_r_a_completed f then Aborted
       else
         let f1 = (alloc_file_action f oper_readahead)\<lparr>f_r_a_started := f_r_a_started f + 1\<rparr>
         in Done (enqueue_task (T_readahead a (f_index f) 1) (put_file a f1 s)))"

definition ef_fire_file_read :: "nat \<Rightarrow> ef_state \<Rightarrow> ef_state outcome" where
  "ef_fire_file_read a s =
     obind (file_at s a) (\<lambda>f.
       if f_index f * sg_page_size s \<noteq> f_offset f then Aborted
       else if f_action f \<noteq> None then Aborted
       else Done (enqueue_task (T_read a (f_index f)) (put_file a (alloc_file_action f oper_read) s)))"

definition ef_process_readahead_action_status :: "nat \<Rightarrow> ef_state \<Rightarrow> (int \<times> ef_state) outcome" where
  "ef_process_readahead_action_status a s =
     obind (file_at s a) (\<lambda>f.
       if has_action oper_readahead f then
         if action_complete f then
           obind (free_file_action f) (\<lambda>f1.
             Done (1, put_file a (f1\<lparr>f_r_a_completed := f_r_a_completed f1 + 1\<rparr>) s))
         else Done (-1, set_err EAGAIN s)
       else Done (-1, set_err EINVAL s))"

definition ef_process_read_action_status :: "nat \<Rightarrow> ef_state \<Rightarrow> (int \<times> ef_state) outcome" where
  "ef_process_read_action_status a s =
     obind (file_at s a) (\<lambda>f.
       if has_action oper_read f then
         let act = the (f_action f)
         in if a_status act = ACTION_COMPLETE then
              if a_return_value act = -1 then
                obind (free_file_action f) (\<lambda>f1. Done (-1, put_file a f1 (set_err (a_err act) s)))
              else if a_return_value act = -100 then Done (-1, set_err EAGAIN s)
              else obind (free_file_action f) (\<lambda>f1. Done (a_return_value act, put_file a f1 s))
            else Done (-1, set_err EAGAIN s)
       else Done (0, s))"

text \<open>The checks at the start of the read functions: 1 to go on, 0 at the end of the file.\<close>

definition read_access :: "flags \<Rightarrow> bool" where
  "read_access oflag =
     (let flg = (if any_flag O_DIRECT oflag then oflag XOR O_DIRECT else oflag)
      in any_flag O_RDWR flg \<or> flg = O_RDONLY)"

definition chk_fd_read_conditions :: "int \<Rightarrow> ef_state \<Rightarrow> (int \<times> ef_state) outcome" where
  "chk_fd_read_conditions fd s0 =
     (let s = set_err 0 s0
      in if \<not> sg_ef_init_done s then Aborted
         else obind (slot s fd) (\<lambda>p.
           case p of
             None \<Rightarrow> Done (-1, set_err EINVAL s)
           | Some a \<Rightarrow>
               obind (file_at s a) (\<lambda>f.
                 if f_status f \<noteq> FILE_OPEN then Done (-1, set_err EBADF s)
                 else if f_offset f \<ge> f_curr_size f then Done (0, s)
                 else if \<not> read_access (f_oflag f) then Done (-1, set_err EBADF s)
                 else Done (1, s))))"

text \<open>\<open>null_buf\<close> says whether the caller's buffer is a null pointer.\<close>

definition chk_read_conditions :: "int \<Rightarrow> bool \<Rightarrow> nat \<Rightarrow> ef_state \<Rightarrow> (int \<times> ef_state) outcome" where
  "chk_read_conditions fd null_buf nbyte s0 =
     (let s = set_err 0 s0
      in if \<not> sg_ef_init_done s then Aborted
         else obind (slot s fd) (\<lambda>p.
           case p of
             None \<Rightarrow> Done (-1, set_err EINVAL s)
           | Some a \<Rightarrow>
               if null_buf \<or> nbyte = 0 \<or> sg_page_size s < nbyte then Done (-1, set_err EINVAL s)
               else obind (file_at s a) (\<lambda>f.
                 if f_status f \<noteq> FILE_OPEN then Done (-1, set_err EBADF s)
                 else if f_offset f \<ge> f_curr_size f then Done (0, s)
                 else if \<not> read_access (f_oflag f) then Done (-1, set_err EBADF s)
                 else Done (1, s))))"

definition ef_analyse_readahead_action_status :: "nat \<Rightarrow> ef_state \<Rightarrow> (int \<times> ef_state) outcome" where
  "ef_analyse_readahead_action_status a s =
     obind (file_at s a) (\<lambda>f.
       if has_action oper_readahead f then
         if action_complete f then Done (1, s) else Done (-1, set_err EAGAIN s)
       else Done (-1, set_err EINVAL s))"

definition ef_analyse_read_action_status :: "nat \<Rightarrow> ef_state \<Rightarrow> (int \<times> ef_state) outcome" where
  "ef_analyse_read_action_status a s =
     obind (file_at s a) (\<lambda>f.
       if has_action oper_read f then
         let act = the (f_action f); s1 = set_err 0 s
         in if a_status act = ACTION_COMPLETE then
              if a_return_value act = -1 then Done (-1, set_err (a_err act) s1)
              else if a_return_value act = -100 then Done (-1, set_err EAGAIN s1)
              else Done (a_return_value act, s1)
            else Done (-1, set_err EAGAIN s1)
       else Done (0, s))"

definition ef_file_ready_for_read :: "int \<Rightarrow> ef_state \<Rightarrow> (int \<times> ef_state) outcome" where
  "ef_file_ready_for_read fd s0 =
     obind (chk_fd_read_conditions fd s0) (\<lambda>(ret, s).
       if ret < 0 then Done (ret, s)
       else
         obind (slot s fd) (\<lambda>p.
         obind (of_ptr p) (\<lambda>a.
         obind (file_at s a) (\<lambda>f.
           if f_action f \<noteq> None then
             if has_action oper_readahead f then ef_analyse_readahead_action_status a s
             else if has_action oper_read f then ef_analyse_read_action_status a s
             else Done (-1, set_err EBUSY s)
           else Done (-1, set_err EINVAL s)))))"

subsection \<open>Requests to the file writer\<close>

text \<open>The accumulated bytes become a write task of the running write action.\<close>

definition write_buffer_sync :: "nat \<Rightarrow> ef_state \<Rightarrow> ef_state outcome" where
  "write_buffer_sync a s =
     obind (file_at s a) (\<lambda>f.
     obind (write_inp f) (\<lambda>w.
       let w_t = \<lparr>w_cmd = file_write_evt, w_buf = accum_data w, w_nbyte = accum_bytes w\<rparr>;
           w1 = w\<lparr>accum_data := None, accum_bytes := 0,
                  write_totreq_count := write_totreq_count w + 1, w_queue := w_queue w @ [w_t]\<rparr>;
           f1 = set_write_inp w1 f;
           f2 = f1\<lparr>f_action := map_option (\<lambda>act. low_eio_cmd_init act oper_write) (f_action f1)\<rparr>
       in Done (enqueue_fwt (Fw_write_req a) (put_file a f2 s))))"

definition low_ef_sync :: "nat \<Rightarrow> ef_state \<Rightarrow> ef_state outcome" where
  "low_ef_sync a s =
     obind (file_at s a) (\<lambda>f.
       if has_action oper_write f then
         obind (write_inp f) (\<lambda>w. if accum_bytes w \<noteq> 0 then write_buffer_sync a s else Done s)
       else Done s)"

text \<open>The request to flush the page buffer, appended behind the requests to write.\<close>

definition request_fsync :: "nat \<Rightarrow> ef_state \<Rightarrow> ef_state outcome" where
  "request_fsync a s =
     obind (file_at s a) (\<lambda>f.
       if has_action oper_write f \<and> \<not> action_complete f then
         obind (write_inp f) (\<lambda>w.
           let w_t = \<lparr>w_cmd = file_fsync_evt, w_buf = accum_data w, w_nbyte = accum_bytes w\<rparr>;
               w1 = w\<lparr>write_totreq_count := write_totreq_count w + 1, w_queue := w_queue w @ [w_t]\<rparr>;
               f1 = set_write_inp w1 f;
               f2 = f1\<lparr>f_action := map_option (\<lambda>act. low_eio_cmd_init act oper_write) (f_action f1)\<rparr>
           in Done (enqueue_fwt (Fw_write_req a) (put_file a f2 s)))
       else Done s)"

definition set_write_suspended :: "int \<Rightarrow> nat \<Rightarrow> ef_state \<Rightarrow> ef_state outcome" where
  "set_write_suspended v a s = obind (file_at s a) (\<lambda>f. Done (put_file a (f\<lparr>f_write_suspended := v\<rparr>) s))"

definition set_prevent_mutation :: "int \<Rightarrow> nat \<Rightarrow> ef_state \<Rightarrow> ef_state outcome" where
  "set_prevent_mutation v a s = obind (file_at s a) (\<lambda>f. Done (put_file a (f\<lparr>f_prevent_mutation := v\<rparr>) s))"

text \<open>
  \<open>sync_file_writes\<close>: under the three locks, it waits for any action that is not a write, and then
  requests the write of the accumulated bytes and a flush.
\<close>

definition sync_file_writes :: "nat \<Rightarrow> ef_state \<Rightarrow> ef_state outcome" where
  "sync_file_writes fd s0 =
     obind (htfa_lock fd s0) (\<lambda>s.
       case sg_open_files s ! fd of
         None \<Rightarrow> Done (htfa_unlock fd s)
       | Some a \<Rightarrow>
           obind (file_at s a) (\<lambda>f.
             if f_status f \<noteq> FILE_OPEN then Done (htfa_unlock fd s)
             else if \<not> any_flag (O_RDWR OR O_WRONLY) (f_oflag f) then Done (htfa_unlock fd s)
             else if f_prevent_mutation f \<noteq> 0 then Spins
             else if f_write_suspended f \<noteq> 0 then Spins
             else if f_action f \<noteq> None \<and> \<not> has_action oper_write f \<and> \<not> action_complete f then Spins
             else
               obind (set_prevent_mutation 1 a s) (\<lambda>s1.
               obind (set_write_suspended 1 a s1) (\<lambda>s2.
               obind (low_ef_sync a s2) (\<lambda>s3.
               obind (request_fsync a s3) (\<lambda>s4.
               obind (set_write_suspended 0 a s4) (\<lambda>s5.
               obind (set_prevent_mutation 0 a s5) (\<lambda>s6.
                 Done (htfa_unlock fd s6)))))))))"

definition SET_STATUS_AT :: "nat \<Rightarrow> ef_state \<Rightarrow> ef_state outcome" where
  "SET_STATUS_AT a s =
     obind (file_at s a) (\<lambda>f.
     obind (SET_WRITE_ACTION_STATUS (f_action f)) (\<lambda>act. Done (put_file a (f\<lparr>f_action := act\<rparr>) s)))"

subsection \<open>Reading\<close>

text \<open>
  The first half of \<open>low_ef_read\<close>: the action that is in the way. The result is the value to return at
  once, if any.
\<close>

definition read_settle_action :: "int \<Rightarrow> nat \<Rightarrow> ef_state \<Rightarrow> (int option \<times> ef_state) outcome" where
  "read_settle_action fd a s =
     obind (file_at s a) (\<lambda>f.
     obind
       (if f_action f = None then Done (None, s)
        else if has_action oper_readahead f then
          obind (ef_process_readahead_action_status a s)
            (\<lambda>(ret, s1). Done (if ret < 0 then Some ret else None, s1))
        else if has_action oper_read f then
          obind (ef_process_read_action_status a s)
            (\<lambda>(ret, s1). Done (if ret \<le> 0 then Some ret else None, s1))
        else if has_action oper_write f then
          obind (sync_file_writes (nat fd) s) (\<lambda>s1.
          obind (SET_STATUS_AT a s1) (\<lambda>s2.
          obind (file_at s2 a) (\<lambda>f2.
            Done (if \<not> action_complete f2 then (Some (-1), set_err EBUSY s2) else (None, s2)))))
        else Done (if \<not> action_complete f then (Some (-1), set_err EBUSY s) else (None, s)))
       (\<lambda>(r, s1).
         if r \<noteq> None then Done (r, s1)
         else
           obind (file_at s1 a) (\<lambda>f1.
             if action_complete f1
             then obind (free_file_action f1) (\<lambda>f2. Done (None, put_file a f2 s1))
             else Done (None, s1))))"

text \<open>The part that fires a read when there is no buffer.\<close>

definition read_fire :: "nat \<Rightarrow> ef_state \<Rightarrow> (int option \<times> ef_state) outcome" where
  "read_fire a s =
     obind (file_at s a) (\<lambda>f.
       if f_action f \<noteq> None then Done (Some (-1), set_err EAGAIN s)
       else
         obind
           (if f_r_a_started f \<noteq> 0 then
              if f_r_a_completed f = f_r_a_started f then
                (case get_read_ahead_buf (f_r_a_list f) (f_index f) of
                   (Some d, ra) \<Rightarrow>
                     if d_nbyte d \<le> 0 then Done (set_err (d_errno d) (put_file a (f\<lparr>f_r_a_list := ra\<rparr>) s))
                     else ef_fire_file_read_ahead a
                            (put_file a (f\<lparr>f_r_a_list := ra, f_buffer := Some (d_buf d)\<rparr>) s)
                 | (None, ra) \<Rightarrow> ef_fire_file_read a (put_file a (f\<lparr>f_r_a_list := ra\<rparr>) s))
              else Done s
            else ef_fire_file_read a s)
           (\<lambda>s1. Done (Some (-1), set_err EAGAIN s1)))"

text \<open>The copy to the caller: the value returned and the bytes stored through \<open>buf\<close>.\<close>

definition read_copy :: "nat \<Rightarrow> nat \<Rightarrow> nat \<Rightarrow> ef_state \<Rightarrow> (int \<times> byte list \<times> ef_state) outcome" where
  "read_copy a nbyte page_offset s =
     obind (file_at s a) (\<lambda>f.
       case f_buffer f of
         None \<Rightarrow> Done (0, [], s)
       | Some b \<Rightarrow>
           let P = sg_page_size s
           in if P = page_offset then Done (-1, [], set_err EBADF s)
              else
                let n0 = (if nbyte \<le> P - page_offset then nbyte else P - page_offset);
                    n = (if f_offset f + n0 > f_curr_size f
                         then n0 - (f_offset f + n0 - f_curr_size f) else n0)
                in obind (memcpy (replicate nbyte 0) 0 b page_offset n) (\<lambda>dst.
                     let f1 = f\<lparr>f_offset := f_offset f + n\<rparr>;
                         page_offset = page_offset + n
                     in if page_offset = P then
                          Done (int n, take n dst,
                                put_file a (f1\<lparr>f_index := f_index f1 + 1, f_buffer := None\<rparr>) s)
                        else if page_offset > P then Aborted
                        else Done (int n, take n dst, put_file a f1 s)))"

definition low_ef_read :: "int \<Rightarrow> bool \<Rightarrow> nat \<Rightarrow> ef_state \<Rightarrow> (int \<times> byte list \<times> ef_state) outcome" where
  "low_ef_read fd null_buf nbyte s0 =
     obind (chk_read_conditions fd null_buf nbyte s0) (\<lambda>(ret, s).
       if ret \<le> 0 then Done (ret, [], s)
       else
         obind (slot s fd) (\<lambda>p.
         obind (of_ptr p) (\<lambda>a.
         obind (file_at s a) (\<lambda>f0.
           let page_offset = f_offset f0 - f_index f0 * sg_page_size s
           in obind (read_settle_action fd a s) (\<lambda>(r, s1).
              case r of
                Some v \<Rightarrow> Done (v, [], s1)
              | None \<Rightarrow>
                  obind (file_at s1 a) (\<lambda>f1.
                  obind (if f_buffer f1 = None then read_fire a s1 else Done (None, s1)) (\<lambda>(r2, s2).
                    case r2 of
                      Some v \<Rightarrow> Done (v, [], s2)
                    | None \<Rightarrow> read_copy a nbyte page_offset s2)))))))"

definition ef_read :: "int \<Rightarrow> bool \<Rightarrow> nat \<Rightarrow> ef_state \<Rightarrow> (int \<times> byte list \<times> ef_state) outcome" where
  "ef_read fd null_buf nbyte s = low_ef_read fd null_buf nbyte s"

subsection \<open>Writing, on the caller's thread\<close>

text \<open>
  The loop of \<open>low_ef_write\<close>: the caller's bytes are gathered in a page; a full page is handed to the
  file writer. \<open>done\<close> counts the bytes taken; the code keeps it in an \<open>int\<close>, so the address it reads
  from leaves the caller's buffer when the count turns negative. A pass takes at least one byte while
  the page has room, so \<open>nbyte\<close> passes are enough.
\<close>

fun accumulate :: "nat \<Rightarrow> nat \<Rightarrow> byte list \<Rightarrow> nat \<Rightarrow> nat \<Rightarrow> ef_state \<Rightarrow> (nat \<times> ef_state) outcome" where
  "accumulate 0 a buf remaining taken s = (if remaining = 0 then Done (taken, s) else Spins)"
| "accumulate (Suc fuel) a buf remaining taken s =
     (if remaining = 0 then Done (taken, s)
      else
        obind (file_at s a) (\<lambda>f.
        obind (write_inp f) (\<lambda>w.
          let P = sg_page_size s;
              page = (case accum_data w of None \<Rightarrow> replicate P 0 | Some d \<Rightarrow> d);
              space_in_the_page = P - accum_bytes w;
              to_be_copied = (if remaining > space_in_the_page then space_in_the_page else remaining)
          in if c_int taken < 0 then Bad_access
             else obind (memcpy page (accum_bytes w) buf taken to_be_copied) (\<lambda>page1.
               let w1 = w\<lparr>accum_data := Some page1, accum_bytes := accum_bytes w + to_be_copied\<rparr>;
                   s1 = put_file a (set_write_inp w1 f) s
               in obind (if accum_bytes w1 \<ge> P then write_buffer_sync a s1 else Done s1)
                    (\<lambda>s2. accumulate fuel a buf (remaining - to_be_copied) (taken + to_be_copied) s2)))))"

definition low_ef_write :: "nat \<Rightarrow> byte list \<Rightarrow> nat \<Rightarrow> ef_state \<Rightarrow> (int \<times> ef_state) outcome" where
  "low_ef_write a buf nbyte s0 =
     (let s = set_err 0 s0
      in obind (file_at s a) (\<lambda>f.
         if f_write_suspended f \<noteq> 0 then Spins
         else
           obind (set_write_suspended (-1) a s) (\<lambda>s1.
           obind (file_at s1 a) (\<lambda>f1.
           obind
             (if \<not> action_complete f1 \<and> f_action f1 \<noteq> None \<and> \<not> has_action oper_write f1
              then Done (-1, set_err EBUSY s1)
              else
                obind (if action_complete f1 then free_file_action f1 else Done f1) (\<lambda>f2.
                  let f3 = (if f_action f2 = None then alloc_file_action f2 oper_write else f2)
                  in obind (accumulate nbyte a buf nbyte 0 (put_file a f3 s1))
                       (\<lambda>(taken, s2). Done (c_int taken, s2))))
             (\<lambda>(ret, s3).
               obind (file_at s3 a) (\<lambda>f3.
                 if f_write_suspended f3 \<noteq> -1 then Aborted
                 else obind (set_write_suspended 0 a s3) (\<lambda>s4. Done (ret, s4))))))))"

definition ef_write :: "int \<Rightarrow> byte list option \<Rightarrow> nat \<Rightarrow> ef_state \<Rightarrow> (int \<times> ef_state) outcome" where
  "ef_write fd buf nbyte s0 =
     (let s = set_err 0 s0
      in obind (slot s fd) (\<lambda>p.
         case p of
           None \<Rightarrow> Done (-1, set_err EINVAL s)
         | Some a \<Rightarrow>
             if buf = None \<or> nbyte = 0 then Done (-1, set_err EINVAL s)
             else obind (file_at s a) (\<lambda>f.
               if f_status f \<noteq> FILE_OPEN then Done (-1, set_err EBADF s)
               else if \<not> any_flag (O_RDWR OR O_WRONLY) (f_oflag f) then Done (-1, set_err EBADF s)
               else low_ef_write a (the buf) nbyte s)))"

definition ef_sync :: "int \<Rightarrow> ef_state \<Rightarrow> (int \<times> ef_state) outcome" where
  "ef_sync fd s0 =
     (let s = set_err 0 s0
      in obind (slot s fd) (\<lambda>p.
         case p of
           None \<Rightarrow> Done (-1, set_err EINVAL s)
         | Some a \<Rightarrow>
             if \<not> sg_ef_init_done s then Aborted
             else obind (file_at s a) (\<lambda>f.
               if f_status f \<noteq> FILE_OPEN then Done (-1, set_err EBADF s)
               else if f_action f = None then Done (-1, set_err EINVAL s)
               else if action_complete f then
                 obind (free_file_action f) (\<lambda>f1. Done (-1, set_err EINVAL (put_file a f1 s)))
               else if \<not> has_action oper_write f then Done (-1, set_err EBUSY s)
               else if f_write_suspended f \<noteq> 0 then Spins
               else
                 obind (set_write_suspended (-2) a s) (\<lambda>s1.
                 obind (low_ef_sync a s1) (\<lambda>s2.
                 obind (file_at s2 a) (\<lambda>f2.
                   if f_write_suspended f2 \<noteq> -2 then Aborted
                   else obind (set_write_suspended 0 a s2) (\<lambda>s3. Done (0, s3))))))))"

definition ef_poll :: "int \<Rightarrow> ef_state \<Rightarrow> (int \<times> ef_state) outcome" where
  "ef_poll fd s =
     (if \<not> sg_ef_init_done s then Aborted
      else obind (slot s fd) (\<lambda>p.
        case p of
          None \<Rightarrow> Done (-1, set_err EBADF s)
        | Some a \<Rightarrow>
            obind (file_at s a) (\<lambda>f.
              if f_status f \<noteq> FILE_OPEN then Done (-1, set_err EBADF s)
              else Done ((if any_flag (O_WRONLY OR O_RDWR) (f_oflag f) then 1 else 0) +
                         (if (f_oflag f = O_RDONLY \<or> any_flag O_RDWR (f_oflag f)) \<and> f_buffer f \<noteq> None
                          then 2 else 0), s))))"

subsection \<open>Writing, on the other threads\<close>

text \<open>\<open>ef_file_write\<close>, run by a disk thread on the batch of the file.\<close>

definition ef_file_write :: "nat \<Rightarrow> ef_state \<Rightarrow> ef_state outcome" where
  "ef_file_write a s =
     obind (file_at s a) (\<lambda>f.
     obind (write_inp f) (\<lambda>w.
     obind (set_action_status ACTION_IN_PROGRESS f) (\<lambda>f0.
     obind (write_tasks (sg_page_size s) (mem_junk s) (b_w_list w) 0 f0 (kern s)) (\<lambda>(n, f1, k1).
       let f2 = f1\<lparr>f_action := map_option (\<lambda>act. act\<lparr>a_return_value := a_return_value act + int n,
                                                       a_err := errno k1\<rparr>) (f_action f1)\<rparr>
       in Done (enqueue_fwt (Fw_write_cmpl a) (put_file a f2 (s\<lparr>kern := k1\<rparr>)))))))"

text \<open>Both events of the writer take every waiting task as the next batch, if there is any.\<close>

definition take_batch :: "nat \<Rightarrow> ef_state \<Rightarrow> ef_state outcome" where
  "take_batch a s =
     obind (file_at s a) (\<lambda>f.
     obind (write_inp f) (\<lambda>w.
       if w_queue w = [] then Done s
       else Done (enqueue_task (T_write a)
              (put_file a (set_write_inp (w\<lparr>b_w_list := w_queue w, w_queue := [],
                 write_req_count := write_req_count w + length (w_queue w)\<rparr>) f) s))))"

definition fw_write_cmpl :: "nat \<Rightarrow> ef_state \<Rightarrow> ef_state outcome" where
  "fw_write_cmpl a s =
     obind (file_at s a) (\<lambda>f.
     obind (write_inp f) (\<lambda>w.
       let compl_count = length (b_w_list w)
       in obind (take_batch a (put_file a (set_write_inp (w\<lparr>b_w_list := []\<rparr>) f) s)) (\<lambda>s1.
          obind (file_at s1 a) (\<lambda>f1.
          obind (write_inp f1) (\<lambda>w1.
            Done (put_file a (set_write_inp
                    (w1\<lparr>write_cmpl_count := write_cmpl_count w1 + compl_count\<rparr>) f1) s1))))))"

definition fw_write_req :: "nat \<Rightarrow> ef_state \<Rightarrow> ef_state outcome" where
  "fw_write_req a s =
     obind (file_at s a) (\<lambda>f.
     obind (write_inp f) (\<lambda>w.
       if write_req_count w \<noteq> write_cmpl_count w then Done s else take_batch a s))"

text \<open>One turn of the loop of \<open>file_writer\<close>; with an empty queue it sleeps.\<close>

definition file_writer :: "ef_state \<Rightarrow> ef_state outcome" where
  "file_writer s =
     (if sg_writer_shutdown s then Done s
      else case sg_file_writer_queue s of
             [] \<Rightarrow> Done s
           | ev # evs \<Rightarrow>
               let s1 = s\<lparr>sg_file_writer_queue := evs\<rparr>
               in (case ev of
                     Fw_write_cmpl a \<Rightarrow> fw_write_cmpl a s1
                   | Fw_write_req a \<Rightarrow> fw_write_req a s1
                   | Fw_shutdown \<Rightarrow> Done (s1\<lparr>sg_writer_shutdown := True\<rparr>)))"

text \<open>One pass of \<open>slow_sync\<close> over the table.\<close>

fun sync_slots :: "nat list \<Rightarrow> ef_state \<Rightarrow> ef_state outcome" where
  "sync_slots [] s = Done s"
| "sync_slots (i # is) s =
     obind (if sg_open_files s ! i \<noteq> None then sync_file_writes i s else Done s) (sync_slots is)"

definition slow_sync :: "ef_state \<Rightarrow> ef_state outcome" where
  "slow_sync s = sync_slots [0..<EF_MAX_FILES] s"

text \<open>A disk thread takes the next task of its pool.\<close>

definition disk_thread :: "ef_state \<Rightarrow> ef_state outcome" where
  "disk_thread s =
     (case sg_disk_io s of
        [] \<Rightarrow> Done s
      | t # ts \<Rightarrow>
          let s1 = s\<lparr>sg_disk_io := ts\<rparr>
          in (case t of
                T_open a \<Rightarrow> ef_file_open a s1
              | T_close a i \<Rightarrow> ef_file_close a i s1
              | T_read a p \<Rightarrow> ef_file_read a p s1
              | T_readahead a p which \<Rightarrow> ef_file_read_ahead a p which s1
              | T_write a \<Rightarrow> ef_file_write a s1))"

datatype bg = Bg_disk | Bg_writer | Bg_sync

definition bg_step :: "bg \<Rightarrow> ef_state \<Rightarrow> ef_state outcome" where
  "bg_step b s = (case b of Bg_disk \<Rightarrow> disk_thread s | Bg_writer \<Rightarrow> file_writer s | Bg_sync \<Rightarrow> slow_sync s)"

subsection \<open>Closing, on the caller's thread\<close>

text \<open>
  The loop of \<open>ef_close_api\<close> that waits for the writes: at each \<open>EV_YIELD\<close> another thread makes the
  next step of the schedule; it spins when the schedule ends first.
\<close>

fun close_wait :: "bg list \<Rightarrow> nat \<Rightarrow> ef_state \<Rightarrow> ef_state outcome" where
  "close_wait sched a s =
     obind (SET_STATUS_AT a s) (\<lambda>s1.
     obind (file_at s1 a) (\<lambda>f.
       if f_action f \<noteq> None \<and> \<not> action_complete f then
         (case sched of [] \<Rightarrow> Spins | b # bs \<Rightarrow> obind (bg_step b s1) (close_wait bs a))
       else Done s1))"

definition ef_close_api :: "bg list \<Rightarrow> int \<Rightarrow> bool \<Rightarrow> ef_state \<Rightarrow> (int \<times> ef_state) outcome" where
  "ef_close_api sched fd immediate s0 =
     (let s = set_err 0 s0
      in if \<not> sg_ef_init_done s then Aborted
         else obind (slot s fd) (\<lambda>p.
           case p of
             None \<Rightarrow> Done (-1, set_err EINVAL s)
           | Some a \<Rightarrow>
               obind (file_at s a) (\<lambda>f.
                 if f_status f \<noteq> FILE_OPEN then Done (-1, set_err EBADF s)
                 else if has_action oper_close f then Done (-1, set_err EBUSY s)
                 else if f_action f \<noteq> None \<and> \<not> has_action oper_write f \<and> \<not> action_complete f
                   then Done (-1, set_err EAGAIN s)
                 else
                   obind (if action_complete f then free_file_action f else Done f) (\<lambda>f1.
                   obind (sync_file_writes (nat fd) (put_file a f1 s)) (\<lambda>s1.
                   obind (close_wait sched a s1) (\<lambda>s2.
                   obind (file_at s2 a) (\<lambda>f2.
                   obind (if f_action f2 \<noteq> None then free_file_action f2 else Done f2) (\<lambda>f3.
                     let s3 = put_file a (alloc_file_action f3 oper_close) s2
                     in if immediate then obind (ef_file_close a (nat fd) s3) (\<lambda>s4. Done (0, s4))
                        else Done (0, enqueue_task (T_close a (nat fd)) s3)))))))))"

definition ef_close :: "bg list \<Rightarrow> int \<Rightarrow> ef_state \<Rightarrow> (int \<times> ef_state) outcome" where
  "ef_close sched fd s = ef_close_api sched fd False (set_err 0 s)"

definition ef_close_immediate :: "bg list \<Rightarrow> int \<Rightarrow> ef_state \<Rightarrow> (int \<times> ef_state) outcome" where
  "ef_close_immediate sched fd s = ef_close_api sched fd True (set_err 0 s)"

subsection \<open>Initialisation and notification\<close>

definition ef_init :: "nat \<Rightarrow> ef_state \<Rightarrow> ef_state" where
  "ef_init sys_pagesize s0 =
     (let s = set_err 0 s0;
          s1 = s\<lparr>sg_page_size := 256 * sys_pagesize,
                 sg_open_files := replicate EF_MAX_FILES None,
                 sg_handle_to_file_action := replicate EF_MAX_FILES 0,
                 sg_fd_queue := [], sg_file_writer_queue := []\<rparr>
      in (setup_fd_slots s1)\<lparr>sg_writer_shutdown := False, sg_ef_init_done := True,
            sg_disk_io_thr_pool := (if sg_disk_io_thr_pool s = None then Some 0 else sg_disk_io_thr_pool s)\<rparr>)"

text \<open>
  \<open>destroy_thread_pool\<close> returns when the threads of the pool have called every task that was queued. \<open>ef_set_thrpool\<close>
  takes effect once; \<open>thr_pool\<close> is a pool.
\<close>

fun drain_disk :: "nat \<Rightarrow> ef_state \<Rightarrow> ef_state outcome" where
  "drain_disk 0 s = Done s"
| "drain_disk (Suc n) s = obind (disk_thread s) (drain_disk n)"

definition ef_set_thrpool :: "nat \<Rightarrow> ef_state \<Rightarrow> ef_state outcome" where
  "ef_set_thrpool thr_pool s =
     (if sg_thr_pool_init_done s then Done s
      else
        let s1 = s\<lparr>sg_thr_pool_init_done := True\<rparr>
        in obind (if sg_disk_io_thr_pool s1 \<noteq> None then drain_disk (length (sg_disk_io s1)) s1 else Done s1)
             (\<lambda>s2. Done (s2\<lparr>sg_disk_io_thr_pool := Some thr_pool\<rparr>)))"

definition ef_set_cb_func :: "nat option \<Rightarrow> nat \<Rightarrow> ef_state \<Rightarrow> ef_state" where
  "ef_set_cb_func cb_func cb_data s = s\<lparr>sg_cb_func := cb_func, sg_cb_data := cb_data\<rparr>"

definition ef_unset_cb_func :: "ef_state \<Rightarrow> ef_state" where
  "ef_unset_cb_func s = s\<lparr>sg_cb_func := None, sg_cb_data := 0\<rparr>"

declare close_wait.simps [simp del]

end
