(* ===== verification/EfInv.thy ===== *)
theory EfInv
  imports EfFile
begin

text \<open>
  The invariant of the file layer: what holds of the table of open files, of the two queues and of
  every open file between two steps of the threads, for devices that do not fail and files that no
  two handles share.
\<close>

subsection \<open>The requests that concern one file\<close>

fun dtask_file :: "disk_task \<Rightarrow> nat" where
  "dtask_file (T_open a) = a"
| "dtask_file (T_close a i) = a"
| "dtask_file (T_read a p) = a"
| "dtask_file (T_readahead a p w) = a"
| "dtask_file (T_write a) = a"

fun fw_file :: "fw_task \<Rightarrow> nat option" where
  "fw_file (Fw_write_req a) = Some a"
| "fw_file (Fw_write_cmpl a) = Some a"
| "fw_file Fw_shutdown = None"

definition d_of :: "ef_state \<Rightarrow> nat \<Rightarrow> disk_task list" where
  "d_of s a = filter (\<lambda>t. dtask_file t = a) (sg_disk_io s)"

definition e_of :: "ef_state \<Rightarrow> nat \<Rightarrow> fw_task list" where
  "e_of s a = filter (\<lambda>e. fw_file e = Some a) (sg_file_writer_queue s)"

subsection \<open>The write pipeline of a file\<close>

definition task_wf :: "nat \<Rightarrow> write_task \<Rightarrow> bool" where
  "task_wf P w \<longleftrightarrow>
     (case w_cmd w of
        file_write_evt \<Rightarrow> (\<exists>d. w_buf w = Some d \<and> length d = P) \<and> 0 < w_nbyte w \<and> w_nbyte w \<le> P
      | file_fsync_evt \<Rightarrow> w_buf w = None)"

definition accum_wf :: "nat \<Rightarrow> byte list option \<Rightarrow> nat \<Rightarrow> bool" where
  "accum_wf P page n \<longleftrightarrow> n < P \<and> (case page of None \<Rightarrow> n = 0 | Some d \<Rightarrow> 0 < n \<and> length d = P)"

definition reqs :: "nat \<Rightarrow> nat \<Rightarrow> fw_task list" where
  "reqs a n = replicate n (Fw_write_req a)"

definition reqs_cmpl :: "nat \<Rightarrow> nat \<Rightarrow> nat \<Rightarrow> fw_task list" where
  "reqs_cmpl a i j = reqs a i @ Fw_write_cmpl a # reqs a j"

text \<open>
  A batch is with a disk thread (a \<open>T_write\<close> task), or written and waiting for its completion event,
  or there is none; only in the last case does every waiting task have its own request event.
\<close>

definition pipe_queues :: "nat \<Rightarrow> eio_write_oper \<Rightarrow> disk_task list \<Rightarrow> fw_task list \<Rightarrow> bool" where
  "pipe_queues a w D E \<longleftrightarrow>
     (if D = [T_write a] then b_w_list w \<noteq> [] \<and> (\<exists>n. E = reqs a n)
      else D = [] \<and>
        (if b_w_list w \<noteq> [] then
           \<exists>i j. E = reqs_cmpl a i j \<and> j \<le> length (w_queue w)
         else E = reqs a (length (w_queue w))))"

definition pipe_ok :: "nat \<Rightarrow> nat \<Rightarrow> eio_write_oper \<Rightarrow> disk_task list \<Rightarrow> fw_task list \<Rightarrow> bool" where
  "pipe_ok P a w D E \<longleftrightarrow>
     accum_wf P (accum_data w) (accum_bytes w) \<and> list_all (task_wf P) (b_w_list w @ w_queue w) \<and>
     write_totreq_count w = write_req_count w + length (w_queue w) \<and>
     write_req_count w = write_cmpl_count w + length (b_w_list w) \<and> pipe_queues a w D E"

subsection \<open>An open file\<close>

definition robs :: "nat \<Rightarrow> ef_file \<Rightarrow> kernel \<Rightarrow> bool" where
  "robs P f k \<longleftrightarrow>
     kgood P k (f_fd f) \<and> can_read (kflags k (f_fd f)) = can_read (f_oflag f) \<and> f_r_a_started f = 0 \<and>
     f_curr_size f = length (kdata k (f_fd f)) \<and> \<not> f_dirty f \<and>
     f_index f * P \<le> f_offset f \<and> f_offset f < f_index f * P + P \<and>
     (\<forall>b. f_buffer f = Some b \<longrightarrow> length b = P) \<and> buf_matches P f k"

definition io_ok :: "nat \<Rightarrow> ef_file \<Rightarrow> kernel \<Rightarrow> bool" where
  "io_ok P f k \<longleftrightarrow>
     \<not> (bit (f_oflag f) 0 \<and> bit (f_oflag f) 1) \<and>
     (if can_write (f_oflag f) then winv P f k else robs P f k) \<and>
     (has_action oper_write f \<or> \<not> f_dirty f)"

definition act_idle :: "eio_file_cmd \<Rightarrow> file_oper_type \<Rightarrow> bool" where
  "act_idle act oper \<longleftrightarrow> a_cmd act = oper \<and> a_status act = ACTION_INITIATED \<and> a_return_value act = -100"

text \<open>Without a buffer the next byte to read starts a page.\<close>

definition rd_pos :: "nat \<Rightarrow> ef_file \<Rightarrow> bool" where
  "rd_pos P f \<longleftrightarrow> (read_access (f_oflag f) \<and> f_buffer f = None \<longrightarrow> f_offset f = f_index f * P)"

definition open_action_ok :: "nat \<Rightarrow> nat \<Rightarrow> ef_file \<Rightarrow> nat \<Rightarrow> disk_task list \<Rightarrow> fw_task list \<Rightarrow> bool" where
  "open_action_ok P a f L D E \<longleftrightarrow>
     (case f_action f of
        None \<Rightarrow> D = [] \<and> E = [] \<and> rd_pos P f
      | Some act \<Rightarrow>
          (case a_cmd act of
             oper_open \<Rightarrow>
               a_status act = ACTION_COMPLETE \<and> 0 \<le> a_return_value act \<and> D = [] \<and> E = [] \<and> rd_pos P f
           | oper_read \<Rightarrow>
               read_access (f_oflag f) \<and> E = [] \<and>
               (act_idle act oper_read \<and> D = [T_read a (f_index f)] \<and> f_index f * P < L \<and>
                  f_offset f = f_index f * P \<and> f_buffer f = None
                \<or> a_status act = ACTION_COMPLETE \<and> 0 < a_return_value act \<and> D = [] \<and> f_buffer f \<noteq> None)
           | oper_readahead \<Rightarrow> False
           | oper_close \<Rightarrow> act_idle act oper_close \<and> D = [T_close a (f_ef_fd f)] \<and> E = []
           | oper_write \<Rightarrow>
               can_write (f_oflag f) \<and> a_status act \<noteq> ACTION_COMPLETE \<and>
               (case a_inp act of Write_inp w \<Rightarrow> pipe_ok P a w D E | _ \<Rightarrow> False)))"

definition file_ok :: "nat \<Rightarrow> kernel \<Rightarrow> nat \<Rightarrow> ef_file \<Rightarrow> disk_task list \<Rightarrow> fw_task list \<Rightarrow> bool" where
  "file_ok P k a f D E \<longleftrightarrow>
     f_write_suspended f = 0 \<and> f_prevent_mutation f = 0 \<and> f_r_a_started f = 0 \<and>
     (case f_status f of
        FILE_OPEN_ATTEMPTED \<Rightarrow>
          (case f_action f of
             None \<Rightarrow> False
           | Some act \<Rightarrow> act_idle act oper_open \<and> (case a_inp act of Open_inp path fl \<Rightarrow> True | _ \<Rightarrow> False)) \<and>
          D = [T_open a] \<and> E = [] \<and> f_buffer f = None \<and> \<not> f_dirty f
      | FILE_NOT_OPEN \<Rightarrow>
          (case f_action f of
             None \<Rightarrow> False
           | Some act \<Rightarrow> a_cmd act = oper_open \<and> a_status act = ACTION_COMPLETE \<and> a_return_value act = -1) \<and>
          D = [] \<and> E = []
      | FILE_OPEN \<Rightarrow> io_ok P f k \<and> open_action_ok P a f (length (kdata k (f_fd f))) D E)"

subsection \<open>The whole state\<close>

definition kernel_ok :: "nat \<Rightarrow> kernel \<Rightarrow> bool" where
  "kernel_ok P k \<longleftrightarrow>
     0 < P \<and> P < 2147483648 \<and> P mod k_block k = 0 \<and>
     k_read_fails k = (\<lambda>_. False) \<and> k_write_fails k = (\<lambda>_. False) \<and>
     (\<forall>n e. k_fds k n = Some e \<longrightarrow> n < k_next_fd k \<and> kf_ino e < k_next_ino k) \<and>
     (\<forall>path ino. k_dir k path = Some ino \<longrightarrow> ino < k_next_ino k)"

definition slots_ok :: "ef_state \<Rightarrow> bool" where
  "slots_ok s \<longleftrightarrow>
     sg_ef_init_done s \<and> \<not> sg_writer_shutdown s \<and> length (sg_open_files s) = EF_MAX_FILES \<and>
     sg_handle_to_file_action s = replicate EF_MAX_FILES 0 \<and>
     distinct (sg_fd_queue s) \<and> set (sg_fd_queue s) = {i. i < EF_MAX_FILES \<and> sg_open_files s ! i = None} \<and>
     (\<forall>i a. i < EF_MAX_FILES \<longrightarrow> sg_open_files s ! i = Some a \<longrightarrow> (\<exists>f. ef_heap s a = Some f \<and> f_ef_fd f = i)) \<and>
     (\<forall>a f. ef_heap s a = Some f \<longrightarrow>
        a < ef_brk s \<and> f_ef_fd f < EF_MAX_FILES \<and> sg_open_files s ! f_ef_fd f = Some a)"

definition queues_ok :: "ef_state \<Rightarrow> bool" where
  "queues_ok s \<longleftrightarrow>
     (\<forall>t\<in>set (sg_disk_io s). ef_heap s (dtask_file t) \<noteq> None) \<and>
     (\<forall>e\<in>set (sg_file_writer_queue s). \<exists>a. fw_file e = Some a \<and> ef_heap s a \<noteq> None)"

definition files_ok :: "ef_state \<Rightarrow> bool" where
  "files_ok s \<longleftrightarrow>
     (\<forall>a f. ef_heap s a = Some f \<longrightarrow> file_ok (sg_page_size s) (kern s) a f (d_of s a) (e_of s a))"

definition apart :: "ef_state \<Rightarrow> bool" where
  "apart s \<longleftrightarrow>
     (\<forall>a b f g. ef_heap s a = Some f \<longrightarrow> ef_heap s b = Some g \<longrightarrow> a \<noteq> b \<longrightarrow>
        f_status f = FILE_OPEN \<longrightarrow> f_status g = FILE_OPEN \<longrightarrow>
        f_fd f \<noteq> f_fd g \<and> kino (kern s) (f_fd f) \<noteq> kino (kern s) (f_fd g))"

definition ef_inv :: "ef_state \<Rightarrow> bool" where
  "ef_inv s \<longleftrightarrow> kernel_ok (sg_page_size s) (kern s) \<and> slots_ok s \<and> queues_ok s \<and> files_ok s \<and> apart s"

subsection \<open>Steps that touch one file\<close>

definition k_agree :: "int \<Rightarrow> kernel \<Rightarrow> kernel \<Rightarrow> bool" where
  "k_agree fd k k' \<longleftrightarrow>
     kfd_of k' fd = kfd_of k fd \<and> k_data k' (kino k fd) = k_data k (kino k fd) \<and> k_block k' = k_block k \<and>
     k_read_fails k' = k_read_fails k \<and> k_write_fails k' = k_write_fails k"

lemma k_agree_proj:
  assumes "k_agree fd k k'"
  shows "kdata k' fd = kdata k fd" "kflags k' fd = kflags k fd" "kino k' fd = kino k fd" "kgood P k' fd = kgood P k fd"
    "kdirect k' fd = kdirect k fd" "kappend k' fd = kappend k fd"
  using assms by (simp_all add: k_agree_def kdata_def kflags_def kino_def kgood_def kdirect_def kappend_def)

lemma io_ok_agree: "k_agree (f_fd f) k k' \<Longrightarrow> io_ok P f k' = io_ok P f k"
  using k_agree_proj [of "f_fd f" k k']
  by (simp add: io_ok_def winv_def robs_def w_fd_ok_def w_mode_ok_def buf_matches_def)

lemma file_ok_agree:
  "(f_status f = FILE_OPEN \<Longrightarrow> k_agree (f_fd f) k k') \<Longrightarrow> file_ok P k' a f D E = file_ok P k a f D E"
  using io_ok_agree [of f k k' P] k_agree_proj(1) [of "f_fd f" k k']
  by (cases "f_status f") (simp_all add: file_ok_def)

lemma k_same_agree: "k_same fd k k' \<Longrightarrow> fd' \<noteq> fd \<Longrightarrow> kino k fd' \<noteq> kino k fd \<Longrightarrow> k_agree fd' k k'"
  by (simp add: k_same_def k_agree_def)

definition file_step :: "nat \<Rightarrow> ef_state \<Rightarrow> ef_state \<Rightarrow> bool" where
  "file_step a s s' \<longleftrightarrow>
     sg_open_files s' = sg_open_files s \<and> sg_handle_to_file_action s' = sg_handle_to_file_action s \<and>
     sg_fd_queue s' = sg_fd_queue s \<and> sg_writer_shutdown s' = sg_writer_shutdown s \<and>
     sg_page_size s' = sg_page_size s \<and> sg_ef_init_done s' = sg_ef_init_done s \<and> ef_brk s' = ef_brk s \<and>
     (\<exists>f f'. ef_heap s a = Some f \<and> ef_heap s' = (ef_heap s)(a \<mapsto> f') \<and> f_ef_fd f' = f_ef_fd f \<and>
        f_fd f' = f_fd f \<and> f_status f' = f_status f \<and> k_same (f_fd f) (kern s) (kern s') \<and>
        (f_status f \<noteq> FILE_OPEN \<longrightarrow> (\<exists>e. kern s' = set_errno e (kern s)))) \<and>
     (\<forall>b. b \<noteq> a \<longrightarrow> d_of s' b = d_of s b \<and> e_of s' b = e_of s b) \<and>
     (\<forall>t\<in>set (sg_disk_io s'). t \<in> set (sg_disk_io s) \<or> dtask_file t = a) \<and>
     (\<forall>e\<in>set (sg_file_writer_queue s'). e \<in> set (sg_file_writer_queue s) \<or> fw_file e = Some a)"

definition same_globals :: "ef_state \<Rightarrow> ef_state \<Rightarrow> bool" where
  "same_globals s s' \<longleftrightarrow>
     sg_open_files s' = sg_open_files s \<and> sg_handle_to_file_action s' = sg_handle_to_file_action s \<and>
     sg_fd_queue s' = sg_fd_queue s \<and> sg_writer_shutdown s' = sg_writer_shutdown s \<and>
     sg_page_size s' = sg_page_size s \<and> sg_ef_init_done s' = sg_ef_init_done s \<and> ef_brk s' = ef_brk s"

lemma set_errno_same: "\<exists>e. k = set_errno e k"
  by (rule exI [of _ "errno k"]) (simp add: set_errno_def)

lemma file_stepI:
  assumes "ef_heap s a = Some f" "ef_heap s' = (ef_heap s)(a \<mapsto> f')" "same_globals s s'"
    and "f_ef_fd f' = f_ef_fd f" "f_fd f' = f_fd f" "f_status f' = f_status f"
    and "k_same (f_fd f) (kern s) (kern s')" "f_status f = FILE_OPEN \<or> (\<exists>e. kern s' = set_errno e (kern s))"
    and "\<And>b. b \<noteq> a \<Longrightarrow> d_of s' b = d_of s b" "\<And>b. b \<noteq> a \<Longrightarrow> e_of s' b = e_of s b"
    and "\<forall>t\<in>set (sg_disk_io s'). t \<in> set (sg_disk_io s) \<or> dtask_file t = a"
    and "\<forall>e\<in>set (sg_file_writer_queue s'). e \<in> set (sg_file_writer_queue s) \<or> fw_file e = Some a"
  shows "file_step a s s'"
  using assms unfolding file_step_def same_globals_def by blast

lemma kernel_ok_same:
  assumes k: "kernel_ok P k" and s: "k_same fd k k'"
  shows "kernel_ok P k'"
proof -
  have "n < k_next_fd k \<and> kf_ino e < k_next_ino k" if e: "k_fds k' n = Some e" for n e
  proof (cases "int n = fd")
    case True
    then have "kfd_of k' fd = Some e" using e by (auto simp: kfd_of_def)
    with s obtain e0 where "kfd_of k fd = Some e0" and e0: "kf_ino e0 = kf_ino e"
      by (fastforce simp: k_same_def kino_def)
    with True have "k_fds k n = Some e0" by (auto simp: kfd_of_def split: if_splits)
    with k e0 show ?thesis unfolding kernel_ok_def by metis
  next
    case False
    with s have "kfd_of k' (int n) = kfd_of k (int n)" by (simp add: k_same_def)
    with e have "k_fds k n = Some e" by (simp add: kfd_of_def)
    with k show ?thesis unfolding kernel_ok_def by metis
  qed
  with k s show ?thesis by (simp add: kernel_ok_def k_same_def)
qed

lemma file_step_agree:
  assumes inv: "ef_inv s" and st: "file_step a s s'" and g: "ef_heap s b = Some g" "b \<noteq> a" "f_status g = FILE_OPEN"
  shows "k_agree (f_fd g) (kern s) (kern s')"
proof -
  from st obtain f where f: "ef_heap s a = Some f" "k_same (f_fd f) (kern s) (kern s')"
      "f_status f \<noteq> FILE_OPEN \<longrightarrow> (\<exists>e. kern s' = set_errno e (kern s))"
    by (auto simp: file_step_def)
  show ?thesis
  proof (cases "f_status f = FILE_OPEN")
    case True
    with inv f(1) g have "f_fd g \<noteq> f_fd f" "kino (kern s) (f_fd g) \<noteq> kino (kern s) (f_fd f)"
      unfolding ef_inv_def apart_def by metis+
    with f(2) show ?thesis by (rule k_same_agree)
  next
    case False
    with f(3) show ?thesis by (auto simp: k_agree_def) (auto simp: set_errno_def)
  qed
qed

lemma file_step_inv:
  assumes inv: "ef_inv s" and st: "file_step a s s'"
    and ok: "\<And>f'. ef_heap s' a = Some f' \<Longrightarrow> file_ok (sg_page_size s) (kern s') a f' (d_of s' a) (e_of s' a)"
  shows "ef_inv s'"
proof -
  from st obtain f f' where f: "ef_heap s a = Some f" "ef_heap s' = (ef_heap s)(a \<mapsto> f')" "f_ef_fd f' = f_ef_fd f"
      "f_fd f' = f_fd f" "f_status f' = f_status f" "k_same (f_fd f) (kern s) (kern s')"
      "f_status f \<noteq> FILE_OPEN \<longrightarrow> (\<exists>e. kern s' = set_errno e (kern s))"
    by (auto simp: file_step_def)
  have P: "sg_page_size s' = sg_page_size s" using st by (simp add: file_step_def)
  note agree = file_step_agree [OF inv st]
  have "kernel_ok (sg_page_size s') (kern s')" using inv f(6) P kernel_ok_same by (auto simp: ef_inv_def)
  moreover have "slots_ok s'"
    using inv st f(1-3) by (auto simp: ef_inv_def slots_ok_def file_step_def)
  moreover have "queues_ok s'"
    using inv st f(1,2) by (fastforce simp: ef_inv_def queues_ok_def file_step_def)
  moreover have "files_ok s'"
    unfolding files_ok_def P
  proof (intro allI impI)
    fix b g assume g: "ef_heap s' b = Some g"
    show "file_ok (sg_page_size s) (kern s') b g (d_of s' b) (e_of s' b)"
    proof (cases "b = a")
      case True
      with ok g show ?thesis by simp
    next
      case False
      with f(2) g have g': "ef_heap s b = Some g" by simp
      then have "file_ok (sg_page_size s) (kern s) b g (d_of s b) (e_of s b)"
        using inv by (auto simp: ef_inv_def files_ok_def)
      with agree [OF g' False] file_ok_agree [of g "kern s" "kern s'" "sg_page_size s" b] st False
      show ?thesis by (simp add: file_step_def)
    qed
  qed
  moreover have "kino (kern s') (f_fd g) = kino (kern s) (f_fd g)" if "ef_heap s b = Some g" "f_status g = FILE_OPEN" for b g
  proof (cases "b = a")
    case True
    with that f show ?thesis by (simp add: k_same_def)
  next
    case False
    then show ?thesis using k_agree_proj(3) [OF agree [OF that(1) _ that(2)]] by simp
  qed
  then have "apart s'"
    using inv f(1,2,4,5) unfolding ef_inv_def apart_def by (auto split: if_splits)
  ultimately show ?thesis by (simp add: ef_inv_def)
qed

subsection \<open>The pipeline moves\<close>

lemma reqs_simps [simp]:
  "reqs a n @ [Fw_write_req a] = reqs a (Suc n)"
  "reqs_cmpl a i j @ [Fw_write_req a] = reqs_cmpl a i (Suc j)"
  "reqs a n @ [Fw_write_cmpl a] = reqs_cmpl a n 0"
  "Fw_write_req a # E = reqs a n \<longleftrightarrow> (\<exists>m. n = Suc m \<and> E = reqs a m)"
  "Fw_write_req a # E = reqs_cmpl a i j \<longleftrightarrow> (\<exists>m. i = Suc m \<and> E = reqs_cmpl a m j)"
  "Fw_write_cmpl a # E = reqs_cmpl a i j \<longleftrightarrow> i = 0 \<and> E = reqs a j"
  "Fw_write_cmpl a # E \<noteq> reqs a n" "reqs a 0 = []" "[] = reqs a n \<longleftrightarrow> n = 0" "reqs a n = [] \<longleftrightarrow> n = 0"
  "reqs a m = reqs a n \<longleftrightarrow> m = n"
  by (auto simp: reqs_def reqs_cmpl_def replicate_append_same Cons_replicate_eq gr0_conv_Suc split: nat.splits)
     (cases i; auto simp: reqs_def)+

lemma reqs_cmpl_eq [simp]: "reqs_cmpl a i j = reqs_cmpl a m n \<longleftrightarrow> i = m \<and> j = n"
proof (induction i arbitrary: m)
  case 0
  then show ?case by (cases m) (auto simp: reqs_cmpl_def reqs_def)
next
  case (Suc i)
  then show ?case by (cases m) (auto simp: reqs_cmpl_def reqs_def)
qed

lemma pipe_add_task:
  assumes "pipe_ok P a w D E" "task_wf P t"
  shows "pipe_ok P a (w\<lparr>write_totreq_count := write_totreq_count w + 1, w_queue := w_queue w @ [t]\<rparr>) D (E @ [Fw_write_req a])"
proof -
  have "\<exists>i' j'. reqs_cmpl a i (Suc j) = reqs_cmpl a i' j' \<and> j' \<le> Suc n" if "j \<le> n" for i j n
    using that by blast
  with assms show ?thesis by (auto simp: pipe_ok_def pipe_queues_def)
qed

lemma pipe_req_skip:
  assumes "pipe_ok P a w D (Fw_write_req a # E)" "write_req_count w \<noteq> write_cmpl_count w"
  shows "pipe_ok P a w D E"
  using assms by (auto simp: pipe_ok_def pipe_queues_def)

lemma pipe_req_batch:
  assumes "pipe_ok P a w D (Fw_write_req a # E)" "write_req_count w = write_cmpl_count w"
  shows "w_queue w \<noteq> []" "D = []" "b_w_list w = []"
    "pipe_ok P a (w\<lparr>b_w_list := w_queue w, w_queue := [], write_req_count := write_req_count w + length (w_queue w)\<rparr>)
       [T_write a] E"
  using assms by (auto simp: pipe_ok_def pipe_queues_def split: if_splits)

lemma pipe_written:
  assumes "pipe_ok P a w [T_write a] E"
  shows "pipe_ok P a w [] (E @ [Fw_write_cmpl a])"
  using assms by (auto simp: pipe_ok_def pipe_queues_def)

lemma pipe_cmpl:
  assumes "pipe_ok P a w D (Fw_write_cmpl a # E)"
  shows "D = []" "b_w_list w \<noteq> []"
    "w_queue w = [] \<Longrightarrow> pipe_ok P a (w\<lparr>b_w_list := [], write_cmpl_count := write_cmpl_count w + length (b_w_list w)\<rparr>) [] E"
    "w_queue w \<noteq> [] \<Longrightarrow>
       pipe_ok P a (w\<lparr>b_w_list := w_queue w, w_queue := [], write_req_count := write_req_count w + length (w_queue w),
         write_cmpl_count := write_cmpl_count w + length (b_w_list w)\<rparr>) [T_write a] E"
  using assms by (auto simp: pipe_ok_def pipe_queues_def split: if_splits)

lemma pipe_idle:
  assumes "pipe_ok P a w D E" "write_totreq_count w = write_cmpl_count w"
  shows "D = []" "E = []" "b_w_list w = []" "w_queue w = []"
proof -
  have "length (b_w_list w) = 0" "length (w_queue w) = 0" using assms unfolding pipe_ok_def by linarith+
  then have "b_w_list w = []" "w_queue w = []" by simp_all
  moreover have "pipe_queues a w D E" using assms(1) by (simp add: pipe_ok_def)
  ultimately show "D = []" "E = []" "b_w_list w = []" "w_queue w = []"
    by (auto simp: pipe_queues_def split: if_splits)
qed

end
