(* ===== verification/EfSteps.thy ===== *)
theory EfSteps
  imports EfInv
begin

text \<open>
  The steps of the file layer keep the invariant, end with a result, and do to the contents of the
  files what they should: the background threads change no contents, a write appends or overwrites.
\<close>

subsection \<open>What a file holds once everything pending is written\<close>

definition pend_tasks :: "nat \<Rightarrow> eio_write_oper \<Rightarrow> disk_task list \<Rightarrow> write_task list" where
  "pend_tasks a w D = (if D = [T_write a] then b_w_list w else []) @ w_queue w"

definition with_accum :: "bool \<Rightarrow> byte list option \<Rightarrow> nat \<Rightarrow> byte list \<times> nat \<Rightarrow> byte list \<times> nat" where
  "with_accum app page n s = (case page of None \<Rightarrow> s | Some d \<Rightarrow> spec_write app (take n d) s)"

definition logical :: "nat \<Rightarrow> nat \<Rightarrow> ef_file \<Rightarrow> kernel \<Rightarrow> disk_task list \<Rightarrow> byte list \<times> nat" where
  "logical P a f k D =
     (case f_action f of
        None \<Rightarrow> f_abs P f k
      | Some act \<Rightarrow>
          if a_cmd act = oper_write then
            (case a_inp act of
               Write_inp w \<Rightarrow>
                 with_accum (f_append f) (accum_data w) (accum_bytes w)
                   (fold (spec_task (f_append f)) (pend_tasks a w D) (f_abs P f k))
             | _ \<Rightarrow> f_abs P f k)
          else f_abs P f k)"

definition content :: "ef_state \<Rightarrow> nat \<Rightarrow> byte list \<times> nat" where
  "content s a = logical (sg_page_size s) a (the (ef_heap s a)) (kern s) (d_of s a)"

text \<open>A file is flushed by what is pending: after it, nothing stays in memory.\<close>

definition flushes :: "nat \<Rightarrow> ef_file \<Rightarrow> eio_write_oper \<Rightarrow> disk_task list \<Rightarrow> bool" where
  "flushes a f w D \<longleftrightarrow>
     accum_data w = None \<and> (if pend_tasks a w D = [] then \<not> f_dirty f else ends_flushed (pend_tasks a w D))"

definition flushed :: "nat \<Rightarrow> ef_file \<Rightarrow> disk_task list \<Rightarrow> bool" where
  "flushed a f D \<longleftrightarrow> (\<forall>act w. f_action f = Some act \<and> a_cmd act = oper_write \<and> a_inp act = Write_inp w \<longrightarrow> flushes a f w D)"

definition synced :: "ef_state \<Rightarrow> nat \<Rightarrow> bool" where
  "synced s a \<longleftrightarrow> flushed a (the (ef_heap s a)) (d_of s a)"

lemma upd_simps [simp]:
  "winv P (f\<lparr>f_action := x\<rparr>) k = winv P f k" "f_abs P (f\<lparr>f_action := x\<rparr>) k = f_abs P f k"
  "robs P (f\<lparr>f_action := x\<rparr>) k = robs P f k"
  "winv P (f\<lparr>f_write_suspended := i\<rparr>) k = winv P f k" "f_abs P (f\<lparr>f_write_suspended := i\<rparr>) k = f_abs P f k"
  "robs P (f\<lparr>f_write_suspended := i\<rparr>) k = robs P f k"
  "winv P (f\<lparr>f_prevent_mutation := i\<rparr>) k = winv P f k" "f_abs P (f\<lparr>f_prevent_mutation := i\<rparr>) k = f_abs P f k"
  "robs P (f\<lparr>f_prevent_mutation := i\<rparr>) k = robs P f k"
  by (simp_all add: winv_def w_fd_ok_def w_sizes_ok_def w_mode_ok_def f_abs_def f_view_def robs_def buf_matches_def)

lemma has_action_simps [simp]:
  "has_action op (f\<lparr>f_action := None\<rparr>) = False" "has_action op (f\<lparr>f_action := Some act\<rparr>) = (a_cmd act = op)"
  by (simp_all add: has_action_def)

lemma action_same: "f_action f = x \<Longrightarrow> f\<lparr>f_action := x\<rparr> = f"
  by simp

lemma f_abs_agree: "k_agree (f_fd f) k k' \<Longrightarrow> f_abs P f k' = f_abs P f k"
  using k_agree_proj [of "f_fd f" k k'] by (simp add: f_abs_def f_view_def)

lemma logical_agree: "k_agree (f_fd f) k k' \<Longrightarrow> logical P a f k' D = logical P a f k D"
  by (auto simp: logical_def f_abs_agree split: option.splits eio_inp.splits)

text \<open>Other files do not notice a step on one file.\<close>

lemma file_step_other:
  assumes "ef_inv s" "file_step a s s'" "ef_heap s b = Some g" "b \<noteq> a" "f_status g = FILE_OPEN"
  shows "ef_heap s' b = Some g" "content s' b = content s b" "synced s' b = synced s b"
    "kino (kern s') (f_fd g) = kino (kern s) (f_fd g)"
proof -
  show h: "ef_heap s' b = Some g" using assms by (auto simp: file_step_def)
  have p: "sg_page_size s' = sg_page_size s" "d_of s' b = d_of s b" using assms by (auto simp: file_step_def)
  then show "content s' b = content s b"
    using logical_agree [OF file_step_agree [OF assms]] h assms(3) by (simp add: content_def)
  show "synced s' b = synced s b" using p h assms(3) by (simp add: synced_def)
  show "kino (kern s') (f_fd g) = kino (kern s) (f_fd g)" by (rule k_agree_proj(3) [OF file_step_agree [OF assms]])
qed

subsection \<open>The file behind an event or a task\<close>

lemma inv_file: "ef_inv s \<Longrightarrow> ef_heap s a = Some f \<Longrightarrow> file_ok (sg_page_size s) (kern s) a f (d_of s a) (e_of s a)"
  by (simp add: ef_inv_def files_ok_def)

lemma file_ok_writing:
  assumes "file_ok P k a f D E" "E \<noteq> [] \<or> T_write a \<in> set D"
  obtains act w where "f_status f = FILE_OPEN" "f_action f = Some act" "a_cmd act = oper_write"
    "a_status act \<noteq> ACTION_COMPLETE" "a_inp act = Write_inp w" "pipe_ok P a w D E" "can_write (f_oflag f)" "winv P f k"
  using assms
  by (auto simp: file_ok_def open_action_ok_def io_ok_def split: file_status.splits option.splits
      file_oper_type.splits eio_inp.splits)

lemma file_ok_write_upd:
  assumes "file_ok P k a f D E" "f_status f = FILE_OPEN" "f_action f = Some act" "a_cmd act = oper_write"
    and "a_cmd act' = oper_write" "a_status act' \<noteq> ACTION_COMPLETE" "a_inp act' = Write_inp w'" "pipe_ok P a w' D' E'"
  shows "file_ok P k a (f\<lparr>f_action := Some act'\<rparr>) D' E'"
  using assms by (auto simp: file_ok_def open_action_ok_def io_ok_def has_action_def)

lemma write_inp_simp [simp]:
  "f_action f = Some act \<Longrightarrow> a_inp act = Write_inp w \<Longrightarrow> write_inp f = Done w"
  by (simp add: write_inp_def)

lemma set_write_inp_simp [simp]:
  "f_action f = Some act \<Longrightarrow> set_write_inp w f = f\<lparr>f_action := Some (act\<lparr>a_inp := Write_inp w\<rparr>)\<rparr>"
  by (simp add: set_write_inp_def)

lemma file_at_simps [simp]: "ef_heap s a = Some f \<Longrightarrow> file_at s a = Done f"
  by (simp add: file_at_def)

lemma put_file_simps [simp]:
  "ef_heap (put_file a f s) = (ef_heap s)(a \<mapsto> f)" "kern (put_file a f s) = kern s"
  "sg_page_size (put_file a f s) = sg_page_size s" "sg_disk_io (put_file a f s) = sg_disk_io s"
  "sg_file_writer_queue (put_file a f s) = sg_file_writer_queue s" "sg_open_files (put_file a f s) = sg_open_files s"
  "sg_handle_to_file_action (put_file a f s) = sg_handle_to_file_action s" "sg_fd_queue (put_file a f s) = sg_fd_queue s"
  "sg_writer_shutdown (put_file a f s) = sg_writer_shutdown s" "sg_ef_init_done (put_file a f s) = sg_ef_init_done s"
  "ef_brk (put_file a f s) = ef_brk s" "mem_junk (put_file a f s) = mem_junk s"
  "put_file a f (put_file a g s) = put_file a f s"
  by (simp_all add: put_file_def)

lemma queue_simps [simp]:
  "ef_heap (enqueue_task t s) = ef_heap s" "kern (enqueue_task t s) = kern s"
  "sg_page_size (enqueue_task t s) = sg_page_size s" "sg_disk_io (enqueue_task t s) = sg_disk_io s @ [t]"
  "sg_file_writer_queue (enqueue_task t s) = sg_file_writer_queue s" "sg_open_files (enqueue_task t s) = sg_open_files s"
  "sg_handle_to_file_action (enqueue_task t s) = sg_handle_to_file_action s" "sg_fd_queue (enqueue_task t s) = sg_fd_queue s"
  "sg_writer_shutdown (enqueue_task t s) = sg_writer_shutdown s" "sg_ef_init_done (enqueue_task t s) = sg_ef_init_done s"
  "ef_brk (enqueue_task t s) = ef_brk s" "mem_junk (enqueue_task t s) = mem_junk s"
  "ef_heap (enqueue_fwt e s) = ef_heap s" "kern (enqueue_fwt e s) = kern s"
  "sg_page_size (enqueue_fwt e s) = sg_page_size s" "sg_disk_io (enqueue_fwt e s) = sg_disk_io s"
  "sg_file_writer_queue (enqueue_fwt e s) = sg_file_writer_queue s @ [e]" "sg_open_files (enqueue_fwt e s) = sg_open_files s"
  "sg_handle_to_file_action (enqueue_fwt e s) = sg_handle_to_file_action s" "sg_fd_queue (enqueue_fwt e s) = sg_fd_queue s"
  "sg_writer_shutdown (enqueue_fwt e s) = sg_writer_shutdown s" "sg_ef_init_done (enqueue_fwt e s) = sg_ef_init_done s"
  "ef_brk (enqueue_fwt e s) = ef_brk s" "mem_junk (enqueue_fwt e s) = mem_junk s"
  by (simp_all add: enqueue_task_def enqueue_fwt_def)

text \<open>
  What a step preserves of the open file at \<open>b\<close>: it stays open on the same descriptor and inode, a write action
  stays, no close action appears, and its contents are the same.
\<close>

definition carried :: "ef_state \<Rightarrow> ef_state \<Rightarrow> nat \<Rightarrow> ef_file \<Rightarrow> bool" where
  "carried s s' b g \<longleftrightarrow>
     (\<exists>g'. ef_heap s' b = Some g' \<and> f_status g' = FILE_OPEN \<and> f_oflag g' = f_oflag g \<and> f_fd g' = f_fd g \<and>
        f_ef_fd g' = f_ef_fd g \<and> (has_action oper_write g \<longrightarrow> has_action oper_write g') \<and> (has_action oper_close g' \<longrightarrow> has_action oper_close g)) \<and>
     kino (kern s') (f_fd g) = kino (kern s) (f_fd g) \<and> content s' b = content s b \<and> (synced s b \<longrightarrow> synced s' b)"

text \<open>The result of a step that keeps what every open file holds.\<close>

definition keeps :: "ef_state \<Rightarrow> ef_state \<Rightarrow> bool" where
  "keeps s s' \<longleftrightarrow>
     ef_inv s' \<and> sg_page_size s' = sg_page_size s \<and>
     (\<forall>b g. ef_heap s b = Some g \<longrightarrow> f_status g = FILE_OPEN \<longrightarrow> carried s s' b g)"

lemma keeps_inv: "keeps s s' \<Longrightarrow> ef_inv s'"
  by (simp add: keeps_def)

lemma carried_same:
  "ef_heap s' b = Some g \<Longrightarrow> f_status g = FILE_OPEN \<Longrightarrow> content s' b = content s b \<Longrightarrow> synced s' b = synced s b \<Longrightarrow>
   kino (kern s') (f_fd g) = kino (kern s) (f_fd g) \<Longrightarrow> carried s s' b g"
  by (simp add: carried_def)

lemma carried_trans:
  assumes "carried s s1 b g" "\<And>g1. ef_heap s1 b = Some g1 \<Longrightarrow> f_status g1 = FILE_OPEN \<Longrightarrow> carried s1 s2 b g1"
  shows "carried s s2 b g"
proof -
  from assms(1) obtain g1 where g1: "ef_heap s1 b = Some g1" "f_status g1 = FILE_OPEN" "f_oflag g1 = f_oflag g" "f_fd g1 = f_fd g"
    "f_ef_fd g1 = f_ef_fd g" "has_action oper_write g \<longrightarrow> has_action oper_write g1" "has_action oper_close g1 \<longrightarrow> has_action oper_close g"
    "content s1 b = content s b" "synced s b \<longrightarrow> synced s1 b" "kino (kern s1) (f_fd g) = kino (kern s) (f_fd g)" unfolding carried_def by blast
  from assms(2) [OF g1(1,2)] g1 show ?thesis unfolding carried_def by auto
qed

lemma keepsI:
  assumes inv: "ef_inv s" and st: "file_step a s s'" and f: "ef_heap s a = Some f" and f': "ef_heap s' a = Some f'"
    and ok: "file_ok (sg_page_size s) (kern s') a f' (d_of s' a) (e_of s' a)" and "f_oflag f' = f_oflag f"
    and c: "logical (sg_page_size s) a f' (kern s') (d_of s' a) = logical (sg_page_size s) a f (kern s) (d_of s a)"
    and y: "flushed a f (d_of s a) \<Longrightarrow> flushed a f' (d_of s' a)" and z: "has_action oper_write f \<Longrightarrow> has_action oper_write f'"
      "has_action oper_close f' \<Longrightarrow> has_action oper_close f"
  shows "keeps s s'"
proof -
  have "ef_inv s'" using file_step_inv [OF inv st] ok f' by simp
  moreover have P: "sg_page_size s' = sg_page_size s" using st by (simp add: file_step_def)
  moreover have "f_status f' = f_status f" "f_fd f' = f_fd f" "f_ef_fd f' = f_ef_fd f"
    "kino (kern s') (f_fd f) = kino (kern s) (f_fd f)" using st f f' by (auto simp: file_step_def k_same_def)
  moreover have "content s' a = content s a" using c f f' P by (simp add: content_def)
  moreover have "synced s a \<longrightarrow> synced s' a" using y f f' by (simp add: synced_def)
  ultimately have "f_status f = FILE_OPEN \<longrightarrow> carried s s' a f" "ef_inv s'"
    using f' assms(6) z by (auto simp: carried_def)
  then show ?thesis
    using file_step_other [OF inv st] f P unfolding keeps_def by (metis carried_same option.inject)
qed


subsection \<open>Progress of the background threads\<close>

text \<open>
  How much work is left: a waiting write task costs a turn of the file writer, a batch and its
  completion. Every step of the writer or of a disk thread that has something to do lowers it.
\<close>

definition wlen :: "ef_file \<Rightarrow> nat" where
  "wlen f = (case write_inp f of Done w \<Rightarrow> length (w_queue w) | _ \<Rightarrow> 0)"

definition slot_backlog :: "ef_state \<Rightarrow> nat \<Rightarrow> nat" where
  "slot_backlog s i =
     (case sg_open_files s ! i of
        None \<Rightarrow> 0
      | Some a \<Rightarrow> (case ef_heap s a of None \<Rightarrow> 0 | Some f \<Rightarrow> wlen f))"

definition backlog :: "ef_state \<Rightarrow> nat" where
  "backlog s = (\<Sum>i<EF_MAX_FILES. slot_backlog s i)"

definition load :: "ef_state \<Rightarrow> nat" where
  "load s = 3 * backlog s + 2 * length (sg_disk_io s) + length (sg_file_writer_queue s)"

definition no_opens :: "ef_state \<Rightarrow> bool" where
  "no_opens s \<longleftrightarrow> (\<forall>a. T_open a \<notin> set (sg_disk_io s))"

definition progress :: "ef_state \<Rightarrow> ef_state \<Rightarrow> bool" where
  "progress s s' \<longleftrightarrow> load s' < load s \<and> (no_opens s \<longrightarrow> no_opens s')"

lemma backlog_same: "sg_open_files s' = sg_open_files s \<Longrightarrow> ef_heap s' = ef_heap s \<Longrightarrow> backlog s' = backlog s"
  by (simp add: backlog_def slot_backlog_def cong: option.case_cong)

lemma backlog_upd:
  assumes inv: "ef_inv s" and f: "ef_heap s a = Some f"
    and s': "ef_heap s' = (ef_heap s)(a \<mapsto> f')" "sg_open_files s' = sg_open_files s"
  shows "backlog s' + wlen f = backlog s + wlen f'"
proof -
  let ?i = "f_ef_fd f"
  have i: "?i \<in> {..<EF_MAX_FILES}" "sg_open_files s ! ?i = Some a" using inv f by (auto simp: ef_inv_def slots_ok_def)
  have "slot_backlog s' j = slot_backlog s j" if "j \<in> {..<EF_MAX_FILES} - {?i}" for j
  proof -
    have "sg_open_files s ! j \<noteq> Some a"
    proof
      assume "sg_open_files s ! j = Some a"
      with inv that have "\<exists>g. ef_heap s a = Some g \<and> f_ef_fd g = j" unfolding ef_inv_def slots_ok_def by blast
      with f that show False by auto
    qed
    then show ?thesis using s' by (auto simp: slot_backlog_def split: option.splits)
  qed
  then have "sum (slot_backlog s') ({..<EF_MAX_FILES} - {?i}) = sum (slot_backlog s) ({..<EF_MAX_FILES} - {?i})"
    by (rule sum.cong [OF refl])
  moreover have "slot_backlog s ?i = wlen f" "slot_backlog s' ?i = wlen f'" using i(2) f s' by (simp_all add: slot_backlog_def)
  ultimately show ?thesis
    using sum.remove [OF _ i(1), of "slot_backlog s"] sum.remove [OF _ i(1), of "slot_backlog s'"] by (simp add: backlog_def)
qed

lemma progressI:
  assumes "ef_inv s" "ef_heap s a = Some f" "ef_heap s' = (ef_heap s)(a \<mapsto> f')" "sg_open_files s' = sg_open_files s"
    and "3 * wlen f' + 2 * length (sg_disk_io s') + length (sg_file_writer_queue s') <
         3 * wlen f + 2 * length (sg_disk_io s) + length (sg_file_writer_queue s)"
    and "\<forall>t\<in>set (sg_disk_io s'). t \<in> set (sg_disk_io s) \<or> t = T_write a"
  shows "progress s s'"
  using backlog_upd [OF assms(1-4)] assms(5,6) by (auto simp: progress_def load_def no_opens_def)

subsection \<open>The file writer and the disk thread\<close>

lemma pop_event:
  assumes "ef_inv s" "sg_file_writer_queue s = ev # evs" "fw_file ev = Some a"
  shows "\<exists>f. ef_heap s a = Some f" "e_of s a = ev # e_of (s\<lparr>sg_file_writer_queue := evs\<rparr>) a"
    "b \<noteq> a \<Longrightarrow> e_of (s\<lparr>sg_file_writer_queue := evs\<rparr>) b = e_of s b" "d_of (s\<lparr>sg_file_writer_queue := evs\<rparr>) b = d_of s b"
  using assms by (auto simp: ef_inv_def queues_ok_def e_of_def d_of_def)

lemma fw_write_req_keeps:
  assumes inv: "ef_inv s" and q: "sg_file_writer_queue s = Fw_write_req a # evs"
  shows "\<exists>s'. fw_write_req a (s\<lparr>sg_file_writer_queue := evs\<rparr>) = Done s' \<and> keeps s s' \<and> progress s s'"
proof -
  let ?s = "s\<lparr>sg_file_writer_queue := evs\<rparr>" and ?P = "sg_page_size s"
  from pop_event [OF inv q] obtain f where f: "ef_heap s a = Some f" and E: "e_of s a = Fw_write_req a # e_of ?s a" by auto
  note fo = inv_file [OF inv f]
  from fo obtain act w where w: "f_status f = FILE_OPEN" "f_action f = Some act" "a_cmd act = oper_write"
    "a_status act \<noteq> ACTION_COMPLETE" "a_inp act = Write_inp w" "pipe_ok ?P a w (d_of s a) (Fw_write_req a # e_of ?s a)"
    by (rule file_ok_writing) (use E in auto)
  show ?thesis
  proof (cases "write_req_count w = write_cmpl_count w")
    case False
    have "fw_write_req a ?s = Done ?s" using f w False by (simp add: fw_write_req_def)
    moreover have "file_step a s ?s"
      by (rule file_stepI [OF f]) (use f q w(1) in \<open>auto simp: same_globals_def d_of_def e_of_def\<close>)
    moreover have "file_ok ?P (kern s) a f (d_of s a) (e_of ?s a)"
      using file_ok_write_upd [OF fo w(1-3) w(3,4,5) pipe_req_skip [OF w(6) False]] w(2) by (simp add: action_same)
    moreover have "progress s ?s"
      by (rule progressI [OF inv f, where f' = f]) (use f q in \<open>auto simp: fun_upd_idem\<close>)
    ultimately show ?thesis
      using keepsI [OF inv, of a ?s f f] f by (auto simp: d_of_def)
  next
    case True
    note b = pipe_req_batch [OF w(6) True]
    let ?w = "w\<lparr>b_w_list := w_queue w, w_queue := [], write_req_count := write_req_count w + length (w_queue w)\<rparr>"
    let ?f = "f\<lparr>f_action := Some (act\<lparr>a_inp := Write_inp ?w\<rparr>)\<rparr>"
    let ?s' = "enqueue_task (T_write a) (put_file a ?f ?s)"
    have res: "fw_write_req a ?s = Done ?s'" using f w True b by (simp add: fw_write_req_def take_batch_def)
    have st: "file_step a s ?s'"
      by (rule file_stepI [OF f, where f' = ?f]) (use f q w(1) in \<open>auto simp: same_globals_def d_of_def e_of_def\<close>)
    have D: "d_of ?s' a = [T_write a]" "e_of ?s' a = e_of ?s a" using b(2) by (simp_all add: d_of_def e_of_def)
    have "file_ok ?P (kern s) a ?f (d_of ?s' a) (e_of ?s' a)"
      unfolding D by (rule file_ok_write_upd [OF fo w(1-3) _ _ _ b(4)]) (use w in simp_all)
    moreover have "logical ?P a ?f (kern s) (d_of ?s' a) = logical ?P a f (kern s) (d_of s a)"
      using w b D by (simp add: logical_def pend_tasks_def)
    moreover have "flushed a ?f (d_of ?s' a)" if "flushed a f (d_of s a)"
      using that w b D by (simp add: flushed_def flushes_def pend_tasks_def)
    ultimately have "keeps s ?s'" using keepsI [OF inv st f] w(3) by (simp add: has_action_def)
    moreover have "progress s ?s'"
      by (rule progressI [OF inv f, where f' = ?f]) (use f q w b in \<open>auto simp: wlen_def Suc_le_eq neq_Nil_conv\<close>)
    ultimately show ?thesis using res by blast
  qed
qed

lemma fw_write_cmpl_keeps:
  assumes inv: "ef_inv s" and q: "sg_file_writer_queue s = Fw_write_cmpl a # evs"
  shows "\<exists>s'. fw_write_cmpl a (s\<lparr>sg_file_writer_queue := evs\<rparr>) = Done s' \<and> keeps s s' \<and> progress s s'"
proof -
  let ?s = "s\<lparr>sg_file_writer_queue := evs\<rparr>" and ?P = "sg_page_size s"
  from pop_event [OF inv q] obtain f where f: "ef_heap s a = Some f" and E: "e_of s a = Fw_write_cmpl a # e_of ?s a" by auto
  note fo = inv_file [OF inv f]
  from fo obtain act w where w: "f_status f = FILE_OPEN" "f_action f = Some act" "a_cmd act = oper_write"
    "a_status act \<noteq> ACTION_COMPLETE" "a_inp act = Write_inp w" "pipe_ok ?P a w (d_of s a) (Fw_write_cmpl a # e_of ?s a)"
    by (rule file_ok_writing) (use E in auto)
  note b = pipe_cmpl [OF w(6)]
  show ?thesis
  proof (cases "w_queue w = []")
    case True
    let ?w = "w\<lparr>b_w_list := [], write_cmpl_count := write_cmpl_count w + length (b_w_list w)\<rparr>"
    let ?f = "f\<lparr>f_action := Some (act\<lparr>a_inp := Write_inp ?w\<rparr>)\<rparr>"
    let ?s' = "put_file a ?f ?s"
    have res: "fw_write_cmpl a ?s = Done ?s'" using f w True by (simp add: fw_write_cmpl_def take_batch_def Let_def)
    have st: "file_step a s ?s'"
      by (rule file_stepI [OF f, where f' = ?f]) (use f q w(1) in \<open>auto simp: same_globals_def d_of_def e_of_def\<close>)
    have D: "d_of ?s' a = []" "e_of ?s' a = e_of ?s a" using b(1) by (simp_all add: d_of_def e_of_def)
    have "file_ok ?P (kern s) a ?f (d_of ?s' a) (e_of ?s' a)"
      unfolding D by (rule file_ok_write_upd [OF fo w(1-3) _ _ _ b(3) [OF True]]) (use w in simp_all)
    moreover have "logical ?P a ?f (kern s) (d_of ?s' a) = logical ?P a f (kern s) (d_of s a)"
      using w b D True by (simp add: logical_def pend_tasks_def)
    moreover have "flushed a ?f (d_of ?s' a)" if "flushed a f (d_of s a)"
      using that w b D True by (simp add: flushed_def flushes_def pend_tasks_def)
    ultimately have "keeps s ?s'" using keepsI [OF inv st f] w(3) by (simp add: has_action_def)
    moreover have "progress s ?s'"
      by (rule progressI [OF inv f, where f' = ?f]) (use f q w b in \<open>auto simp: wlen_def Suc_le_eq neq_Nil_conv\<close>)
    ultimately show ?thesis using res by blast
  next
    case False
    let ?w = "w\<lparr>b_w_list := w_queue w, w_queue := [], write_req_count := write_req_count w + length (w_queue w),
         write_cmpl_count := write_cmpl_count w + length (b_w_list w)\<rparr>"
    let ?f = "f\<lparr>f_action := Some (act\<lparr>a_inp := Write_inp ?w\<rparr>)\<rparr>"
    let ?s' = "enqueue_task (T_write a) (put_file a ?f ?s)"
    have res: "fw_write_cmpl a ?s = Done ?s'" using f w False
      by (simp add: fw_write_cmpl_def take_batch_def Let_def) (simp add: put_file_def enqueue_task_def)
    have st: "file_step a s ?s'"
      by (rule file_stepI [OF f, where f' = ?f]) (use f q w(1) in \<open>auto simp: same_globals_def d_of_def e_of_def\<close>)
    have D: "d_of ?s' a = [T_write a]" "e_of ?s' a = e_of ?s a" using b(1) by (simp_all add: d_of_def e_of_def)
    have "file_ok ?P (kern s) a ?f (d_of ?s' a) (e_of ?s' a)"
      unfolding D by (rule file_ok_write_upd [OF fo w(1-3) _ _ _ b(4) [OF False]]) (use w in simp_all)
    moreover have "logical ?P a ?f (kern s) (d_of ?s' a) = logical ?P a f (kern s) (d_of s a)"
      using w b D False by (simp add: logical_def pend_tasks_def)
    moreover have "flushed a ?f (d_of ?s' a)" if "flushed a f (d_of s a)"
      using that w b D False by (simp add: flushed_def flushes_def pend_tasks_def)
    ultimately have "keeps s ?s'" using keepsI [OF inv st f] w(3) by (simp add: has_action_def)
    moreover have "progress s ?s'"
      by (rule progressI [OF inv f, where f' = ?f]) (use f q w b False in \<open>auto simp: wlen_def Suc_le_eq neq_Nil_conv\<close>)
    ultimately show ?thesis using res by blast
  qed
qed

lemma file_writer_keeps:
  assumes inv: "ef_inv s"
  shows "\<exists>s'. file_writer s = Done s' \<and> keeps s s' \<and> (s' = s \<and> sg_file_writer_queue s = [] \<or> progress s s')"
proof (cases "sg_file_writer_queue s")
  case Nil
  with inv show ?thesis by (auto simp: file_writer_def keeps_def carried_def)
next
  case (Cons ev evs)
  have "\<not> sg_writer_shutdown s" "ev \<noteq> Fw_shutdown"
    using inv Cons by (auto simp: ef_inv_def slots_ok_def queues_ok_def)
  with Cons fw_write_req_keeps [OF inv, of _ evs] fw_write_cmpl_keeps [OF inv, of _ evs] show ?thesis
    by (cases ev) (auto simp: file_writer_def Let_def)
qed


lemma task_wf_ok: "task_wf P t \<Longrightarrow> P < 2147483648 \<Longrightarrow> task_ok t"
  by (auto simp: task_wf_def task_ok_def task_data_def split: write_task_evt.splits)

lemma ef_file_write_keeps:
  assumes inv: "ef_inv s" and q: "sg_disk_io s = T_write a # ts"
  shows "\<exists>s'. ef_file_write a (s\<lparr>sg_disk_io := ts\<rparr>) = Done s' \<and> keeps s s' \<and> progress s s'"
proof -
  let ?s = "s\<lparr>sg_disk_io := ts\<rparr>" and ?P = "sg_page_size s"
  have D0: "d_of s a = T_write a # d_of ?s a" "e_of ?s a = e_of s a" using q by (simp_all add: d_of_def e_of_def)
  obtain f where f: "ef_heap s a = Some f" using inv q by (auto simp: ef_inv_def queues_ok_def)
  note fo = inv_file [OF inv f]
  from fo obtain act w where w: "f_status f = FILE_OPEN" "f_action f = Some act" "a_cmd act = oper_write"
    "a_status act \<noteq> ACTION_COMPLETE" "a_inp act = Write_inp w" "pipe_ok ?P a w (d_of s a) (e_of s a)" "can_write (f_oflag f)"
    "winv ?P f (kern s)"
    by (rule file_ok_writing) (use D0 in auto)
  have D: "d_of s a = [T_write a]" "d_of ?s a = []" using w(6) D0 by (auto simp: pipe_ok_def pipe_queues_def split: if_splits)
  let ?f0 = "f\<lparr>f_action := Some (act\<lparr>a_status := ACTION_IN_PROGRESS\<rparr>)\<rparr>"
  have "?P < 2147483648" using inv by (simp add: ef_inv_def kernel_ok_def)
  then have "list_all task_ok (b_w_list w)"
    using w(6) task_wf_ok by (auto simp: pipe_ok_def list_all_iff)
  with write_tasks_ok [of ?P ?f0 "kern s" "b_w_list w" "mem_junk s" 0] w(8) obtain n f1 k1 where
    r: "write_tasks ?P (mem_junk s) (b_w_list w) 0 ?f0 (kern s) = Done (n, f1, k1)" "winv ?P f1 k1" "w_same ?f0 f1"
      "k_same (f_fd f) (kern s) k1" "f_abs ?P f1 k1 = fold (spec_task (f_append f)) (b_w_list w) (f_abs ?P f (kern s))"
      "ends_flushed (b_w_list w) \<longrightarrow> \<not> f_dirty f1"
    by auto
  have f1: "f_action f1 = Some (act\<lparr>a_status := ACTION_IN_PROGRESS\<rparr>)" "f_ef_fd f1 = f_ef_fd f" "f_fd f1 = f_fd f"
    "f_oflag f1 = f_oflag f" "f_status f1 = f_status f" "f_write_suspended f1 = f_write_suspended f"
    "f_prevent_mutation f1 = f_prevent_mutation f" "f_r_a_started f1 = f_r_a_started f"
    using r(3) by (simp_all add: w_same_def)
  let ?act = "act\<lparr>a_status := ACTION_IN_PROGRESS, a_return_value := a_return_value act + int n, a_err := errno k1\<rparr>"
  let ?f2 = "f1\<lparr>f_action := Some ?act\<rparr>"
  let ?s' = "enqueue_fwt (Fw_write_cmpl a) (put_file a ?f2 (?s\<lparr>kern := k1\<rparr>))"
  have res: "ef_file_write a ?s = Done ?s'"
    using f w(2,5) r(1) f1(1) by (simp add: ef_file_write_def set_action_status_def)
  have st: "file_step a s ?s'"
    by (rule file_stepI [OF f, where f' = ?f2]) (use f q w(1) f1 r(4) in \<open>auto simp: same_globals_def d_of_def e_of_def\<close>)
  have D': "d_of ?s' a = []" "e_of ?s' a = e_of s a @ [Fw_write_cmpl a]"
    using D(2) by (simp_all add: d_of_def e_of_def)
  have "pipe_ok ?P a w [] (e_of s a @ [Fw_write_cmpl a])" using pipe_written w(6) D by simp
  then have "file_ok ?P k1 a ?f2 (d_of ?s' a) (e_of ?s' a)"
    using fo w r(2) f1 D' by (simp add: file_ok_def open_action_ok_def io_ok_def has_action_def)
  moreover have "logical ?P a ?f2 k1 (d_of ?s' a) = logical ?P a f (kern s) (d_of s a)"
    using w f1 D D' r(5) by (simp add: logical_def pend_tasks_def)
  moreover have "flushed a ?f2 (d_of ?s' a)" if "flushed a f (d_of s a)"
    using that w f1 D D' r(6)
    by (auto simp: flushed_def flushes_def pend_tasks_def ends_flushed_def pipe_ok_def pipe_queues_def split: if_splits)
  ultimately have "keeps s ?s'" using keepsI [OF inv st f] f1 w(3) by (simp add: has_action_def)
  moreover have "progress s ?s'"
    by (rule progressI [OF inv f, where f' = ?f2]) (use f q w f1 in \<open>auto simp: wlen_def\<close>)
  ultimately show ?thesis using res by blast
qed

subsection \<open>Gathering the caller's bytes\<close>

definition apply_w :: "bool \<Rightarrow> nat \<Rightarrow> eio_write_oper \<Rightarrow> disk_task list \<Rightarrow> byte list \<times> nat \<Rightarrow> byte list \<times> nat" where
  "apply_w app a w D s =
     with_accum app (accum_data w) (accum_bytes w) (fold (spec_task app) (pend_tasks a w D) s)"

definition in_file :: "byte list \<times> nat \<Rightarrow> bool" where
  "in_file s \<longleftrightarrow> snd s \<le> length (fst s)"

lemma in_file_write: "in_file s \<Longrightarrow> in_file (spec_write app d s)"
  by (auto simp: in_file_def spec_write_def Let_def split: prod.splits)

lemma in_file_tasks: "in_file s \<Longrightarrow> in_file (fold (spec_task app) ts s)"
  by (induction ts arbitrary: s) (auto simp: spec_task_def in_file_write split: write_task_evt.splits)

lemma in_file_apply: "in_file s \<Longrightarrow> in_file (apply_w app a w D s)"
  by (auto simp: apply_w_def with_accum_def in_file_tasks in_file_write split: option.splits)

lemma in_file_f_abs: "winv P f k \<Longrightarrow> in_file (f_abs P f k)"
  by (auto simp: in_file_def f_abs_def length_f_view) (auto simp: winv_def w_sizes_ok_def split: if_splits)

lemma spec_write_append: "in_file s \<Longrightarrow> spec_write app (d @ e) s = spec_write app e (spec_write app d s)"
  by (auto simp: spec_write_def in_file_def splice_at_end splice_at_splice_at_adjacent Let_def split: prod.splits)

text \<open>The pipeline takes the bytes \<open>d\<close> and emits \<open>m\<close> requests.\<close>

definition pipe_ext :: "nat \<Rightarrow> nat \<Rightarrow> byte list \<Rightarrow> eio_write_oper \<Rightarrow> nat \<Rightarrow> eio_write_oper \<Rightarrow> bool" where
  "pipe_ext P a d w m w' \<longleftrightarrow>
     (\<forall>D E. pipe_ok P a w D E \<longrightarrow> pipe_ok P a w' D (E @ reqs a m)) \<and>
     (\<forall>app D s. in_file s \<longrightarrow>
        apply_w app a w' D s = (if d = [] then id else spec_write app d) (apply_w app a w D s))"

lemma pipe_ext_refl: "pipe_ext P a [] w 0 w"
  by (simp add: pipe_ext_def)

lemma reqs_append: "reqs a m @ reqs a n = reqs a (m + n)"
  by (simp add: reqs_def replicate_add)

lemma pipe_ext_trans:
  assumes "pipe_ext P a d w m w1" "pipe_ext P a e w1 n w2"
  shows "pipe_ext P a (d @ e) w (m + n) w2"
proof -
  have "pipe_ok P a w2 D (E @ reqs a (m + n))" if "pipe_ok P a w D E" for D E
    using assms that unfolding pipe_ext_def by (metis append.assoc reqs_append)
  moreover have "apply_w app a w2 D s = (if d @ e = [] then id else spec_write app (d @ e)) (apply_w app a w D s)"
    if "in_file s" for app D s
  proof -
    have "apply_w app a w1 D s = (if d = [] then id else spec_write app d) (apply_w app a w D s)"
      "apply_w app a w2 D s = (if e = [] then id else spec_write app e) (apply_w app a w1 D s)"
      using assms that unfolding pipe_ext_def by blast+
    then show ?thesis using in_file_apply [OF that, of app a w D]
      by (cases "d = []"; cases "e = []") (simp_all add: spec_write_append)
  qed
  ultimately show ?thesis unfolding pipe_ext_def by blast
qed

text \<open>Copying a chunk into the page, and handing a page over.\<close>

lemma pipe_ext_chunk:
  assumes "accum_wf P (accum_data w) (accum_bytes w)" "c \<noteq> []" "accum_bytes w + length c < P"
    and "page = (case accum_data w of None \<Rightarrow> replicate P 0 | Some d \<Rightarrow> d)"
  shows "pipe_ext P a c w 0
    (w\<lparr>accum_data := Some (splice_at 0 page (accum_bytes w) c), accum_bytes := accum_bytes w + length c\<rparr>)"
proof -
  have lp: "length page = P" "accum_bytes w < P" using assms by (auto simp: accum_wf_def split: option.splits)
  have tk: "take (accum_bytes w + length c) (splice_at 0 page (accum_bytes w) c) = take (accum_bytes w) page @ c"
    using lp by (simp add: splice_at_def)
  let ?w = "w\<lparr>accum_data := Some (splice_at 0 page (accum_bytes w) c), accum_bytes := accum_bytes w + length c\<rparr>"
  have "apply_w app a ?w D s = spec_write app c (apply_w app a w D s)" if s: "in_file s" for app D s
  proof (cases "accum_data w")
    case None
    with assms(1) have "accum_bytes w = 0" by (simp add: accum_wf_def)
    with None tk show ?thesis by (simp add: apply_w_def with_accum_def pend_tasks_def)
  next
    case (Some d)
    with assms(4) have "page = d" by simp
    with Some tk s show ?thesis
      by (simp add: apply_w_def with_accum_def pend_tasks_def spec_write_append in_file_tasks)
  qed
  moreover have "accum_wf P (Some (splice_at 0 page (accum_bytes w) c)) (accum_bytes w + length c)"
    using assms lp by (simp add: accum_wf_def)
  ultimately show ?thesis using assms(2) by (auto simp: pipe_ext_def pipe_ok_def pipe_queues_def)
qed

definition hand_over :: "byte list \<Rightarrow> nat \<Rightarrow> eio_write_oper \<Rightarrow> eio_write_oper" where
  "hand_over page n w =
     w\<lparr>accum_data := None, accum_bytes := 0, write_totreq_count := write_totreq_count w + 1,
       w_queue := w_queue w @ [\<lparr>w_cmd = file_write_evt, w_buf = Some page, w_nbyte = n\<rparr>]\<rparr>"

lemma hand_over_pipe:
  assumes "pipe_ok P a w D E" "length page = P" "0 < n" "n \<le> P"
  shows "pipe_ok P a (hand_over page n w) D (E @ [Fw_write_req a])"
proof -
  let ?w = "w\<lparr>accum_data := None, accum_bytes := 0\<rparr>"
  have "pipe_ok P a ?w D E" using assms by (auto simp: pipe_ok_def pipe_queues_def accum_wf_def)
  from pipe_add_task [OF this, of "\<lparr>w_cmd = file_write_evt, w_buf = Some page, w_nbyte = n\<rparr>"] assms
  show ?thesis by (simp add: hand_over_def task_wf_def)
qed

lemma hand_over_apply:
  "length page = P \<Longrightarrow> n \<le> P \<Longrightarrow>
   apply_w app a (hand_over page n w) D s = spec_write app (take n page) (fold (spec_task app) (pend_tasks a w D) s)"
  by (simp add: hand_over_def apply_w_def with_accum_def pend_tasks_def spec_task_def task_data_def)

lemma pipe_ext_full:
  assumes "accum_wf P (accum_data w) (accum_bytes w)" "accum_bytes w + length c = P"
    and "page = (case accum_data w of None \<Rightarrow> replicate P 0 | Some d \<Rightarrow> d)"
  shows "pipe_ext P a c w 1 (hand_over (splice_at 0 page (accum_bytes w) c) P w)"
proof -
  have lp: "length page = P" "accum_bytes w < P" using assms by (auto simp: accum_wf_def split: option.splits)
  have tk: "take P (splice_at 0 page (accum_bytes w) c) = take (accum_bytes w) page @ c"
    using lp assms(2) by (simp add: splice_at_def)
  let ?page = "splice_at 0 page (accum_bytes w) c"
  have lp': "length ?page = P" using lp assms(2) by simp
  have "apply_w app a (hand_over ?page P w) D s = spec_write app c (apply_w app a w D s)" if s: "in_file s" for app D s
  proof (cases "accum_data w")
    case None
    with assms(1) have "accum_bytes w = 0" by (simp add: accum_wf_def)
    with None tk hand_over_apply [OF lp' order.refl] show ?thesis
      by (simp add: apply_w_def [of app a w] with_accum_def)
  next
    case (Some d)
    with assms(3) have "page = d" by simp
    with Some tk s hand_over_apply [OF lp' order.refl] show ?thesis
      by (simp add: apply_w_def [of app a w] with_accum_def spec_write_append in_file_tasks)
  qed
  moreover have "c \<noteq> []" using lp assms(2) by auto
  ultimately show ?thesis
    using hand_over_pipe [of P a w _ _ ?page P] lp lp' by (auto simp: pipe_ext_def reqs_def)
qed


definition act_upd :: "nat \<Rightarrow> ef_file \<Rightarrow> eio_file_cmd \<Rightarrow> nat \<Rightarrow> ef_state \<Rightarrow> ef_state" where
  "act_upd a f act m s =
     s\<lparr>ef_heap := (ef_heap s)(a \<mapsto> f\<lparr>f_action := Some act\<rparr>),
       sg_file_writer_queue := sg_file_writer_queue s @ reqs a m\<rparr>"

definition writing :: "ef_file \<Rightarrow> eio_file_cmd \<Rightarrow> eio_write_oper \<Rightarrow> bool" where
  "writing f act w \<longleftrightarrow> f_action f = Some act \<and> a_cmd act = oper_write \<and> a_inp act = Write_inp w"

lemma write_buffer_sync_eq:
  assumes "ef_heap s a = Some f" "writing f act w" "accum_data w = Some page"
  shows "write_buffer_sync a s =
    Done (act_upd a f (low_eio_cmd_init (act\<lparr>a_inp := Write_inp (hand_over page (accum_bytes w) w)\<rparr>) oper_write) 1 s)"
  using assms
  by (simp add: write_buffer_sync_def writing_def hand_over_def act_upd_def put_file_def enqueue_fwt_def reqs_def Let_def)

lemma low_init_write [simp]:
  "a_cmd (low_eio_cmd_init act oper_write) = oper_write" "a_inp (low_eio_cmd_init act oper_write) = a_inp act"
  "a_status (low_eio_cmd_init act oper_write) = ACTION_INITIATED"
  by (simp_all add: low_eio_cmd_init_def)

lemma act_upd_act_upd:
  "ef_heap s a = Some f \<Longrightarrow> act_upd a (f\<lparr>f_action := Some x\<rparr>) act' n (act_upd a f x m s) = act_upd a f act' (m + n) s"
  by (simp add: act_upd_def reqs_append)

lemma accumulate_ok:
  assumes "ef_heap s a = Some f" "writing f act w" "a_status act \<noteq> ACTION_COMPLETE"
    and "accum_wf (sg_page_size s) (accum_data w) (accum_bytes w)"
    and "rem \<le> fuel" "taken + rem \<le> length buf" "taken + rem < 2147483648"
  shows "\<exists>act' w' m. accumulate fuel a buf rem taken s = Done (taken + rem, act_upd a f act' m s) \<and>
    writing (f\<lparr>f_action := Some act'\<rparr>) act' w' \<and> a_status act' \<noteq> ACTION_COMPLETE \<and>
    pipe_ext (sg_page_size s) a (take rem (drop taken buf)) w m w'"
  using assms
proof (induction fuel arbitrary: s f act w rem taken)
  case 0
  then show ?case
    by (intro exI [of _ act] exI [of _ w] exI [of _ 0])
       (auto simp: act_upd_def writing_def action_same fun_upd_idem pipe_ext_refl)
next
  case (Suc fuel)
  let ?P = "sg_page_size s"
  show ?case
  proof (cases "rem = 0")
    case True
    with Suc.prems show ?thesis
      by (intro exI [of _ act] exI [of _ w] exI [of _ 0])
         (auto simp: act_upd_def writing_def action_same fun_upd_idem pipe_ext_refl)
  next
    case False
    define page where "page = (case accum_data w of None \<Rightarrow> replicate ?P 0 | Some d \<Rightarrow> d)"
    define t where "t = (if rem > ?P - accum_bytes w then ?P - accum_bytes w else rem)"
    define c where "c = take t (drop taken buf)"
    have lp: "length page = ?P" "accum_bytes w < ?P"
      using Suc.prems(4) by (auto simp: page_def accum_wf_def split: option.splits)
    have t: "0 < t" "t \<le> rem" "accum_bytes w + t \<le> ?P" using lp False by (auto simp: t_def)
    have lc: "length c = t" "c \<noteq> []" using t Suc.prems(6) by (auto simp: c_def)
    have cp: "memcpy page (accum_bytes w) buf taken t = Done (splice_at 0 page (accum_bytes w) c)"
      using lp t Suc.prems(6) by (simp add: memcpy_Done c_def)
    let ?w1 = "w\<lparr>accum_data := Some (splice_at 0 page (accum_bytes w) c), accum_bytes := accum_bytes w + t\<rparr>"
    let ?a1 = "act\<lparr>a_inp := Write_inp ?w1\<rparr>"
    let ?f1 = "f\<lparr>f_action := Some ?a1\<rparr>"
    have wr1: "writing ?f1 ?a1 ?w1" using Suc.prems(2) by (simp add: writing_def)
    have "\<exists>act2 w2 m2. (if accum_bytes ?w1 \<ge> ?P then write_buffer_sync a (put_file a ?f1 s) else Done (put_file a ?f1 s)) =
        Done (act_upd a f act2 m2 s) \<and> writing (f\<lparr>f_action := Some act2\<rparr>) act2 w2 \<and> a_status act2 \<noteq> ACTION_COMPLETE \<and>
        accum_wf ?P (accum_data w2) (accum_bytes w2) \<and> pipe_ext ?P a c w m2 w2"
    proof (cases "accum_bytes w + t = ?P")
      case True
      let ?pg = "splice_at 0 page (accum_bytes w) c"
      have h: "hand_over ?pg (accum_bytes w + t) ?w1 = hand_over ?pg ?P w" using True by (simp add: hand_over_def)
      let ?a2 = "low_eio_cmd_init (?a1\<lparr>a_inp := Write_inp (hand_over ?pg ?P w)\<rparr>) oper_write"
      have "write_buffer_sync a (put_file a ?f1 s) = Done (act_upd a f ?a2 1 s)"
        using write_buffer_sync_eq [of "put_file a ?f1 s" a ?f1 ?a1 ?w1 ?pg] wr1 h
        by (simp add: act_upd_def put_file_def)
      moreover have "pipe_ext ?P a c w 1 (hand_over ?pg ?P w)"
        using pipe_ext_full [OF Suc.prems(4), of c page a] True lc by (simp add: page_def)
      ultimately show ?thesis using True lp
        by (intro exI [of _ ?a2] exI [of _ "hand_over ?pg ?P w"] exI [of _ 1])
           (simp add: writing_def, simp add: hand_over_def accum_wf_def)
    next
      case False
      then have lt: "accum_bytes w + t < ?P" using t by simp
      have "pipe_ext ?P a c w 0 ?w1"
        using pipe_ext_chunk [OF Suc.prems(4) lc(2), of page a] lt lc by (simp add: page_def)
      with lt lp lc t wr1 Suc.prems(2,3) show ?thesis
        by (intro exI [of _ ?a1] exI [of _ ?w1] exI [of _ 0])
           (simp add: act_upd_def put_file_def accum_wf_def writing_def)
    qed
    then obtain act2 w2 m2 where r: "(if accum_bytes ?w1 \<ge> ?P then write_buffer_sync a (put_file a ?f1 s) else Done (put_file a ?f1 s)) =
        Done (act_upd a f act2 m2 s)" "writing (f\<lparr>f_action := Some act2\<rparr>) act2 w2" "a_status act2 \<noteq> ACTION_COMPLETE"
        "accum_wf ?P (accum_data w2) (accum_bytes w2)" "pipe_ext ?P a c w m2 w2"
      by blast
    have st: "accumulate (Suc fuel) a buf rem taken s = accumulate fuel a buf (rem - t) (taken + t) (act_upd a f act2 m2 s)"
      using False Suc.prems(1,2,7) cp r(1) set_write_inp_simp [of f act ?w1]
      unfolding accumulate.simps Let_def t_def [symmetric] page_def [symmetric]
      by (auto simp: writing_def t_def [symmetric] page_def [symmetric] split: if_splits)
    have "\<exists>act' w' m. accumulate fuel a buf (rem - t) (taken + t) (act_upd a f act2 m2 s) =
        Done (taken + t + (rem - t), act_upd a (f\<lparr>f_action := Some act2\<rparr>) act' m (act_upd a f act2 m2 s)) \<and>
        writing ((f\<lparr>f_action := Some act2\<rparr>)\<lparr>f_action := Some act'\<rparr>) act' w' \<and> a_status act' \<noteq> ACTION_COMPLETE \<and>
        pipe_ext (sg_page_size (act_upd a f act2 m2 s)) a (take (rem - t) (drop (taken + t) buf)) w2 m w'"
      by (rule Suc.IH [OF _ r(2,3)]) (use r(4) Suc.prems t in \<open>simp_all add: act_upd_def\<close>)
    then obtain act' w' m where i: "accumulate fuel a buf (rem - t) (taken + t) (act_upd a f act2 m2 s) =
        Done (taken + t + (rem - t), act_upd a (f\<lparr>f_action := Some act2\<rparr>) act' m (act_upd a f act2 m2 s))"
        "writing (f\<lparr>f_action := Some act'\<rparr>) act' w'" "a_status act' \<noteq> ACTION_COMPLETE"
        "pipe_ext ?P a (take (rem - t) (drop (taken + t) buf)) w2 m w'"
      by (auto simp: act_upd_def writing_def)
    have "c @ take (rem - t) (drop (taken + t) buf) = take rem (drop taken buf)"
      unfolding c_def using t(2) by (metis add.commute drop_drop le_add_diff_inverse take_add)
    with pipe_ext_trans [OF r(5) i(4)] have "pipe_ext ?P a (take rem (drop taken buf)) w (m2 + m) w'" by simp
    with st i t(2) act_upd_act_upd [OF Suc.prems(1)] show ?thesis by fastforce
  qed
qed


subsection \<open>Writing\<close>

lemma slot_file:
  assumes "ef_inv s" "slot s fd = Done (Some a)"
  obtains f where "ef_heap s a = Some f" "f_ef_fd f = nat fd" "0 \<le> fd" "nat fd < EF_MAX_FILES" "sg_open_files s ! nat fd = Some a"
proof -
  have len: "length (sg_open_files s) = EF_MAX_FILES" using assms(1) by (simp add: ef_inv_def slots_ok_def)
  with assms(2) have fd: "0 \<le> fd" "nat fd < EF_MAX_FILES" "sg_open_files s ! nat fd = Some a"
    by (auto simp: slot_def split: if_splits)
  with assms(1) have "\<exists>f. ef_heap s a = Some f \<and> f_ef_fd f = nat fd" unfolding ef_inv_def slots_ok_def by blast
  with fd that show ?thesis by blast
qed

lemma set_err_inv [simp]: "ef_inv (set_err e s) = ef_inv s"
proof -
  have k: "kernel_ok P (set_errno e k) = kernel_ok P k" for P k
    by (simp add: kernel_ok_def) (simp add: set_errno_def)
  have "file_ok P (set_errno e k) a f D E = file_ok P k a f D E" for P k a f D E
    by (rule file_ok_agree) (auto simp: k_agree_def, auto simp: set_errno_def)
  with k show ?thesis
    by (simp add: ef_inv_def slots_ok_def queues_ok_def files_ok_def apart_def set_err_def d_of_def e_of_def)
qed

lemma set_err_simps [simp]:
  "ef_heap (set_err e s) = ef_heap s" "sg_page_size (set_err e s) = sg_page_size s" "d_of (set_err e s) a = d_of s a"
  "e_of (set_err e s) a = e_of s a" "slot (set_err e s) fd = slot s fd" "sg_ef_init_done (set_err e s) = sg_ef_init_done s"
  "sg_disk_io (set_err e s) = sg_disk_io s" "sg_file_writer_queue (set_err e s) = sg_file_writer_queue s"
  "content (set_err e s) a = content s a" "synced (set_err e s) a = synced s a" "file_at (set_err e s) a = file_at s a"
  "kern (set_err e s) = set_errno e (kern s)" "sg_open_files (set_err e s) = sg_open_files s"
  "set_err e (set_err e' s) = set_err e s"
  using logical_agree [of "the (ef_heap s a)" "kern s" "set_errno e (kern s)" "sg_page_size s" a "d_of s a"]
  by (simp_all add: set_err_def d_of_def e_of_def slot_def content_def synced_def file_at_def set_errno_def k_agree_def kfd_of_def)

lemma keeps_set_err: "keeps s s' \<Longrightarrow> keeps s (set_err e s')" "keeps (set_err e s) s' = keeps s s'"
  by (auto simp: keeps_def carried_def)

lemma keeps_refl [simp]: "keeps s s = ef_inv s"
  by (auto simp: keeps_def carried_def)

text \<open>
  An action update that a pipeline extension justifies is a step that keeps the invariant and applies
  the bytes to the contents of the file.
\<close>

lemma act_upd_step:
  assumes inv: "ef_inv s" and f: "ef_heap s a = Some f" "f_status f = FILE_OPEN" "f_action f = Some act" "writing f act w"
    and act': "writing (f\<lparr>f_action := Some act'\<rparr>) act' w'" "a_status act' \<noteq> ACTION_COMPLETE"
    and x: "pipe_ext (sg_page_size s) a d w m w'"
  shows "ef_inv (act_upd a f act' m s)"
    "content (act_upd a f act' m s) a = (if d = [] then id else spec_write (f_append f) d) (content s a)"
    "file_step a s (act_upd a f act' m s)"
proof -
  let ?s' = "act_upd a f act' m s" and ?f = "f\<lparr>f_action := Some act'\<rparr>" and ?P = "sg_page_size s"
  note fo = inv_file [OF inv f(1)]
  show st: "file_step a s ?s'"
    by (rule file_stepI [OF f(1), where f' = ?f])
       (use f in \<open>auto simp: act_upd_def same_globals_def d_of_def e_of_def reqs_def\<close>)
  have q: "d_of ?s' a = d_of s a" "e_of ?s' a = e_of s a @ reqs a m"
    by (simp_all add: act_upd_def d_of_def e_of_def reqs_def)
  have p: "pipe_ok ?P a w (d_of s a) (e_of s a)" "winv ?P f (kern s)"
    using fo f by (auto simp: file_ok_def open_action_ok_def writing_def io_ok_def)
  then have "pipe_ok ?P a w' (d_of ?s' a) (e_of ?s' a)" using x q by (auto simp: pipe_ext_def)
  with fo f act' have "file_ok ?P (kern s) a ?f (d_of ?s' a) (e_of ?s' a)"
    by (intro file_ok_write_upd [of ?P "kern s" a f "d_of s a" "e_of s a" act]) (auto simp: writing_def)
  then show "ef_inv ?s'" using file_step_inv [OF inv st] f(1) by (simp add: act_upd_def)
  have "apply_w (f_append f) a w' (d_of s a) (f_abs ?P f (kern s)) =
      (if d = [] then id else spec_write (f_append f) d) (apply_w (f_append f) a w (d_of s a) (f_abs ?P f (kern s)))"
    using x in_file_f_abs [OF p(2)] unfolding pipe_ext_def by blast
  then show "content ?s' a = (if d = [] then id else spec_write (f_append f) d) (content s a)"
    using f act' q(1) by (simp add: content_def logical_def writing_def apply_w_def act_upd_def)
qed


lemma act_upd_other:
  assumes "ef_inv s" "ef_heap s a = Some f" "file_step a s s'" "b \<noteq> a" "ef_heap s b = Some g" "f_status g = FILE_OPEN"
  shows "ef_heap s' b = Some g \<and> content s' b = content s b"
  using file_step_other [OF assms(1,3,5,4,6)] by simp

lemma alloc_write_keeps:
  assumes inv: "ef_inv s" and f: "ef_heap s a = Some f" "f_status f = FILE_OPEN" "can_write (f_oflag f)"
    and n: "f_action f = None \<or> action_complete f"
  shows "keeps s (put_file a (f\<lparr>f_action := Some (eio_cmd_init oper_write)\<rparr>) s)"
proof -
  let ?f = "f\<lparr>f_action := Some (eio_cmd_init oper_write)\<rparr>" and ?P = "sg_page_size s"
  let ?s' = "put_file a ?f s"
  note fo = inv_file [OF inv f(1)]
  have q: "d_of ?s' = d_of s" "e_of ?s' = e_of s" by (simp_all add: fun_eq_iff d_of_def e_of_def)
  have P: "0 < ?P" using inv by (simp add: ef_inv_def kernel_ok_def)
  have act: "a_cmd (eio_cmd_init oper_write) = oper_write" "a_status (eio_cmd_init oper_write) = ACTION_INITIATED"
    "a_inp (eio_cmd_init oper_write) = Write_inp eio_write_oper_init"
    by (simp_all add: eio_cmd_init_def low_eio_cmd_init_def)
  have idle: "d_of s a = []" "e_of s a = []" "\<not> has_action oper_write f" "winv ?P f (kern s)"
    using fo f n by (auto simp: file_ok_def open_action_ok_def action_complete_def has_action_def io_ok_def act_idle_def
        split: option.splits file_oper_type.splits)
  have pipe: "pipe_ok ?P a eio_write_oper_init [] []"
    using P by (simp add: pipe_ok_def eio_write_oper_init_def accum_wf_def pipe_queues_def)
  have st: "file_step a s ?s'"
    by (rule file_stepI [OF f(1), where f' = ?f]) (use f q in \<open>auto simp: same_globals_def\<close>)
  moreover have "file_ok ?P (kern s) a ?f (d_of ?s' a) (e_of ?s' a)"
    using fo f act idle pipe q by (simp add: file_ok_def open_action_ok_def io_ok_def has_action_def)
  moreover have "logical ?P a ?f (kern s) (d_of ?s' a) = logical ?P a f (kern s) (d_of s a)"
    using idle act q by (auto simp: logical_def pend_tasks_def eio_write_oper_init_def with_accum_def has_action_def
        split: option.splits)
  moreover have "flushed a ?f (d_of ?s' a)" if "flushed a f (d_of s a)"
    using act idle q fo f(2) by (auto simp: flushed_def flushes_def pend_tasks_def eio_write_oper_init_def file_ok_def io_ok_def)
  ultimately show ?thesis using keepsI [OF inv st f(1)] act(1) by simp
qed

text \<open>A file a write may go to: open for writing, with no other action pending.\<close>

definition writable_now :: "ef_file \<Rightarrow> bool" where
  "writable_now f \<longleftrightarrow>
     f_status f = FILE_OPEN \<and> can_write (f_oflag f) \<and>
     (f_action f = None \<or> action_complete f \<or> has_action oper_write f)"

lemma lock_upds:
  "f_prevent_mutation f = 0 \<Longrightarrow>
     f\<lparr>f_write_suspended := i, f_action := x, f_prevent_mutation := 0\<rparr> = f\<lparr>f_action := x, f_write_suspended := i\<rparr>"
  "f_write_suspended f = 0 \<Longrightarrow>
     f\<lparr>f_action := x, f_write_suspended := 0\<rparr> = f\<lparr>f_action := x\<rparr>"
  by (cases f; simp)+

lemma low_ef_write_eq:
  assumes f: "ef_heap s a = Some f" "f_write_suspended f = 0" "f_prevent_mutation f = 0"
    "f_action f = None \<or> action_complete f \<or> has_action oper_write f"
    and f3: "f3 = (if f_action f = None \<or> action_complete f then f\<lparr>f_action := Some (eio_cmd_init oper_write)\<rparr> else f)"
    and g: "g = f3\<lparr>f_write_suspended := -1\<rparr>" and S: "S = put_file a g (set_err 0 s)"
    and r: "accumulate n a buf n 0 S = Done (t, act_upd a g act' m S)"
  shows "low_ef_write a buf n s = Done (c_int t, act_upd a f3 act' m (set_err 0 s))"
proof -
  have f3w: "f_write_suspended f3 = 0" using f3 f(2) by simp
  have ac: "action_complete (f\<lparr>f_write_suspended := i\<rparr>) = action_complete f"
    "has_action oper (f\<lparr>f_write_suspended := i\<rparr>) = has_action oper f" for i oper
    by (simp_all add: action_complete_def has_action_def)
  have prep: "obind (if action_complete f then free_file_action (f\<lparr>f_write_suspended := -1\<rparr>) else Done (f\<lparr>f_write_suspended := -1\<rparr>))
      (\<lambda>f2. Done (if f_action f2 = None then alloc_file_action f2 oper_write else f2)) = Done g"
  proof -
    consider "f_action f = None" | act where "f_action f = Some act" "a_status act = ACTION_COMPLETE"
      | act where "f_action f = Some act" "a_status act \<noteq> ACTION_COMPLETE" by blast
    then show ?thesis
      by cases (simp_all add: f3 g f(3) free_file_action_def alloc_file_action_def action_complete_def lock_upds(1))
  qed
  then obtain f2 where f2: "(if action_complete f then free_file_action (f\<lparr>f_write_suspended := -1\<rparr>) else Done (f\<lparr>f_write_suspended := -1\<rparr>)) = Done f2"
    "(if f_action f2 = None then alloc_file_action f2 oper_write else f2) = g" by auto
  have fin: "put_file a (g\<lparr>f_action := Some act', f_write_suspended := 0\<rparr>) (act_upd a g act' m S) = act_upd a f3 act' m (set_err 0 s)"
    using g S lock_upds(2) [OF f3w] by (simp add: act_upd_def put_file_def)
  have h: "ef_heap (act_upd a g act' m S) a = Some (g\<lparr>f_action := Some act'\<rparr>)" "f_write_suspended (g\<lparr>f_action := Some act'\<rparr>) = -1"
    using g by (simp_all add: act_upd_def)
  have nb: "\<not> (\<not> action_complete f \<and> f_action f \<noteq> None \<and> \<not> has_action oper_write f)" using f(4) by auto
  have S': "put_file a g (put_file a (f\<lparr>f_write_suspended := -1\<rparr>) (set_err 0 s)) = S" by (simp add: S)
  show ?thesis
    using f(1,2) f2(1) r h fin S' nb f2(2)
    by (simp add: low_ef_write_def Let_def set_write_suspended_def ac if_not_P)
qed

text \<open>The bytes \<open>d\<close> go to the file at \<open>a\<close> and to no other.\<close>

definition writes :: "ef_state \<Rightarrow> nat \<Rightarrow> byte list \<Rightarrow> ef_state \<Rightarrow> bool" where
  "writes s a d s' \<longleftrightarrow>
     ef_inv s' \<and> sg_page_size s' = sg_page_size s \<and> sg_disk_io s' = sg_disk_io s \<and>
     (\<forall>b g. ef_heap s b = Some g \<longrightarrow> f_status g = FILE_OPEN \<longrightarrow>
        (\<exists>g'. ef_heap s' b = Some g' \<and> f_status g' = FILE_OPEN \<and> f_oflag g' = f_oflag g \<and> f_fd g' = f_fd g \<and>
           f_ef_fd g' = f_ef_fd g \<and> (b = a \<longrightarrow> has_action oper_write g')) \<and>
        kino (kern s') (f_fd g) = kino (kern s) (f_fd g) \<and>
        content s' b = (if b = a then spec_write (f_append g) d (content s b) else content s b))"

lemma low_ef_write_ok:
  assumes inv: "ef_inv s" and f: "ef_heap s a = Some f" "writable_now f" and n: "0 < n" "n \<le> length buf" "n < 2147483648"
  shows "\<exists>s'. low_ef_write a buf n s = Done (int n, s') \<and> writes s a (take n buf) s'"
proof -
  let ?s0 = "set_err 0 s"
  define f3 where "f3 = (if f_action f = None \<or> action_complete f then f\<lparr>f_action := Some (eio_cmd_init oper_write)\<rparr> else f)"
  let ?s1 = "put_file a f3 ?s0"
  have inv0: "ef_inv ?s0" using inv by simp
  note fo = inv_file [OF inv f(1)]
  have k1: "keeps s ?s1"
  proof (cases "f_action f = None \<or> action_complete f")
    case True
    with f alloc_write_keeps [OF inv0] show ?thesis by (simp add: f3_def writable_now_def keeps_set_err)
  next
    case False
    then have "?s1 = ?s0" using f(1) by (simp add: f3_def put_file_def set_err_def fun_upd_idem)
    with inv show ?thesis using keeps_set_err(1) [of s s 0] by simp
  qed
  then have inv1: "ef_inv ?s1" by (simp add: keeps_def)
  have f3h: "ef_heap ?s1 a = Some f3" "f_status f3 = FILE_OPEN" "f_oflag f3 = f_oflag f" "has_action oper_write f3" "f_fd f3 = f_fd f"
    using f by (auto simp: f3_def writable_now_def has_action_def eio_cmd_init_def low_eio_cmd_init_def)
  from inv_file [OF inv1 f3h(1)] f3h obtain act w where
    aw: "f_action f3 = Some act" "writing f3 act w" "a_status act \<noteq> ACTION_COMPLETE"
      "accum_wf (sg_page_size s) (accum_data w) (accum_bytes w)"
    by (auto simp: file_ok_def open_action_ok_def has_action_def writing_def pipe_ok_def split: option.splits eio_inp.splits)
  define g where "g = f3\<lparr>f_write_suspended := -1\<rparr>"
  define S where "S = put_file a g ?s0"
  have "writing g act w" using aw(2) by (simp add: g_def writing_def)
  with accumulate_ok [of S a g act w n n 0 buf] aw(3,4) n obtain act' w' m where
    r: "accumulate n a buf n 0 S = Done (n, act_upd a g act' m S)" "writing (g\<lparr>f_action := Some act'\<rparr>) act' w'"
      "a_status act' \<noteq> ACTION_COMPLETE" "pipe_ext (sg_page_size s) a (take n buf) w m w'"
    by (auto simp: S_def)
  have locks: "f_write_suspended f = 0" "f_prevent_mutation f = 0" using fo by (simp_all add: file_ok_def)
  have res: "low_ef_write a buf n s = Done (c_int n, act_upd a f3 act' m ?s0)"
    by (rule low_ef_write_eq [OF f(1) locks _ f3_def g_def S_def r(1)]) (use f(2) in \<open>auto simp: writable_now_def\<close>)
  have eq: "act_upd a f3 act' m ?s0 = act_upd a f3 act' m ?s1" by (simp add: act_upd_def put_file_def)
  have wr: "writing (f3\<lparr>f_action := Some act'\<rparr>) act' w'" using r(2) by (simp add: writing_def)
  have nz: "take n buf \<noteq> []" using n by auto
  have st: "ef_inv (act_upd a f3 act' m ?s1)" "file_step a ?s1 (act_upd a f3 act' m ?s1)"
    "content (act_upd a f3 act' m ?s1) a = spec_write (f_append f) (take n buf) (content ?s1 a)"
    using act_upd_step [OF inv1 f3h(1,2) aw(1,2) wr r(3), of "take n buf" m] r(4) f3h(3) nz
    by (simp_all del: take_eq_Nil)
  have "writes s a (take n buf) (act_upd a f3 act' m ?s1)"
    unfolding writes_def
  proof (intro conjI allI impI st(1))
    show "sg_page_size (act_upd a f3 act' m ?s1) = sg_page_size s" "sg_disk_io (act_upd a f3 act' m ?s1) = sg_disk_io s"
      by (simp_all add: act_upd_def)
    fix b g assume b: "ef_heap s b = Some g" "f_status g = FILE_OPEN"
    then obtain g1 where g1: "ef_heap ?s1 b = Some g1" "f_status g1 = FILE_OPEN" "f_oflag g1 = f_oflag g" "f_fd g1 = f_fd g"
      "content ?s1 b = content s b" "f_ef_fd g1 = f_ef_fd g" "kino (kern ?s1) (f_fd g) = kino (kern s) (f_fd g)" using k1 unfolding keeps_def carried_def by blast
    show "\<exists>g'. ef_heap (act_upd a f3 act' m ?s1) b = Some g' \<and> f_status g' = FILE_OPEN \<and> f_oflag g' = f_oflag g \<and> f_fd g' = f_fd g \<and>
        f_ef_fd g' = f_ef_fd g \<and> (b = a \<longrightarrow> has_action oper_write g')"
      using g1 f3h wr by (auto simp: act_upd_def writing_def has_action_def)
    show "kino (kern (act_upd a f3 act' m ?s1)) (f_fd g) = kino (kern s) (f_fd g)" using g1(7) by (simp add: act_upd_def)
    show "content (act_upd a f3 act' m ?s1) b = (if b = a then spec_write (f_append g) (take n buf) (content s b) else content s b)"
      using st(3) g1 b f(1) file_step_other(2) [OF inv1 st(2) g1(1) _ g1(2)] by auto
  qed
  with res eq n show ?thesis by auto
qed

lemma ef_write_ok:
  assumes inv: "ef_inv s" and sl: "slot s fd = Done (Some a)" and f: "ef_heap s a = Some f" "writable_now f"
    and n: "0 < n" "n \<le> length buf" "n < 2147483648"
  shows "\<exists>s'. ef_write fd (Some buf) n s = Done (int n, s') \<and> writes s a (take n buf) s'"
proof -
  have "any_flag (O_RDWR OR O_WRONLY) (f_oflag f)"
    using f(2) by (subst any_flag_or) (auto simp: writable_now_def can_write_bits)
  moreover have "writes (set_err 0 s) a d s' = writes s a d s'" for d s' by (simp add: writes_def)
  ultimately show ?thesis
    using low_ef_write_ok [of "set_err 0 s" a f n buf] inv sl f n
    by (auto simp: ef_write_def writable_now_def)
qed

subsection \<open>Flush requests\<close>

lemma act_upd_0: "ef_heap s a = Some f \<Longrightarrow> f_action f = Some act \<Longrightarrow> act_upd a f act 0 s = s"
  by (simp add: act_upd_def action_same fun_upd_idem)

lemma low_ef_sync_eq:
  assumes f: "ef_heap s a = Some f" "writing f act w" "a_status act \<noteq> ACTION_COMPLETE" "accum_wf P (accum_data w) (accum_bytes w)"
  shows "\<exists>act' w' m. low_ef_sync a s = Done (act_upd a f act' m s) \<and> writing (f\<lparr>f_action := Some act'\<rparr>) act' w' \<and>
    a_status act' \<noteq> ACTION_COMPLETE \<and> accum_data w' = None \<and> accum_bytes w' = 0 \<and> pipe_ext P a [] w m w' \<and>
    (accum_data w = None \<longrightarrow> w' = w)"
proof (cases "accum_data w")
  case None
  with f have "low_ef_sync a s = Done (act_upd a f act 0 s)"
    by (simp add: low_ef_sync_def has_action_def writing_def accum_wf_def act_upd_0)
  with f None show ?thesis
    by (intro exI [of _ act] exI [of _ w] exI [of _ 0]) (simp add: writing_def accum_wf_def pipe_ext_refl)
next
  case (Some page)
  let ?w = "hand_over page (accum_bytes w) w"
  let ?act = "low_eio_cmd_init (act\<lparr>a_inp := Write_inp ?w\<rparr>) oper_write"
  have p: "0 < accum_bytes w" "accum_bytes w < P" "length page = P" using Some f(4) by (simp_all add: accum_wf_def)
  have "low_ef_sync a s = Done (act_upd a f ?act 1 s)"
    using f(1,2) p write_buffer_sync_eq [OF f(1,2) Some]
    by (simp add: low_ef_sync_def has_action_def writing_def)
  moreover have "pipe_ext P a [] w 1 ?w"
    using hand_over_pipe [of P a w _ _ page "accum_bytes w"] hand_over_apply [of page P "accum_bytes w" _ a w] p Some
    by (auto simp: pipe_ext_def reqs_def) (simp add: apply_w_def [of _ a w] with_accum_def)
  ultimately show ?thesis
    using Some by (intro exI [of _ ?act] exI [of _ ?w] exI [of _ 1]) (simp add: writing_def, simp add: hand_over_def)
qed

lemma request_fsync_eq:
  assumes f: "ef_heap s a = Some f" "writing f act w" "a_status act \<noteq> ACTION_COMPLETE" "accum_data w = None" "accum_bytes w = 0"
  shows "\<exists>act' w'. request_fsync a s = Done (act_upd a f act' 1 s) \<and> writing (f\<lparr>f_action := Some act'\<rparr>) act' w' \<and>
    a_status act' \<noteq> ACTION_COMPLETE \<and> pipe_ext P a [] w 1 w' \<and>
    w' = w\<lparr>write_totreq_count := write_totreq_count w + 1,
      w_queue := w_queue w @ [\<lparr>w_cmd = file_fsync_evt, w_buf = None, w_nbyte = 0\<rparr>]\<rparr>"
proof -
  let ?t = "\<lparr>w_cmd = file_fsync_evt, w_buf = None, w_nbyte = 0\<rparr>"
  let ?w = "w\<lparr>write_totreq_count := write_totreq_count w + 1, w_queue := w_queue w @ [?t]\<rparr>"
  let ?act = "low_eio_cmd_init (act\<lparr>a_inp := Write_inp ?w\<rparr>) oper_write"
  have "request_fsync a s = Done (act_upd a f ?act 1 s)"
    using f by (simp add: request_fsync_def has_action_def action_complete_def writing_def act_upd_def put_file_def
        enqueue_fwt_def reqs_def Let_def)
  moreover have "apply_w app a ?w D b = apply_w app a w D b" for app D b
    by (simp add: apply_w_def with_accum_def pend_tasks_def spec_task_def f(4))
  then have "pipe_ext P a [] w 1 ?w"
    using pipe_add_task [of P a w _ _ ?t] by (auto simp: pipe_ext_def reqs_def task_wf_def)
  ultimately show ?thesis
    by (intro exI [of _ ?act] exI [of _ ?w]) (simp add: writing_def)
qed

lemma sync_requests_eq:
  assumes f: "ef_heap s a = Some f" "writing f act w" "a_status act \<noteq> ACTION_COMPLETE" "accum_wf P (accum_data w) (accum_bytes w)"
  shows "\<exists>act' w' m. obind (low_ef_sync a s) (request_fsync a) = Done (act_upd a f act' m s) \<and>
    writing (f\<lparr>f_action := Some act'\<rparr>) act' w' \<and> a_status act' \<noteq> ACTION_COMPLETE \<and> pipe_ext P a [] w m w' \<and>
    accum_data w' = None \<and> (\<exists>ts. w_queue w' = ts @ [\<lparr>w_cmd = file_fsync_evt, w_buf = None, w_nbyte = 0\<rparr>])"
proof -
  from low_ef_sync_eq [OF f] obtain a1 w1 m1 where l: "low_ef_sync a s = Done (act_upd a f a1 m1 s)"
    "writing (f\<lparr>f_action := Some a1\<rparr>) a1 w1" "a_status a1 \<noteq> ACTION_COMPLETE" "accum_data w1 = None" "accum_bytes w1 = 0"
    "pipe_ext P a [] w m1 w1" by blast
  let ?s1 = "act_upd a f a1 m1 s" and ?f1 = "f\<lparr>f_action := Some a1\<rparr>"
  have h1: "ef_heap ?s1 a = Some ?f1" by (simp add: act_upd_def)
  from request_fsync_eq [OF h1 l(2-5), of P] obtain a2 w2 where r: "request_fsync a ?s1 = Done (act_upd a ?f1 a2 1 ?s1)"
    "writing (?f1\<lparr>f_action := Some a2\<rparr>) a2 w2" "a_status a2 \<noteq> ACTION_COMPLETE" "pipe_ext P a [] w1 1 w2"
    "w2 = w1\<lparr>write_totreq_count := write_totreq_count w1 + 1,
      w_queue := w_queue w1 @ [\<lparr>w_cmd = file_fsync_evt, w_buf = None, w_nbyte = 0\<rparr>]\<rparr>" by blast
  have "act_upd a ?f1 a2 1 ?s1 = act_upd a f a2 (m1 + 1) s" using act_upd_act_upd [OF f(1)] by blast
  with l r pipe_ext_trans [OF l(6) r(4)] show ?thesis
    by (intro exI [of _ a2] exI [of _ w2] exI [of _ "m1 + 1"]) (simp add: writing_def)
qed

lemma replicate_lock: "(replicate n (0::int))[i := 1, i := 0] = replicate n 0"
proof (rule nth_equalityI)
  fix j assume "j < length ((replicate n (0::int))[i := 1, i := 0])"
  then show "(replicate n (0::int))[i := 1, i := 0] ! j = replicate n 0 ! j" by (cases "i = j") simp_all
qed simp

text \<open>When \<open>sync_file_writes\<close> does not have to wait.\<close>

definition sync_waits :: "ef_file \<Rightarrow> bool" where
  "sync_waits f \<longleftrightarrow>
     f_status f = FILE_OPEN \<and> any_flag (O_RDWR OR O_WRONLY) (f_oflag f) \<and>
     f_action f \<noteq> None \<and> \<not> has_action oper_write f \<and> \<not> action_complete f"

lemma sync_file_writes_eq:
  assumes inv: "ef_inv s" and fd: "fd < EF_MAX_FILES" "sg_open_files s ! fd = Some a" and f: "ef_heap s a = Some f"
    and nw: "\<not> sync_waits f"
  shows "sync_file_writes fd s = Done s \<and> \<not> (f_status f = FILE_OPEN \<and> has_action oper_write f) \<or>
    (\<exists>act w act' w' m. sync_file_writes fd s = Done (act_upd a f act' m s) \<and> f_status f = FILE_OPEN \<and>
      writing f act w \<and> writing (f\<lparr>f_action := Some act'\<rparr>) act' w' \<and> a_status act' \<noteq> ACTION_COMPLETE \<and>
      pipe_ext (sg_page_size s) a [] w m w' \<and> accum_data w' = None \<and>
      (\<exists>ts. w_queue w' = ts @ [\<lparr>w_cmd = file_fsync_evt, w_buf = None, w_nbyte = 0\<rparr>]))"
proof -
  let ?s1 = "s\<lparr>sg_handle_to_file_action := (replicate EF_MAX_FILES 0)[fd := 1]\<rparr>"
  have h: "sg_handle_to_file_action s = replicate EF_MAX_FILES 0" using inv by (simp add: ef_inv_def slots_ok_def)
  note fo = inv_file [OF inv f]
  have lock: "htfa_lock fd s = Done ?s1" using h fd by (simp add: htfa_lock_def)
  have unl: "htfa_unlock fd t = t\<lparr>sg_handle_to_file_action := replicate EF_MAX_FILES 0\<rparr>"
    if "sg_handle_to_file_action t = (replicate EF_MAX_FILES 0)[fd := 1]" for t :: ef_state
    using fd(1) that replicate_lock [of EF_MAX_FILES fd] by (simp add: htfa_unlock_def)
  have same: "s\<lparr>sg_handle_to_file_action := replicate EF_MAX_FILES 0\<rparr> = s" using h by simp
  have locks: "f_write_suspended f = 0" "f_prevent_mutation f = 0" using fo by (simp_all add: file_ok_def)
  show ?thesis
  proof (cases "f_status f = FILE_OPEN \<and> any_flag (O_RDWR OR O_WRONLY) (f_oflag f)")
    case False
    then have "\<not> (f_status f = FILE_OPEN \<and> has_action oper_write f)"
      using fo by (auto simp: file_ok_def open_action_ok_def has_action_def can_write_bits split: option.splits)
    moreover have "sync_file_writes fd s = Done s"
      using False lock fd(2) f unl [of ?s1] same by (auto simp: sync_file_writes_def)
    ultimately show ?thesis by blast
  next
    case open_w: True
    let ?f1 = "f\<lparr>f_prevent_mutation := 1, f_write_suspended := 1\<rparr>"
    let ?s2 = "put_file a ?f1 ?s1"
    have go: "sync_file_writes fd s =
        obind (obind (low_ef_sync a ?s2) (request_fsync a)) (\<lambda>s4.
        obind (set_write_suspended 0 a s4) (\<lambda>s5. obind (set_prevent_mutation 0 a s5) (\<lambda>s6. Done (htfa_unlock fd s6))))"
    proof -
      have p: "set_prevent_mutation 1 a ?s1 = Done (put_file a (f\<lparr>f_prevent_mutation := 1\<rparr>) ?s1)"
        "set_write_suspended 1 a (put_file a (f\<lparr>f_prevent_mutation := 1\<rparr>) ?s1) = Done ?s2"
        "file_at ?s1 a = Done f" "sg_open_files ?s1 ! fd = Some a"
        using f fd(2) by (simp_all add: set_prevent_mutation_def set_write_suspended_def)
      have c: "\<not> (f_action f \<noteq> None \<and> \<not> has_action oper_write f \<and> \<not> action_complete f)"
        "\<not> (f_status f \<noteq> FILE_OPEN)" "\<not> (\<not> any_flag (O_RDWR OR O_WRONLY) (f_oflag f))"
        "\<not> f_prevent_mutation f \<noteq> 0" "\<not> f_write_suspended f \<noteq> 0"
        using open_w locks nw by (auto simp: sync_waits_def)
      show ?thesis
        unfolding sync_file_writes_def lock obind.simps p option.case if_not_P [OF c(1)] if_not_P [OF c(2)]
          if_not_P [OF c(3)] if_not_P [OF c(4)] if_not_P [OF c(5)] obind_assoc
        by (rule refl)
    qed
    show ?thesis
    proof (cases "has_action oper_write f")
      case True
      with fo open_w obtain act w where aw: "writing f act w" "a_status act \<noteq> ACTION_COMPLETE"
        "accum_wf (sg_page_size s) (accum_data w) (accum_bytes w)"
        by (auto simp: file_ok_def open_action_ok_def has_action_def writing_def pipe_ok_def split: option.splits eio_inp.splits)
      then have "writing ?f1 act w" by (simp add: writing_def)
      from sync_requests_eq [of ?s2 a, OF _ this aw(2,3)] obtain act' w' m where
        r: "obind (low_ef_sync a ?s2) (request_fsync a) = Done (act_upd a ?f1 act' m ?s2)"
          "writing (?f1\<lparr>f_action := Some act'\<rparr>) act' w'" "a_status act' \<noteq> ACTION_COMPLETE"
          "pipe_ext (sg_page_size s) a [] w m w'" "accum_data w' = None"
          "\<exists>ts. w_queue w' = ts @ [\<lparr>w_cmd = file_fsync_evt, w_buf = None, w_nbyte = 0\<rparr>]"
        by auto
      have ff: "f\<lparr>f_action := Some act', f_write_suspended := 0, f_prevent_mutation := 0\<rparr> = f\<lparr>f_action := Some act'\<rparr>"
        using locks by (cases f) simp
      have "sync_file_writes fd s = Done (act_upd a f act' m s)"
        unfolding go r(1) using unl h ff
        by (simp add: set_write_suspended_def set_prevent_mutation_def act_upd_def put_file_def)
      with aw r open_w show ?thesis by (auto simp: writing_def)
    next
      case False
      have ff: "f\<lparr>f_write_suspended := 0, f_prevent_mutation := 0\<rparr> = f" using locks by (cases f) simp
      have nop: "obind (low_ef_sync a ?s2) (request_fsync a) = Done ?s2"
        using False by (simp add: low_ef_sync_def request_fsync_def has_action_def)
      have "sync_file_writes fd s = Done s"
        unfolding go nop using unl h ff f
        by (simp add: set_write_suspended_def set_prevent_mutation_def put_file_def)
           (rule ef_state.equality, simp_all add: fun_upd_idem)
      with False show ?thesis by blast
    qed
  qed
qed


lemma keeps_trans: "keeps s s1 \<Longrightarrow> keeps s1 s2 \<Longrightarrow> keeps s s2"
  unfolding keeps_def using carried_trans by (metis (no_types, lifting))

lemma act_upd_keeps:
  assumes inv: "ef_inv s" and f: "ef_heap s a = Some f" "f_status f = FILE_OPEN" "writing f act w"
    and act': "writing (f\<lparr>f_action := Some act'\<rparr>) act' w'" "a_status act' \<noteq> ACTION_COMPLETE"
    and x: "pipe_ext (sg_page_size s) a [] w m w'" and y: "flushes a f w (d_of s a) \<Longrightarrow> flushes a f w' (d_of s a)"
  shows "keeps s (act_upd a f act' m s)"
proof -
  have aw: "f_action f = Some act" using f(3) by (simp add: writing_def)
  note st = act_upd_step [OF inv f(1,2) aw f(3) act' x]
  show ?thesis unfolding keeps_def carried_def
  proof (intro conjI allI impI st(1))
    fix b g assume b: "ef_heap s b = Some g" "f_status g = FILE_OPEN"
    show "\<exists>g'. ef_heap (act_upd a f act' m s) b = Some g' \<and> f_status g' = FILE_OPEN \<and> f_oflag g' = f_oflag g \<and> f_fd g' = f_fd g \<and>
        f_ef_fd g' = f_ef_fd g \<and> (has_action oper_write g \<longrightarrow> has_action oper_write g') \<and> (has_action oper_close g' \<longrightarrow> has_action oper_close g)"
      using b f act' by (auto simp: act_upd_def writing_def has_action_def)
    show "content (act_upd a f act' m s) b = content s b"
      using st(2) file_step_other(2) [OF inv st(3) b(1) _ b(2)] by (cases "b = a") auto
    have "synced s a \<Longrightarrow> synced (act_upd a f act' m s) a"
      using y f act'(1) aw by (auto simp: synced_def flushed_def flushes_def writing_def act_upd_def d_of_def)
    then show "synced s b \<Longrightarrow> synced (act_upd a f act' m s) b"
      using file_step_other(3) [OF inv st(3) b(1) _ b(2)] by (cases "b = a") auto
  qed (simp_all add: act_upd_def)
qed

lemma sync_file_writes_keeps:
  assumes inv: "ef_inv s" and fd: "fd < EF_MAX_FILES" "sg_open_files s ! fd = Some a" and f: "ef_heap s a = Some f"
    and nw: "\<not> sync_waits f"
  shows "\<exists>s'. sync_file_writes fd s = Done s' \<and> keeps s s' \<and> sg_disk_io s' = sg_disk_io s"
proof -
  have "flushes a f w' D" if "accum_data w' = None" "w_queue w' = ts @ [\<lparr>w_cmd = file_fsync_evt, w_buf = None, w_nbyte = 0\<rparr>]" for w' ts D
    using that by (simp add: flushes_def pend_tasks_def ends_flushed_def)
  moreover have "sg_disk_io (act_upd a f x m s) = sg_disk_io s" for x m by (simp add: act_upd_def)
  ultimately show ?thesis using sync_file_writes_eq [OF assms] act_upd_keeps [OF inv f] inv by auto
qed

lemma sync_file_writes_spins:
  assumes inv: "ef_inv s" and fd: "fd < EF_MAX_FILES" "sg_open_files s ! fd = Some a" and f: "ef_heap s a = Some f"
    and nw: "sync_waits f"
  shows "sync_file_writes fd s = Spins"
proof -
  have h: "sg_handle_to_file_action s ! fd = 0" using inv fd(1) by (simp add: ef_inv_def slots_ok_def)
  show ?thesis using fd f nw h inv_file [OF inv f]
    by (simp add: sync_file_writes_def htfa_lock_def sync_waits_def file_ok_def)
qed

lemma sync_slots_keeps:
  "ef_inv s \<Longrightarrow> \<forall>i\<in>set is. i < EF_MAX_FILES \<Longrightarrow>
   sync_slots is s = Spins \<or> (\<exists>s'. sync_slots is s = Done s' \<and> keeps s s' \<and> sg_disk_io s' = sg_disk_io s)"
proof (induction "is" arbitrary: s)
  case (Cons i "is")
  show ?case
  proof (cases "sg_open_files s ! i")
    case None
    with Cons show ?thesis by simp
  next
    case (Some a)
    with Cons.prems obtain f where f: "ef_heap s a = Some f"
      unfolding ef_inv_def slots_ok_def by (metis list.set_intros(1))
    show ?thesis
    proof (cases "sync_waits f")
      case True
      with sync_file_writes_spins [OF Cons.prems(1) _ Some f] Some Cons.prems(2) show ?thesis by simp
    next
      case False
      with sync_file_writes_keeps [OF Cons.prems(1) _ Some f] Cons.prems(2) obtain s1 where
        s1: "sync_file_writes i s = Done s1" "keeps s s1" "sg_disk_io s1 = sg_disk_io s" by auto
      then have "ef_inv s1" by (simp add: keeps_def)
      with Cons.IH [of s1] Cons.prems(2) Some s1 show ?thesis
        using keeps_trans by fastforce
    qed
  qed
qed simp

lemma slow_sync_keeps:
  "ef_inv s \<Longrightarrow> slow_sync s = Spins \<or> (\<exists>s'. slow_sync s = Done s' \<and> keeps s s' \<and> sg_disk_io s' = sg_disk_io s)"
  unfolding slow_sync_def by (rule sync_slots_keeps) auto

end
