(* ===== verification/EfRead.thy ===== *)
theory EfRead
  imports EfSteps
begin

text \<open>
  The other calls of the caller's thread keep the invariant too: \<open>ef_sync\<close>, and reading. A read that
  finds its page returns the bytes of the file at its offset; otherwise it sends for the page.
\<close>

lemma notify_simps [simp]:
  "ef_heap (notify fd op s) = ef_heap s" "kern (notify fd op s) = kern s" "sg_page_size (notify fd op s) = sg_page_size s"
  "sg_disk_io (notify fd op s) = sg_disk_io s" "sg_file_writer_queue (notify fd op s) = sg_file_writer_queue s"
  "sg_open_files (notify fd op s) = sg_open_files s" "sg_handle_to_file_action (notify fd op s) = sg_handle_to_file_action s"
  "sg_fd_queue (notify fd op s) = sg_fd_queue s" "sg_writer_shutdown (notify fd op s) = sg_writer_shutdown s"
  "sg_ef_init_done (notify fd op s) = sg_ef_init_done s" "ef_brk (notify fd op s) = ef_brk s" "mem_junk (notify fd op s) = mem_junk s"
  by (simp_all add: notify_def split: option.splits)

lemma d_e_cong:
  "sg_disk_io s' = sg_disk_io s \<Longrightarrow> d_of s' = d_of s" "sg_file_writer_queue s' = sg_file_writer_queue s \<Longrightarrow> e_of s' = e_of s"
  by (simp_all add: fun_eq_iff d_of_def e_of_def)

lemma open_action_complete:
  assumes oa: "open_action_ok P a f L D E" and act: "f_action f = Some act" "a_status act = ACTION_COMPLETE"
  shows "D = []" "E = []" "a_cmd act \<noteq> oper_write" "rd_pos P f"
proof -
  have "D = [] \<and> E = [] \<and> a_cmd act \<noteq> oper_write \<and> rd_pos P f"
    using oa act by (cases "a_cmd act") (auto simp: open_action_ok_def act_idle_def rd_pos_def)
  then show "D = []" "E = []" "a_cmd act \<noteq> oper_write" "rd_pos P f" by simp_all
qed

lemma free_action_keeps:
  assumes inv: "ef_inv s" and f: "ef_heap s a = Some f" "f_status f = FILE_OPEN" "action_complete f"
  shows "keeps s (put_file a (f\<lparr>f_action := None\<rparr>) s)"
proof -
  let ?f = "f\<lparr>f_action := None\<rparr>" and ?P = "sg_page_size s"
  let ?s' = "put_file a ?f s"
  note fo = inv_file [OF inv f(1)]
  have q: "d_of ?s' = d_of s" "e_of ?s' = e_of s" by (rule d_e_cong, simp)+
  obtain act where act: "f_action f = Some act" "a_status act = ACTION_COMPLETE"
    using f(3) by (auto simp: action_complete_def split: option.splits)
  have oa: "open_action_ok ?P a f (length (kdata (kern s) (f_fd f))) (d_of s a) (e_of s a)"
    using fo f(2) by (simp add: file_ok_def)
  have idle: "d_of s a = []" "e_of s a = []" "a_cmd act \<noteq> oper_write" "rd_pos ?P f"
    by (rule open_action_complete [OF oa act])+
  have io: "io_ok ?P f (kern s)" using fo f(2) by (simp add: file_ok_def)
  then have nd: "\<not> f_dirty f" using act idle(3) by (auto simp: io_ok_def has_action_def)
  then have "io_ok ?P ?f (kern s)" using io by (simp add: io_ok_def)
  then have ok: "file_ok ?P (kern s) a ?f [] []"
    using fo f(2) idle(4) by (simp add: file_ok_def open_action_ok_def rd_pos_def)
  have st: "file_step a s ?s'"
    by (rule file_stepI [OF f(1), where f' = ?f]) (use f q in \<open>auto simp: same_globals_def\<close>)
  moreover have "logical ?P a ?f (kern s) (d_of ?s' a) = logical ?P a f (kern s) (d_of s a)"
    using idle act q by (simp add: logical_def)
  moreover have "flushed a ?f (d_of ?s' a)" by (simp add: flushed_def)
  moreover have "\<not> has_action oper_write f" using act idle(3) by (simp add: has_action_def)
  ultimately show ?thesis using keepsI [OF inv st f(1)] ok q idle by simp
qed

lemma ef_sync_keeps:
  assumes inv: "ef_inv s" and sl: "slot s fd = Done p"
  shows "\<exists>r s'. ef_sync fd s = Done (r, s') \<and> keeps s s'"
proof (cases p)
  case None
  with inv sl show ?thesis by (auto simp: ef_sync_def keeps_set_err)
next
  case (Some a)
  with sl have sl': "slot s fd = Done (Some a)" by simp
  from slot_file [OF inv sl'] obtain f where f: "ef_heap s a = Some f" by blast
  note fo = inv_file [OF inv f]
  have init: "sg_ef_init_done s" using inv by (simp add: ef_inv_def slots_ok_def)
  consider "f_status f \<noteq> FILE_OPEN \<or> f_action f = None" | "f_status f = FILE_OPEN" "action_complete f"
    | "f_status f = FILE_OPEN" "f_action f \<noteq> None" "\<not> action_complete f" "\<not> has_action oper_write f"
    | "f_status f = FILE_OPEN" "\<not> action_complete f" "has_action oper_write f" by blast
  then show ?thesis
  proof cases
    case 1
    with f sl' init inv show ?thesis by (auto simp: ef_sync_def keeps_set_err Let_def)
  next
    case 2
    have pm: "f\<lparr>f_action := None, f_prevent_mutation := 0\<rparr> = f\<lparr>f_action := None\<rparr>" using fo by (cases f) (simp add: file_ok_def)
    from 2 obtain act where "f_action f = Some act" by (auto simp: action_complete_def split: option.splits)
    with 2 f sl' init pm have "ef_sync fd s = Done (-1, set_err EINVAL (put_file a (f\<lparr>f_action := None\<rparr>) (set_err 0 s)))"
      by (simp add: ef_sync_def free_file_action_def Let_def)
    with free_action_keeps [of "set_err 0 s" a f] f 2 inv show ?thesis by (simp add: keeps_set_err)
  next
    case 3
    with f sl' init inv show ?thesis by (auto simp: ef_sync_def keeps_set_err Let_def)
  next
    case 4
    have locks: "f_write_suspended f = 0" using fo by (simp add: file_ok_def)
    let ?f1 = "f\<lparr>f_write_suspended := -2\<rparr>" and ?s0 = "set_err 0 s"
    from fo 4 obtain act w where aw: "writing f act w" "a_status act \<noteq> ACTION_COMPLETE"
      "accum_wf (sg_page_size s) (accum_data w) (accum_bytes w)"
      by (auto simp: file_ok_def open_action_ok_def has_action_def writing_def pipe_ok_def split: option.splits eio_inp.splits)
    then have "writing ?f1 act w" by (simp add: writing_def)
    from low_ef_sync_eq [of "put_file a ?f1 ?s0" a, OF _ this aw(2,3)] obtain act' w' m where
      r: "low_ef_sync a (put_file a ?f1 ?s0) = Done (act_upd a ?f1 act' m (put_file a ?f1 ?s0))"
        "writing (?f1\<lparr>f_action := Some act'\<rparr>) act' w'" "a_status act' \<noteq> ACTION_COMPLETE"
        "pipe_ext (sg_page_size s) a [] w m w'" "accum_data w = None \<longrightarrow> w' = w"
      by auto
    have fin: "put_file a (?f1\<lparr>f_action := Some act', f_write_suspended := 0\<rparr>) (act_upd a ?f1 act' m (put_file a ?f1 ?s0)) =
        act_upd a f act' m ?s0"
      using lock_upds(2) [OF locks] by (simp add: act_upd_def put_file_def)
    have h: "ef_heap (act_upd a ?f1 act' m (put_file a ?f1 ?s0)) a = Some (?f1\<lparr>f_action := Some act'\<rparr>)"
      by (simp add: act_upd_def)
    have "f_action f \<noteq> None" using 4 by (auto simp: has_action_def split: option.splits)
    then have "ef_sync fd s = Done (0, act_upd a f act' m ?s0)"
      using 4 f sl' init locks r(1) h fin by (simp add: ef_sync_def Let_def set_write_suspended_def)
    moreover have "keeps ?s0 (act_upd a f act' m ?s0)"
      by (rule act_upd_keeps [of ?s0 a f act w act' w']) (use inv f 4 aw r in \<open>auto simp: writing_def flushes_def\<close>)
    ultimately show ?thesis by (simp add: keeps_set_err)
  qed
qed

subsection \<open>Reading\<close>

text \<open>What reading may change of a file.\<close>

lemma io_ok_read:
  assumes io: "io_ok P f k" and nd: "\<not> f_dirty f" and ra: "read_access (f_oflag f)"
    and f': "f' = f\<lparr>f_offset := off, f_index := i, f_buffer := b, f_action := x\<rparr>"
    and pos: "i * P \<le> off" "off < i * P + P" "off \<le> length (kdata k (f_fd f))"
    and len: "\<forall>c. b = Some c \<longrightarrow> length c = P"
    and m: "buf_matches P f' k"
  shows "io_ok P f' k"
proof -
  have f: "f_oflag f' = f_oflag f" "f_fd f' = f_fd f" "f_dirty f' = f_dirty f" "f_offset f' = off" "f_index f' = i"
    "f_buffer f' = b" "f_curr_size f' = f_curr_size f" "f_running_size f' = f_running_size f" "f_unaligned f' = f_unaligned f"
    "f_r_a_started f' = f_r_a_started f"
    by (simp_all add: f')
  show ?thesis
  proof (cases "can_write (f_oflag f)")
    case True
    have "bit (f_oflag f) 1" using ra True
      by (auto simp: read_access_def can_write_bits Let_def bit_eq_iff bit_simps split: if_splits)
    then show ?thesis
      using io nd True pos len m f
      by (auto simp: io_ok_def winv_def w_fd_ok_def w_sizes_ok_def w_mode_ok_def)
  next
    case False
    with io nd pos len m f show ?thesis by (auto simp: io_ok_def robs_def)
  qed
qed

lemma read_access_can_read:
  assumes "io_ok P f k" "read_access (f_oflag f)"
  shows "can_read (kflags k (f_fd f))" "kgood P k (f_fd f)" "f_curr_size f = length (kdata k (f_fd f))"
    "f_index f * P \<le> f_offset f" "f_offset f < f_index f * P + P"
    "\<And>b. f_buffer f = Some b \<Longrightarrow> length b = P"
proof -
  have "can_read (f_oflag f)" using assms
    by (auto simp: read_access_def can_read_bits io_ok_def Let_def bit_eq_iff bit_simps split: if_splits)
  then show "can_read (kflags k (f_fd f))" "kgood P k (f_fd f)" "f_curr_size f = length (kdata k (f_fd f))"
    "f_index f * P \<le> f_offset f" "f_offset f < f_index f * P + P"
    "\<And>b. f_buffer f = Some b \<Longrightarrow> length b = P"
    using assms by (auto simp: io_ok_def winv_def w_fd_ok_def w_sizes_ok_def robs_def split: if_splits)
qed

lemma kern_upd_same: "kern s = k \<Longrightarrow> s\<lparr>kern := k\<rparr> = s"
  by simp

lemma ef_file_read_keeps:
  assumes inv: "ef_inv s" and q: "sg_disk_io s = T_read a p # ts"
  shows "\<exists>s'. ef_file_read a p (s\<lparr>sg_disk_io := ts\<rparr>) = Done s' \<and> keeps s s' \<and> progress s s' \<and> sg_disk_io s' = ts \<and>
    (\<exists>f'. ef_heap s' a = Some f' \<and> action_complete f' \<and> f_buffer f' \<noteq> None)"
proof -
  let ?s = "s\<lparr>sg_disk_io := ts\<rparr>" and ?P = "sg_page_size s" and ?k = "kern s"
  have D0: "d_of s a = T_read a p # d_of ?s a" "e_of ?s a = e_of s a" using q by (simp_all add: d_of_def e_of_def)
  obtain f where f: "ef_heap s a = Some f" using inv q by (auto simp: ef_inv_def queues_ok_def)
  note fo = inv_file [OF inv f]
  from fo D0 obtain act where w: "f_status f = FILE_OPEN" "f_action f = Some act" "a_cmd act = oper_read"
    "read_access (f_oflag f)" "e_of s a = []" "d_of s a = [T_read a (f_index f)]" "f_index f * ?P < length (kdata ?k (f_fd f))"
    "f_offset f = f_index f * ?P" "f_buffer f = None" "io_ok ?P f ?k"
    by (auto simp: file_ok_def open_action_ok_def pipe_ok_def pipe_queues_def split: file_status.splits option.splits
        file_oper_type.splits eio_inp.splits if_splits)
  have p: "p = f_index f" "d_of ?s a = []" using D0 w(6) by auto
  let ?d = "kdata ?k (f_fd f)"
  let ?bs = "take ?P (drop (p * ?P) ?d)"
  note r = read_access_can_read [OF w(10,4)]
  have P: "0 < ?P" using inv by (simp add: ef_inv_def kernel_ok_def)
  have pr: "sys_pread ?k (f_fd f) True ?P (p * ?P) = (Some ?bs, ?k)"
    using sys_pread_good [OF r(2,1), of True "p * ?P" ?P] by (simp add: page_aligned_def)
  let ?b = "splice_at 0 (fresh_page ?P (mem_junk s)) 0 ?bs"
  let ?act = "act\<lparr>a_return_value := int (length ?bs), a_err := errno ?k, a_status := ACTION_COMPLETE\<rparr>"
  let ?f = "f\<lparr>f_buffer := Some ?b, f_action := Some ?act\<rparr>"
  let ?s' = "notify (f_ef_fd f) oper_read (put_file a ?f ?s)"
  have res: "ef_file_read a p ?s = Done ?s'"
    using f w(2,9) pr by (simp add: ef_file_read_def Let_def kern_upd_same)
  have lb: "length ?b = ?P" by (simp add: fresh_page_def)
  have m: "buf_matches ?P ?f ?k"
    using p(1) by (auto simp: buf_matches_def splice_at_def fresh_page_def min_def)
  have "io_ok ?P ?f ?k"
    by (rule io_ok_read [where off = "f_offset f" and i = "f_index f" and b = "Some ?b" and x = "Some ?act" and f = f])
       (use w r m lb in \<open>auto simp: io_ok_def has_action_def\<close>)
  moreover have "0 < length ?bs" using w(7) P p(1) by simp
  ultimately have fo': "file_ok ?P ?k a ?f [] []"
    using fo w by (simp add: file_ok_def open_action_ok_def)
  have st: "file_step a s ?s'"
    by (rule file_stepI [OF f, where f' = ?f]) (use f q w(1) in \<open>auto simp: same_globals_def d_of_def e_of_def\<close>)
  have D': "d_of ?s' a = []" "e_of ?s' a = []" using p(2) w(5) by (simp_all add: d_of_def e_of_def)
  have "\<not> f_dirty f" using w(2,3,10) by (auto simp: io_ok_def has_action_def)
  then have lg: "logical ?P a ?f ?k (d_of ?s' a) = logical ?P a f ?k (d_of s a)"
    using w(2,3) by (simp add: logical_def f_abs_def f_view_def)
  have fl: "flushed a ?f (d_of ?s' a)" using w(3) by (simp add: flushed_def)
  have nw: "\<not> has_action oper_write f" using w(2,3) by (simp add: has_action_def)
  have "keeps s ?s'"
    by (rule keepsI [OF inv st f, where f' = ?f]) (use fo' D' lg fl nw w(3) in simp_all)
  moreover have "progress s ?s'"
    by (rule progressI [OF inv f, where f' = ?f]) (use f q w in \<open>auto simp: wlen_def write_inp_def split: eio_inp.splits\<close>)
  moreover have "sg_disk_io ?s' = ts" "ef_heap ?s' a = Some ?f" "action_complete ?f" "f_buffer ?f \<noteq> None"
    by (simp_all add: action_complete_def)
  ultimately show ?thesis using res by blast
qed


lemma chk_read_ok:
  assumes "ef_inv s" "slot s fd = Done (Some a)" "ef_heap s a = Some f" "f_status f = FILE_OPEN" "read_access (f_oflag f)"
    "0 < n" "n \<le> sg_page_size s"
  shows "chk_read_conditions fd False n s = Done (if f_offset f < f_curr_size f then 1 else 0, set_err 0 s)"
  using assms by (auto simp: chk_read_conditions_def ef_inv_def slots_ok_def)

lemma fire_read_keeps:
  assumes inv: "ef_inv s" and f: "ef_heap s a = Some f" "f_status f = FILE_OPEN" "read_access (f_oflag f)" "f_offset f < f_curr_size f"
    "f_action f = None" "f_buffer f = None"
  shows "\<exists>s'. ef_fire_file_read a s = Done s' \<and> keeps s s' \<and> sg_disk_io s' = sg_disk_io s @ [T_read a (f_index f)]"
proof -
  let ?P = "sg_page_size s" and ?f = "f\<lparr>f_action := Some (eio_cmd_init oper_read)\<rparr>"
  let ?s' = "enqueue_task (T_read a (f_index f)) (put_file a ?f s)"
  note fo = inv_file [OF inv f(1)]
  have i: "io_ok ?P f (kern s)" "rd_pos ?P f" "d_of s a = []" "e_of s a = []" "f_prevent_mutation f = 0"
    using fo f by (auto simp: file_ok_def open_action_ok_def)
  note r = read_access_can_read [OF i(1) f(3)]
  have off: "f_offset f = f_index f * ?P" using i(2) f by (simp add: rd_pos_def)
  have pam: "f\<lparr>f_action := x, f_prevent_mutation := 0\<rparr> = f\<lparr>f_action := x\<rparr>" for x using i(5) by (cases f) simp
  have res: "ef_fire_file_read a s = Done ?s'"
    using f off pam by (simp add: ef_fire_file_read_def alloc_file_action_def)
  have act: "act_idle (eio_cmd_init oper_read) oper_read" "a_cmd (eio_cmd_init oper_read) = oper_read"
    by (simp_all add: act_idle_def eio_cmd_init_def low_eio_cmd_init_def)
  have D: "d_of ?s' a = [T_read a (f_index f)]" "e_of ?s' a = []" using i by (simp_all add: d_of_def e_of_def)
  have st: "file_step a s ?s'"
    by (rule file_stepI [OF f(1), where f' = ?f]) (use f in \<open>auto simp: same_globals_def d_of_def e_of_def\<close>)
  moreover have "file_ok ?P (kern s) a ?f (d_of ?s' a) (e_of ?s' a)"
    using fo f i(1) act off r(3) D by (auto simp: file_ok_def open_action_ok_def io_ok_def has_action_def)
  moreover have "logical ?P a ?f (kern s) (d_of ?s' a) = logical ?P a f (kern s) (d_of s a)"
    using f act by (simp add: logical_def)
  moreover have "flushed a ?f (d_of ?s' a)" using act by (simp add: flushed_def)
  ultimately have "keeps s ?s'" using keepsI [OF inv st f(1)] f(5) act(2) by (simp add: has_action_def)
  with res show ?thesis by auto
qed

definition reads :: "ef_state \<Rightarrow> nat \<Rightarrow> nat \<Rightarrow> ef_state \<Rightarrow> bool" where
  "reads s a m s' \<longleftrightarrow>
     ef_inv s' \<and> sg_page_size s' = sg_page_size s \<and>
     (\<forall>b g. ef_heap s b = Some g \<longrightarrow> f_status g = FILE_OPEN \<longrightarrow>
        (\<exists>g'. ef_heap s' b = Some g' \<and> f_status g' = FILE_OPEN \<and> f_oflag g' = f_oflag g \<and> f_fd g' = f_fd g \<and> f_ef_fd g' = f_ef_fd g \<and>
           (b = a \<longrightarrow> f_action g' = None)) \<and>
        content s' b = (if b = a then (fst (content s b), snd (content s b) + m) else content s b))"

lemma keeps_reads:
  assumes k: "keeps s s1" and r: "reads s1 a m s'"
  shows "reads s a m s'"
  unfolding reads_def
proof (intro conjI allI impI)
  show "ef_inv s'" "sg_page_size s' = sg_page_size s" using k r by (simp_all add: keeps_def reads_def)
  fix b g assume "ef_heap s b = Some g" "f_status g = FILE_OPEN"
  with k obtain g1 where g1: "ef_heap s1 b = Some g1" "f_status g1 = FILE_OPEN" "f_oflag g1 = f_oflag g" "f_fd g1 = f_fd g"
      "f_ef_fd g1 = f_ef_fd g"
    and c: "content s1 b = content s b" unfolding keeps_def carried_def by blast
  from r g1(1,2) have "(\<exists>g'. ef_heap s' b = Some g' \<and> f_status g' = FILE_OPEN \<and> f_oflag g' = f_oflag g1 \<and> f_fd g' = f_fd g1 \<and>
        f_ef_fd g' = f_ef_fd g1 \<and> (b = a \<longrightarrow> f_action g' = None)) \<and>
      content s' b = (if b = a then (fst (content s1 b), snd (content s1 b) + m) else content s1 b)"
    unfolding reads_def by blast
  with g1(3-5) c show "\<exists>g'. ef_heap s' b = Some g' \<and> f_status g' = FILE_OPEN \<and> f_oflag g' = f_oflag g \<and> f_fd g' = f_fd g \<and>
      f_ef_fd g' = f_ef_fd g \<and> (b = a \<longrightarrow> f_action g' = None)"
    "content s' b = (if b = a then (fst (content s b), snd (content s b) + m) else content s b)" by (simp_all split: if_splits)
qed

lemma read_copy_ok:
  assumes inv: "ef_inv s" and f: "ef_heap s a = Some f" "f_status f = FILE_OPEN" "read_access (f_oflag f)" "f_offset f < f_curr_size f"
    "f_action f = None" "f_buffer f = Some b" and n: "0 < n" "n \<le> sg_page_size s"
    and m: "m = min n (min (f_index f * sg_page_size s + sg_page_size s - f_offset f) (f_curr_size f - f_offset f))"
  shows "\<exists>s'. read_copy a n (f_offset f - f_index f * sg_page_size s) s =
      Done (int m, take m (drop (f_offset f) (kdata (kern s) (f_fd f))), s') \<and> reads s a m s' \<and> 0 < m \<and> sg_disk_io s' = sg_disk_io s"
proof -
  let ?P = "sg_page_size s" and ?d = "kdata (kern s) (f_fd f)"
  define po where "po = f_offset f - f_index f * ?P"
  note fo = inv_file [OF inv f(1)]
  have i: "io_ok ?P f (kern s)" "d_of s a = []" "e_of s a = []" "\<not> f_dirty f"
    using fo f by (auto simp: file_ok_def open_action_ok_def io_ok_def has_action_def)
  note r = read_access_can_read [OF i(1) f(3)]
  have mt: "take (length ?d - f_index f * ?P) b = take ?P (drop (f_index f * ?P) ?d)"
    using i f(4,6) r(3) by (auto simp: io_ok_def winv_def w_mode_ok_def robs_def buf_matches_def split: if_splits)
  have po: "po < ?P" "f_offset f = f_index f * ?P + po" using r(4,5) by (auto simp: po_def)
  have mk: "m = min n (min (?P - po) (f_curr_size f - f_offset f))" unfolding m po(2) by simp
  have m': "0 < m" "m \<le> n" "po + m \<le> ?P" "f_offset f + m \<le> length ?d"
    using mk po(1) n f(4) unfolding r(3) [symmetric] by auto
  have mm: "(let n0 = (if n \<le> ?P - po then n else ?P - po)
      in if f_offset f + n0 > f_curr_size f then n0 - (f_offset f + n0 - f_curr_size f) else n0) = m"
    using mk f(4) po(1) by (simp add: Let_def)
  have bytes: "take m (drop po b) = take m (drop (f_offset f) ?d)"
  proof -
    have "take m (drop po b) = take m (drop po (take (length ?d - f_index f * ?P) b))"
      using m'(4) po(2) by (simp add: drop_take min_def)
    also have "\<dots> = take m (drop (f_offset f) ?d)"
      using m'(3) po(2) unfolding mt by (simp add: drop_take min_def add.commute)
    finally show ?thesis .
  qed
  have cp: "memcpy (replicate n 0) 0 b po m = Done (splice_at 0 (replicate n 0) 0 (take m (drop po b)))"
    using m' r(6) [OF f(6)] by (simp add: memcpy_Done)
  have tk: "take m (splice_at 0 (replicate n 0) 0 (take m (drop po b))) = take m (drop po b)"
    using m'(3) r(6) [OF f(6)] by (simp add: splice_at_def)
  define f' where "f' = (if po + m = ?P then f\<lparr>f_offset := f_offset f + m, f_index := f_index f + 1, f_buffer := None\<rparr>
      else f\<lparr>f_offset := f_offset f + m\<rparr>)"
  have res: "read_copy a n po s = Done (int m, take m (drop (f_offset f) ?d), put_file a f' s)"
    using f po cp tk bytes mm m'(3) unfolding read_copy_def by (auto simp: Let_def f'_def)
  let ?s' = "put_file a f' s"
  have q: "d_of ?s' = d_of s" "e_of ?s' = e_of s" by (rule d_e_cong, simp)+
  have f'f: "f_status f' = FILE_OPEN" "f_oflag f' = f_oflag f" "f_fd f' = f_fd f" "f_ef_fd f' = f_ef_fd f" "f_action f' = None"
    "f_offset f' = f_offset f + m" "f_dirty f' = f_dirty f" "f_write_suspended f' = f_write_suspended f"
    "f_prevent_mutation f' = f_prevent_mutation f" "f_r_a_started f' = f_r_a_started f"
    using f by (auto simp: f'_def)
  have "io_ok ?P f' (kern s)"
  proof (rule io_ok_read [OF i(1,4) f(3), where off = "f_offset f + m" and x = None
        and i = "if po + m = ?P then f_index f + 1 else f_index f" and b = "if po + m = ?P then None else f_buffer f"])
    show "f' = f\<lparr>f_offset := f_offset f + m, f_index := if po + m = ?P then f_index f + 1 else f_index f,
        f_buffer := if po + m = ?P then None else f_buffer f, f_action := None\<rparr>"
      using f(5) by (cases f) (simp add: f'_def)
    show "buf_matches ?P f' (kern s)" using mt f(6) by (auto simp: f'_def buf_matches_def)
  qed (use po m' r(6) f(6) in \<open>auto simp: add.assoc\<close>)
  moreover have "rd_pos ?P f'" using f(6) po by (auto simp: rd_pos_def f'_def)
  ultimately have ok: "file_ok ?P (kern s) a f' [] []"
    using fo f(2) f'f by (simp add: file_ok_def open_action_ok_def)
  have st: "file_step a s ?s'"
    by (rule file_stepI [OF f(1), where f' = f']) (use f q f'f in \<open>auto simp: same_globals_def\<close>)
  have inv': "ef_inv ?s'" using file_step_inv [OF inv st] ok q i by simp
  have ca: "content ?s' a = (fst (content s a), snd (content s a) + m)"
    using f f'f i(4) by (simp add: content_def logical_def f_abs_def f_view_def)
  have "reads s a m ?s'"
    unfolding reads_def
  proof (intro conjI allI impI inv')
    fix b g assume b: "ef_heap s b = Some g" "f_status g = FILE_OPEN"
    show "\<exists>g'. ef_heap ?s' b = Some g' \<and> f_status g' = FILE_OPEN \<and> f_oflag g' = f_oflag g \<and> f_fd g' = f_fd g \<and>
        f_ef_fd g' = f_ef_fd g \<and> (b = a \<longrightarrow> f_action g' = None)"
      using b f f'f by auto
    show "content ?s' b = (if b = a then (fst (content s b), snd (content s b) + m) else content s b)"
      using ca file_step_other(2) [OF inv st b(1) _ b(2)] by simp
  qed simp
  with res m'(1) show ?thesis by (simp add: po_def)
qed


text \<open>A file whose last action is over: the next read may use it.\<close>

definition idle_now :: "ef_file \<Rightarrow> bool" where
  "idle_now f \<longleftrightarrow> f_action f = None \<or> action_complete f"

lemma settle_idle:
  assumes inv: "ef_inv s" and f: "ef_heap s a = Some f" "f_status f = FILE_OPEN" "idle_now f"
  shows "read_settle_action fd a s = Done (None, put_file a (f\<lparr>f_action := None\<rparr>) s)"
    "keeps s (put_file a (f\<lparr>f_action := None\<rparr>) s)"
proof -
  have pm: "f\<lparr>f_action := x, f_prevent_mutation := 0\<rparr> = f\<lparr>f_action := x\<rparr>" for x
    using inv_file [OF inv f(1)] by (cases f) (simp add: file_ok_def)
  show "keeps s (put_file a (f\<lparr>f_action := None\<rparr>) s)"
  proof (cases "f_action f = None")
    case True
    then have "put_file a (f\<lparr>f_action := None\<rparr>) s = s"
      using f(1) by (simp add: put_file_def action_same fun_upd_idem)
    with inv show ?thesis by simp
  next
    case False
    with f free_action_keeps [OF inv] show ?thesis by (simp add: idle_now_def)
  qed
  show "read_settle_action fd a s = Done (None, put_file a (f\<lparr>f_action := None\<rparr>) s)"
  proof (cases "f_action f")
    case None
    then have "put_file a (f\<lparr>f_action := None\<rparr>) s = s"
      using f(1) by (simp add: put_file_def action_same fun_upd_idem)
    with None f show ?thesis by (simp add: read_settle_action_def action_complete_def)
  next
    case (Some act)
    then have c: "a_status act = ACTION_COMPLETE" using f(3) by (simp add: idle_now_def action_complete_def)
    have oa: "open_action_ok (sg_page_size s) a f (length (kdata (kern s) (f_fd f))) (d_of s a) (e_of s a)"
      using inv_file [OF inv f(1)] f(2) by (simp add: file_ok_def)
    show ?thesis
    proof (cases "a_cmd act = oper_read")
      case True
      then have "0 < a_return_value act" using oa Some c by (simp add: open_action_ok_def act_idle_def)
      with True Some c f(1) pm show ?thesis
        by (simp add: read_settle_action_def has_action_def action_complete_def ef_process_read_action_status_def
            free_file_action_def Let_def)
    next
      case False
      then have "a_cmd act = oper_open" using oa Some c
        by (cases "a_cmd act") (simp_all add: open_action_ok_def act_idle_def)
      with Some c f(1) pm show ?thesis
        by (simp add: read_settle_action_def has_action_def action_complete_def free_file_action_def)
    qed
  qed
qed

lemma settle_busy:
  assumes inv: "ef_inv s" and sl: "slot s fd = Done (Some a)"
    and f: "ef_heap s a = Some f" "f_status f = FILE_OPEN" "\<not> idle_now f"
  shows "\<exists>s'. read_settle_action fd a s = Done (Some (-1), set_err (if has_action oper_read f then EAGAIN else EBUSY) s') \<and>
    keeps s s' \<and> sg_disk_io s' = sg_disk_io s"
proof -
  obtain act where act: "f_action f = Some act" "a_status act \<noteq> ACTION_COMPLETE"
    using f(3) by (auto simp: idle_now_def action_complete_def)
  have oa: "open_action_ok (sg_page_size s) a f (length (kdata (kern s) (f_fd f))) (d_of s a) (e_of s a)"
    using inv_file [OF inv f(1)] f(2) by (simp add: file_ok_def)
  consider "a_cmd act = oper_read" | "a_cmd act = oper_close" | "a_cmd act = oper_write"
    using oa act by (cases "a_cmd act") (simp_all add: open_action_ok_def)
  then show ?thesis
  proof cases
    case 1
    with act f(1) inv show ?thesis
      by (intro exI [of _ s]) (simp add: read_settle_action_def has_action_def ef_process_read_action_status_def Let_def)
  next
    case 2
    with act f(1) inv show ?thesis
      by (intro exI [of _ s]) (simp add: read_settle_action_def has_action_def action_complete_def)
  next
    case 3
    have fd: "nat fd < EF_MAX_FILES" "sg_open_files s ! nat fd = Some a" using slot_file [OF inv sl] by blast+
    have nw: "\<not> sync_waits f" using 3 act by (simp add: sync_waits_def has_action_def)
    have hw: "has_action oper_write f" using 3 act by (simp add: has_action_def)
    from sync_file_writes_eq [OF inv fd f(1) nw] hw f(2) obtain w act' w' m ts where
      r: "sync_file_writes (nat fd) s = Done (act_upd a f act' m s)" "writing f act w"
        "writing (f\<lparr>f_action := Some act'\<rparr>) act' w'" "a_status act' \<noteq> ACTION_COMPLETE"
        "pipe_ext (sg_page_size s) a [] w m w'" "w_queue w' = ts @ [\<lparr>w_cmd = file_fsync_evt, w_buf = None, w_nbyte = 0\<rparr>]"
        "accum_data w' = None"
      using act by (auto simp: writing_def)
    let ?s' = "act_upd a f act' m s" and ?f = "f\<lparr>f_action := Some act'\<rparr>"
    have k: "keeps s ?s'"
      by (rule act_upd_keeps [OF inv f(1,2) r(2,3,4,5)]) (use r(6,7) in \<open>simp add: flushes_def pend_tasks_def ends_flushed_def\<close>)
    have h: "ef_heap ?s' a = Some ?f" by (simp add: act_upd_def)
    have "ef_inv ?s'" using k by (simp add: keeps_def)
    from inv_file [OF this h] f(2) r(3) have "pipe_ok (sg_page_size ?s') a w' (d_of ?s' a) (e_of ?s' a)"
      by (simp add: file_ok_def open_action_ok_def writing_def)
    then have "write_totreq_count w' \<noteq> write_cmpl_count w'" using r(6) by (auto dest: pipe_idle(4))
    then have "SET_STATUS_AT a ?s' = Done (put_file a ?f ?s')"
      using h r(3) by (simp add: SET_STATUS_AT_def SET_WRITE_ACTION_STATUS_def writing_def)
    moreover have "put_file a ?f ?s' = ?s'" using h by (simp add: put_file_def fun_upd_idem)
    ultimately have "read_settle_action fd a s = Done (Some (-1), set_err EBUSY ?s')"
      using f(1) act 3 r(1,4) h by (simp add: read_settle_action_def has_action_def action_complete_def)
    with k 3 act show ?thesis by (auto simp: has_action_def act_upd_def)
  qed
qed

text \<open>
  \<open>ef_read\<close> on a file open for reading: at the end of the file it returns 0; with a page in the buffer
  it returns the next bytes of the file, and with none it sends a disk thread for the page.
\<close>

definition read_len :: "nat \<Rightarrow> ef_file \<Rightarrow> nat \<Rightarrow> nat" where
  "read_len P f n = min n (min (f_index f * P + P - f_offset f) (f_curr_size f - f_offset f))"

lemma ef_read_ok:
  assumes inv: "ef_inv s" and sl: "slot s fd = Done (Some a)"
    and f: "ef_heap s a = Some f" "f_status f = FILE_OPEN" "read_access (f_oflag f)"
    and n: "0 < n" "n \<le> sg_page_size s"
  shows ef_read_end: "f_curr_size f \<le> f_offset f \<Longrightarrow> ef_read fd False n s = Done (0, [], set_err 0 s)"
    and ef_read_bytes: "f_offset f < f_curr_size f \<Longrightarrow> idle_now f \<Longrightarrow> f_buffer f \<noteq> None \<Longrightarrow>
      \<exists>s'. ef_read fd False n s =
          Done (int (read_len (sg_page_size s) f n),
                take (read_len (sg_page_size s) f n) (drop (f_offset f) (kdata (kern s) (f_fd f))), s') \<and>
        reads s a (read_len (sg_page_size s) f n) s' \<and> 0 < read_len (sg_page_size s) f n \<and> sg_disk_io s' = sg_disk_io s"
    and ef_read_fires: "f_offset f < f_curr_size f \<Longrightarrow> idle_now f \<Longrightarrow> f_buffer f = None \<Longrightarrow>
      \<exists>s'. ef_read fd False n s = Done (-1, [], set_err EAGAIN s') \<and> keeps s s' \<and>
        sg_disk_io s' = sg_disk_io s @ [T_read a (f_index f)]"
    and ef_read_busy: "f_offset f < f_curr_size f \<Longrightarrow> \<not> idle_now f \<Longrightarrow>
      \<exists>s'. ef_read fd False n s = Done (-1, [], set_err (if has_action oper_read f then EAGAIN else EBUSY) s') \<and> keeps s s' \<and>
        sg_disk_io s' = sg_disk_io s"
proof -
  let ?s0 = "set_err 0 s" and ?f0 = "f\<lparr>f_action := None\<rparr>" and ?P = "sg_page_size s"
  let ?s1 = "put_file a ?f0 ?s0"
  note chk = chk_read_ok [OF inv sl f n]
  have inv0: "ef_inv ?s0" using inv by simp
  show "f_curr_size f \<le> f_offset f \<Longrightarrow> ef_read fd False n s = Done (0, [], set_err 0 s)"
    by (simp add: ef_read_def low_ef_read_def chk)
  assume lt: "f_offset f < f_curr_size f"
  have pg: "?P = sg_page_size ?s0" by simp
  have red: "ef_read fd False n s = obind (read_settle_action fd a ?s0) (\<lambda>(r, s1).
      case r of Some v \<Rightarrow> Done (v, [], s1)
      | None \<Rightarrow> obind (file_at s1 a) (\<lambda>f1. obind (if f_buffer f1 = None then read_fire a s1 else Done (None, s1)) (\<lambda>(r2, s2).
          case r2 of Some v \<Rightarrow> Done (v, [], s2) | None \<Rightarrow> read_copy a n (f_offset f - f_index f * ?P) s2)))"
    unfolding pg using lt sl f(1) by (simp add: ef_read_def low_ef_read_def chk Let_def)
  show "\<exists>s'. ef_read fd False n s = Done (-1, [], set_err (if has_action oper_read f then EAGAIN else EBUSY) s') \<and> keeps s s' \<and>
      sg_disk_io s' = sg_disk_io s"
    if "\<not> idle_now f"
    using settle_busy [OF inv0, of fd a f] that sl f by (auto simp: red keeps_set_err)
  assume id: "idle_now f"
  have f0: "ef_heap ?s0 a = Some f" using f(1) by simp
  note st = settle_idle(1) [OF inv0 f0 f(2) id, of fd] settle_idle(2) [OF inv0 f0 f(2) id]
  then have inv1: "ef_inv ?s1" by (simp add: keeps_def)
  show "\<exists>s'. ef_read fd False n s = Done (-1, [], set_err EAGAIN s') \<and> keeps s s' \<and>
      sg_disk_io s' = sg_disk_io s @ [T_read a (f_index f)]" if b: "f_buffer f = None"
  proof -
    have ra: "f_r_a_started f = 0" using inv_file [OF inv f(1)] by (simp add: file_ok_def)
    from fire_read_keeps [OF inv1, of a ?f0] f lt b obtain s' where
      s': "ef_fire_file_read a ?s1 = Done s'" "keeps ?s1 s'" "sg_disk_io s' = sg_disk_io s @ [T_read a (f_index f)]" by auto
    have "keeps s s'" using keeps_trans [OF st(2) s'(2)] by (simp add: keeps_set_err)
    with s' st(1) b ra show ?thesis by (auto simp: red read_fire_def)
  qed
  show "\<exists>s'. ef_read fd False n s =
          Done (int (read_len ?P f n), take (read_len ?P f n) (drop (f_offset f) (kdata (kern s) (f_fd f))), s') \<and>
        reads s a (read_len ?P f n) s' \<and> 0 < read_len ?P f n \<and> sg_disk_io s' = sg_disk_io s" if nb: "f_buffer f \<noteq> None"
  proof -
    obtain b where b: "f_buffer f = Some b" using nb by auto
    from read_copy_ok [OF inv1, of a ?f0 b n "read_len ?P f n"] f lt b n obtain s' where
      s': "read_copy a n (f_offset f - f_index f * ?P) ?s1 =
          Done (int (read_len ?P f n), take (read_len ?P f n) (drop (f_offset f) (kdata (kern s) (f_fd f))), s')"
        "reads ?s1 a (read_len ?P f n) s'" "0 < read_len ?P f n" "sg_disk_io s' = sg_disk_io s"
      by (auto simp: read_len_def)
    have "reads s a (read_len ?P f n) s'"
      using st(2) by (intro keeps_reads [OF _ s'(2)]) (simp add: keeps_set_err)
    with s' st(1) b show ?thesis by (auto simp: red)
  qed
qed

end
