(* ===== verification/EfOpen.thy ===== *)
theory EfOpen
  imports EfRead
begin

text \<open>
  Opening and closing: the calls \<open>ef_open\<close>, \<open>ef_open_status\<close> and \<open>ef_close_status\<close>, and what the disk
  thread does for them, keep the invariant. Slots of the table of open files are taken and given back;
  a handle is opened on what the file system holds, and closing leaves on the disk what the file holds.
\<close>

subsection \<open>The system call\<close>

lemma sys_open_cases:
  assumes "kernel_ok P k" "sys_open k path fl = (fd, k')"
  obtains (fails) e where "fd = -1" "k' = set_errno e k"
  | (opens) ino where "fd = int (k_next_fd k)" "kfd_of k' fd = Some \<lparr>kf_ino = ino, kf_flags = fl\<rparr>"
      "k_dir k path = Some ino \<or> k_dir k path = None \<and> ino = k_next_ino k" "kernel_ok P k'"
      "\<And>fd'. fd' \<noteq> fd \<Longrightarrow> kfd_of k' fd' = kfd_of k fd'" "\<And>i. i \<noteq> ino \<Longrightarrow> k_data k' i = k_data k i"
      "k_data k' ino = (if k_dir k path = None \<or> bit fl 9 \<and> can_write fl then [] else k_data k ino)"
      "k_block k' = k_block k" "k_read_fails k' = k_read_fails k" "k_write_fails k' = k_write_fails k"
proof (cases "k_denied k path \<or> k_dir k path = None \<and> \<not> bit fl 6")
  case True
  with assms(2) fails show ?thesis by (auto simp: sys_open_def split: option.splits if_splits)
next
  case False
  define ino where "ino = (case k_dir k path of Some i \<Rightarrow> i | None \<Rightarrow> k_next_ino k)"
  define k1 where "k1 = (case k_dir k path of
      Some i \<Rightarrow> if bit fl 9 \<and> can_write fl then kset_data i [] k else k
    | None \<Rightarrow> kset_data (k_next_ino k) [] (k\<lparr>k_dir := (k_dir k)(path \<mapsto> k_next_ino k), k_next_ino := Suc (k_next_ino k)\<rparr>))"
  have k': "fd = int (k_next_fd k)" "k' = k1\<lparr>k_fds := (k_fds k)(k_next_fd k := Some \<lparr>kf_ino = ino, kf_flags = fl\<rparr>),
      k_next_fd := Suc (k_next_fd k)\<rparr>"
    using assms(2) False by (auto simp: sys_open_def k_new_fd_def k1_def ino_def kset_data_def split: option.splits if_splits)
  have k1: "k_block k1 = k_block k" "k_read_fails k1 = k_read_fails k" "k_write_fails k1 = k_write_fails k"
    "k_next_ino k \<le> k_next_ino k1" "ino < k_next_ino k1" "\<And>i. i \<noteq> ino \<Longrightarrow> k_data k1 i = k_data k i"
    "k_data k1 ino = (if k_dir k path = None \<or> bit fl 9 \<and> can_write fl then [] else k_data k ino)"
    "\<And>p i. k_dir k1 p = Some i \<Longrightarrow> i < k_next_ino k1"
    using assms(1) unfolding k1_def ino_def kernel_ok_def
    by (auto simp: kset_data_def less_Suc_eq split: option.splits if_splits)
  have "kernel_ok P k'"
    using assms(1) k1(1-5,8) unfolding k'(2) kernel_ok_def by (auto simp: less_Suc_eq) (meson less_le_trans)
  moreover have "k_dir k path = Some ino \<or> k_dir k path = None \<and> ino = k_next_ino k"
    by (auto simp: ino_def split: option.splits)
  ultimately show ?thesis
    using k' k1 by (intro opens) (auto simp: kfd_of_def)
qed

subsection \<open>Setting up a new file\<close>

lemma open_setup_eq:
  assumes "kgood P k (f_fd f)" "L = length (kdata k (f_fd f))" "off = (if bit fl 10 \<and> bit fl 0 then L else 0)"
    and "un \<longleftrightarrow> bit fl 10 \<and> (bit fl 0 \<or> bit fl 1) \<and> L mod P \<noteq> 0"
    and "k2 = (if bit fl 10 \<and> (bit fl 0 \<or> bit fl 1) \<and> L mod P = 0 then direct_on k (f_fd f) else k)"
  shows "open_setup P fl f k = (f\<lparr>f_orig_size := L, f_curr_size := L, f_running_size := L, f_offset := off,
    f_unaligned := un, f_oflag := fl, f_index := off div P\<rparr>, k2)"
proof -
  have "sys_fstat_size k (f_fd f) = L" "sys_lseek_end k (f_fd f) = L"
    using assms(1,2) by (auto simp: sys_fstat_size_def sys_lseek_end_def kgood_def kdata_def)
  then show ?thesis
    using assms(3-5) by (cases f; cases "bit fl 10"; cases "bit fl 0"; cases "bit fl 1"; cases "L mod P = 0") (simp_all add: open_setup_def Let_def)
qed

text \<open>What the files that \<open>ef_open\<close> gets must satisfy for its handles to be usable.\<close>

definition mode_ok :: "flags \<Rightarrow> byte list \<Rightarrow> bool" where
  "mode_ok fl d \<longleftrightarrow>
     \<not> (bit fl 0 \<and> bit fl 1) \<and> \<not> (bit fl 10 \<and> bit fl 14) \<and> (bit fl 0 \<and> \<not> bit fl 10 \<longrightarrow> d = [])"

lemma open_setup_ok:
  assumes k: "kgood P k (f_fd f)" "kflags k (f_fd f) = fl" and m: "mode_ok fl (kdata k (f_fd f))"
    and f: "f_buffer f = None" "\<not> f_dirty f" "f_r_a_started f = 0"
    and r: "open_setup P fl f k = (f2, k2)"
  shows "io_ok P f2 k2" "rd_pos P f2" "kdata k2 (f_fd f) = kdata k (f_fd f)" "k_same (f_fd f) k k2"
    "f_abs P f2 k2 = (kdata k (f_fd f), if bit fl 10 \<and> bit fl 0 then length (kdata k (f_fd f)) else 0)"
    "f_fd f2 = f_fd f" "f_oflag f2 = fl" "f_ef_fd f2 = f_ef_fd f" "f_write_suspended f2 = f_write_suspended f"
    "f_prevent_mutation f2 = f_prevent_mutation f" "f_r_a_started f2 = 0" "\<not> f_dirty f2"
proof -
  let ?fd = "f_fd f" and ?L = "length (kdata k (f_fd f))"
  define off where "off = (if bit fl 10 \<and> bit fl 0 then ?L else 0)"
  define un where "un \<longleftrightarrow> bit fl 10 \<and> (bit fl 0 \<or> bit fl 1) \<and> ?L mod P \<noteq> 0"
  have P: "0 < P" "kfd_of k ?fd \<noteq> None" using k(1) by (simp_all add: kgood_def)
  note e = open_setup_eq [OF k(1) refl off_def un_def refl]
  have f2: "f2 = f\<lparr>f_orig_size := ?L, f_curr_size := ?L, f_running_size := ?L, f_offset := off,
    f_unaligned := un, f_oflag := fl, f_index := off div P\<rparr>" and
    k2: "k2 = (if bit fl 10 \<and> (bit fl 0 \<or> bit fl 1) \<and> ?L mod P = 0 then direct_on k ?fd else k)" using e r by auto
  note d = direct_on_proj [OF P(2)]
  show kd: "kdata k2 ?fd = kdata k ?fd" and "k_same ?fd k k2" using d k2 by auto
  have kk: "kgood P k2 ?fd" "can_write (kflags k2 ?fd) = can_write fl" "can_read (kflags k2 ?fd) = can_read fl"
    "kappend k2 ?fd = bit fl 10" "un \<longrightarrow> \<not> kdirect k2 ?fd"
    using d k2 k m by (auto simp: un_def kappend_def kdirect_def mode_ok_def)
  have o: "off div P * P \<le> off" "off < off div P * P + P" "off \<le> ?L"
    using P dividend_less_div_times [of P off] by (auto simp: off_def add.commute)
  show "io_ok P f2 k2"
  proof (cases "can_write fl")
    case True
    then have "winv P f2 k2"
      using kk kd o f m P f2
      by (auto simp: winv_def w_fd_ok_def w_sizes_ok_def w_mode_ok_def buf_matches_def mode_ok_def can_write_bits un_def off_def)
    with True m f2 f show ?thesis by (auto simp: io_ok_def mode_ok_def)
  next
    case False
    then have "off = 0" using m by (auto simp: off_def mode_ok_def can_write_bits)
    with False kk kd o f m f2 P show ?thesis by (auto simp: io_ok_def robs_def mode_ok_def buf_matches_def)
  qed
  show "rd_pos P f2"
    using f2 P m by (auto simp: rd_pos_def off_def read_access_def mode_ok_def Let_def bit_eq_iff bit_simps split: if_splits)
  show "f_abs P f2 k2 = (kdata k ?fd, if bit fl 10 \<and> bit fl 0 then ?L else 0)"
    using f2 f kd by (simp add: f_abs_def f_view_def off_def)
  show "f_fd f2 = f_fd f" "f_oflag f2 = fl" "f_ef_fd f2 = f_ef_fd f" "f_write_suspended f2 = f_write_suspended f"
    "f_prevent_mutation f2 = f_prevent_mutation f" "f_r_a_started f2 = 0" "\<not> f_dirty f2"
    using f f2 by simp_all
qed

subsection \<open>Opening\<close>

text \<open>A step that changes one file and what the kernel keeps for it alone.\<close>

lemma inv_update:
  assumes inv: "ef_inv s" and sg: "same_globals s s'"
    and f: "ef_heap s a = Some f" "ef_heap s' = (ef_heap s)(a \<mapsto> f')" "f_ef_fd f' = f_ef_fd f"
    and k: "kernel_ok (sg_page_size s) (kern s')"
    and ag: "\<And>b g. ef_heap s b = Some g \<Longrightarrow> b \<noteq> a \<Longrightarrow> f_status g = FILE_OPEN \<Longrightarrow> k_agree (f_fd g) (kern s) (kern s')"
    and q: "\<And>b. b \<noteq> a \<Longrightarrow> d_of s' b = d_of s b" "\<And>b. b \<noteq> a \<Longrightarrow> e_of s' b = e_of s b"
      "set (sg_disk_io s') \<subseteq> set (sg_disk_io s)" "set (sg_file_writer_queue s') \<subseteq> set (sg_file_writer_queue s)"
    and ok: "file_ok (sg_page_size s) (kern s') a f' (d_of s' a) (e_of s' a)"
    and ap: "\<And>b g. ef_heap s b = Some g \<Longrightarrow> b \<noteq> a \<Longrightarrow> f_status g = FILE_OPEN \<Longrightarrow> f_status f' = FILE_OPEN \<Longrightarrow>
      f_fd f' \<noteq> f_fd g \<and> kino (kern s') (f_fd f') \<noteq> kino (kern s) (f_fd g)"
  shows "ef_inv s'"
    and "ef_heap s b = Some g \<Longrightarrow> b \<noteq> a \<Longrightarrow> f_status g = FILE_OPEN \<Longrightarrow>
      ef_heap s' b = Some g \<and> content s' b = content s b \<and> synced s' b = synced s b \<and>
        kino (kern s') (f_fd g) = kino (kern s) (f_fd g)"
proof -
  have P: "sg_page_size s' = sg_page_size s" using sg by (simp add: same_globals_def)
  have "kernel_ok (sg_page_size s') (kern s')" using k P by simp
  moreover have "slots_ok s'" using inv sg f by (auto simp: ef_inv_def slots_ok_def same_globals_def)
  moreover have "queues_ok s'" using inv q(3,4) f(2) by (fastforce simp: ef_inv_def queues_ok_def)
  moreover have "files_ok s'"
    unfolding files_ok_def P
  proof (intro allI impI)
    fix b g assume g: "ef_heap s' b = Some g"
    show "file_ok (sg_page_size s) (kern s') b g (d_of s' b) (e_of s' b)"
    proof (cases "b = a")
      case True
      with ok g f(2) show ?thesis by simp
    next
      case False
      with f(2) g have g': "ef_heap s b = Some g" by simp
      from inv_file [OF inv g'] ag [OF g' False] file_ok_agree [of g "kern s" "kern s'" "sg_page_size s" b] q(1,2) [OF False]
      show ?thesis by simp
    qed
  qed
  moreover have "apart s'"
    unfolding apart_def
  proof (intro allI impI)
    fix b c g h
    assume b: "ef_heap s' b = Some g" "ef_heap s' c = Some h" "b \<noteq> c" "f_status g = FILE_OPEN" "f_status h = FILE_OPEN"
    have same: "kino (kern s') (f_fd x) = kino (kern s) (f_fd x)" if "ef_heap s y = Some x" "y \<noteq> a" "f_status x = FILE_OPEN" for x y
      using k_agree_proj(3) [OF ag [OF that]] .
    consider "b = a" "c \<noteq> a" | "c = a" "b \<noteq> a" | "b \<noteq> a" "c \<noteq> a" using b(3) by auto
    then show "f_fd g \<noteq> f_fd h \<and> kino (kern s') (f_fd g) \<noteq> kino (kern s') (f_fd h)"
    proof cases
      case 1
      with b f(2) ap [of c h] same [of c h] show ?thesis by simp
    next
      case 2
      with b f(2) ap [of b g] same [of b g] show ?thesis by fastforce
    next
      case 3
      then have "ef_heap s b = Some g" "ef_heap s c = Some h" using b f(2) by simp_all
      with b 3 inv same [of b g] same [of c h] show ?thesis unfolding ef_inv_def apart_def by metis
    qed
  qed
  ultimately show "ef_inv s'" by (simp add: ef_inv_def)
  assume b: "ef_heap s b = Some g" "b \<noteq> a" "f_status g = FILE_OPEN"
  then show "ef_heap s' b = Some g \<and> content s' b = content s b \<and> synced s' b = synced s b \<and>
        kino (kern s') (f_fd g) = kino (kern s) (f_fd g)"
    using logical_agree [OF ag [OF b]] k_agree_proj(3) [OF ag [OF b]] f(2) q(1) [OF b(2)] P by (simp add: content_def synced_def)
qed

text \<open>
  The open that a disk thread is about to carry out concerns a file that no open handle uses, with
  flags whose behaviour the layer supports.
\<close>

definition opened_data :: "kernel \<Rightarrow> string \<Rightarrow> flags \<Rightarrow> byte list" where
  "opened_data k path fl =
     (case k_dir k path of
        None \<Rightarrow> []
      | Some ino \<Rightarrow> if bit fl 9 \<and> can_write fl then [] else k_data k ino)"

definition may_open :: "ef_state \<Rightarrow> string \<Rightarrow> flags \<Rightarrow> bool" where
  "may_open s path fl \<longleftrightarrow>
     mode_ok (open_flags fl) (opened_data (kern s) path fl) \<and>
     (\<forall>b g. ef_heap s b = Some g \<longrightarrow> f_status g = FILE_OPEN \<longrightarrow> k_dir (kern s) path \<noteq> Some (kino (kern s) (f_fd g)))"

definition next_open_ok :: "ef_state \<Rightarrow> bool" where
  "next_open_ok s \<longleftrightarrow>
     (\<forall>a ts f act path fl. sg_disk_io s = T_open a # ts \<longrightarrow> ef_heap s a = Some f \<longrightarrow> f_action f = Some act \<longrightarrow>
        a_inp act = Open_inp path fl \<longrightarrow> may_open s path fl)"

lemma open_file_fd:
  assumes inv: "ef_inv s" and g: "ef_heap s b = Some g" "f_status g = FILE_OPEN"
  shows "kfd_of (kern s) (f_fd g) \<noteq> None" "f_fd g < int (k_next_fd (kern s))" "kino (kern s) (f_fd g) < k_next_ino (kern s)"
    "kgood (sg_page_size s) (kern s) (f_fd g)"
proof -
  show kg: "kgood (sg_page_size s) (kern s) (f_fd g)"
    using inv_file [OF inv g(1)] g(2) by (auto simp: file_ok_def io_ok_def winv_def w_fd_ok_def robs_def split: if_splits)
  then show o: "kfd_of (kern s) (f_fd g) \<noteq> None" by (simp add: kgood_def)
  then obtain e where e: "0 \<le> f_fd g" "k_fds (kern s) (nat (f_fd g)) = Some e" "kino (kern s) (f_fd g) = kf_ino e"
    by (auto simp: kfd_of_def kino_def split: if_splits)
  then have "nat (f_fd g) < k_next_fd (kern s) \<and> kf_ino e < k_next_ino (kern s)"
    using inv unfolding ef_inv_def kernel_ok_def by blast
  with e show "f_fd g < int (k_next_fd (kern s))" "kino (kern s) (f_fd g) < k_next_ino (kern s)" by (auto simp: nat_less_iff)
qed

lemma open_flags_bits: "i \<noteq> 14 \<Longrightarrow> bit (open_flags fl) i = bit fl i"
  unfolding open_flags_def by (simp only: bit_or_iff O_DIRECT_bits split: if_split) simp

lemma open_flags_can_write: "can_write (open_flags fl) = can_write fl"
  by (simp add: can_write_bits open_flags_bits)

lemma status_simps [simp]:
  "winv P (f\<lparr>f_status := x\<rparr>) k = winv P f k" "f_abs P (f\<lparr>f_status := x\<rparr>) k = f_abs P f k"
  "robs P (f\<lparr>f_status := x\<rparr>) k = robs P f k"
  by (simp_all add: winv_def w_fd_ok_def w_sizes_ok_def w_mode_ok_def f_abs_def f_view_def robs_def buf_matches_def)

lemma keeps_othersI:
  assumes "ef_inv s'" "sg_page_size s' = sg_page_size s"
    and "\<And>b g. ef_heap s b = Some g \<Longrightarrow> f_status g = FILE_OPEN \<Longrightarrow>
      ef_heap s' b = Some g \<and> content s' b = content s b \<and> synced s' b = synced s b \<and>
        kino (kern s') (f_fd g) = kino (kern s) (f_fd g)"
  shows "keeps s s'"
  using assms by (simp add: keeps_def carried_same)

text \<open>What the disk thread makes of a request to open.\<close>

definition open_result :: "ef_state \<Rightarrow> string \<Rightarrow> flags \<Rightarrow> nat \<Rightarrow> ef_state \<Rightarrow> bool" where
  "open_result s path fl a s' \<longleftrightarrow>
     (\<exists>f'. ef_heap s' a = Some f' \<and> has_action oper_open f' \<and> action_complete f' \<and>
        (if fst (sys_open (set_errno 0 (kern s)) path (open_flags fl)) = -1 then f_status f' = FILE_NOT_OPEN
         else f_status f' = FILE_OPEN \<and> f_oflag f' = open_flags fl \<and>
           content s' a = (opened_data (kern s) path fl,
             if bit fl 10 \<and> bit fl 0 then length (opened_data (kern s) path fl) else 0)))"

lemma ef_file_open_keeps:
  assumes inv: "ef_inv s" and q: "sg_disk_io s = T_open a # ts" and nx: "next_open_ok s"
  obtains s' f act path fl where "ef_file_open a (s\<lparr>sg_disk_io := ts\<rparr>) = Done s'" "keeps s s'"
    "ef_heap s a = Some f" "f_action f = Some act" "a_inp act = Open_inp path fl" "open_result s path fl a s'"
    "sg_disk_io s' = ts" "sg_file_writer_queue s' = sg_file_writer_queue s" "sg_open_files s' = sg_open_files s"
    "\<And>b. b \<noteq> a \<Longrightarrow> ef_heap s' b = ef_heap s b"
proof -
  let ?s = "s\<lparr>sg_disk_io := ts\<rparr>" and ?P = "sg_page_size s" and ?k0 = "set_errno 0 (kern s)"
  have D0: "d_of s a = T_open a # d_of ?s a" "e_of ?s a = e_of s a" using q by (simp_all add: d_of_def e_of_def)
  obtain f where f: "ef_heap s a = Some f" using inv q by (auto simp: ef_inv_def queues_ok_def)
  note fo = inv_file [OF inv f]
  from fo D0 obtain act path fl where w: "f_status f = FILE_OPEN_ATTEMPTED" "f_action f = Some act" "act_idle act oper_open"
    "a_inp act = Open_inp path fl" "d_of ?s a = []" "e_of s a = []" "f_buffer f = None" "\<not> f_dirty f"
    "f_write_suspended f = 0" "f_prevent_mutation f = 0" "f_r_a_started f = 0"
    by (auto simp: file_ok_def open_action_ok_def pipe_ok_def pipe_queues_def act_idle_def split: file_status.splits option.splits
        file_oper_type.splits eio_inp.splits if_splits)
  have mo: "may_open s path fl" using nx q f w by (auto simp: next_open_ok_def)
  have k0: "kernel_ok ?P ?k0" using inv by (simp add: ef_inv_def kernel_ok_def) (simp add: set_errno_def)
  have kp: "k_data ?k0 = k_data (kern s)" "k_dir ?k0 = k_dir (kern s)" "k_next_fd ?k0 = k_next_fd (kern s)"
    "k_next_ino ?k0 = k_next_ino (kern s)" "k_block ?k0 = k_block (kern s)" "k_read_fails ?k0 = k_read_fails (kern s)"
    "k_write_fails ?k0 = k_write_fails (kern s)"
    by (simp_all add: set_errno_def)
  define fl' where "fl' = open_flags fl"
  obtain fd k1 where so: "sys_open ?k0 path fl' = (fd, k1)" by (cases "sys_open ?k0 path fl'")
  let ?f1 = "f\<lparr>f_fd := fd\<rparr>"
  define fk where "fk = (if 0 \<le> fd then open_setup ?P fl' ?f1 k1 else (?f1, k1))"
  define f2 where "f2 = fst fk"
  define k2 where "k2 = snd fk"
  have fk: "fk = (f2, k2)" by (simp add: f2_def k2_def)
  define f3 where "f3 = f2\<lparr>f_action := Some (act\<lparr>a_inp := Open_inp path fl', a_return_value := fd,
      a_err := errno k2, a_status := ACTION_COMPLETE\<rparr>), f_status := (if fd = -1 then FILE_NOT_OPEN else FILE_OPEN)\<rparr>"
  define s' where "s' = notify (f_ef_fd f) oper_open (put_file a f3 (?s\<lparr>kern := k2\<rparr>))"
  have res: "ef_file_open a ?s = Done s'"
    using f w(2,4) so fk unfolding ef_file_open_def s'_def f3_def fk_def fl'_def
    by (cases "0 \<le> fd") (auto simp: Let_def set_err_def put_file_def)
  have sg: "same_globals s s'" "ef_heap s' = (ef_heap s)(a \<mapsto> f3)" "kern s' = k2" "sg_disk_io s' = ts"
    "sg_file_writer_queue s' = sg_file_writer_queue s"
    by (simp_all add: s'_def same_globals_def)
  have D': "d_of s' a = []" "e_of s' a = []" "\<And>b. b \<noteq> a \<Longrightarrow> d_of s' b = d_of s b" "\<And>b. b \<noteq> a \<Longrightarrow> e_of s' b = e_of s b"
    using w(5,6) q sg by (auto simp: d_of_def e_of_def)
  have sub: "set (sg_disk_io s') \<subseteq> set (sg_disk_io s)" using sg q by auto
  have act: "a_cmd act = oper_open" using w(3) by (simp add: act_idle_def)
  have "keeps s s' \<and> open_result s path fl a s'"
  proof (rule sys_open_cases [OF k0 so])
    fix e assume fails: "fd = -1" "k1 = set_errno e ?k0"
    then have k2: "f2 = ?f1" "k2 = set_errno e ?k0" by (simp_all add: f2_def k2_def fk_def)
    have ok: "file_ok ?P k2 a f3 (d_of s' a) (e_of s' a)"
      using w act k2 fails D' by (simp add: file_ok_def f3_def)
    have agree: "k_agree fd' (kern s) (set_errno e ?k0)" for fd' by (simp add: k_agree_def) (simp add: set_errno_def)
    have kok: "kernel_ok ?P k2" using k0 k2 by (simp add: kernel_ok_def) (simp add: set_errno_def)
    have r: "ef_inv s'"
      by (rule inv_update [OF inv sg(1) f sg(2) _ _ _ D'(3,4) sub]) (use ok sg k2 kok fails agree in \<open>auto simp: f3_def\<close>)
    have r2: "ef_heap s' b = Some g \<and> content s' b = content s b \<and> synced s' b = synced s b \<and>
        kino (kern s') (f_fd g) = kino (kern s) (f_fd g)"
      if "ef_heap s b = Some g" "b \<noteq> a" "f_status g = FILE_OPEN" for b g
      by (rule inv_update(2) [OF inv sg(1) f sg(2) _ _ _ D'(3,4) sub _ _ _ that]) (use ok sg k2 kok fails agree in \<open>auto simp: f3_def\<close>)
    have "keeps s s'"
      by (rule keeps_othersI [OF r _ r2]) (use sg(1) f w(1) in \<open>auto simp: same_globals_def\<close>)
    moreover have "open_result s path fl a s'"
      using so sg(2) act fails by (simp add: open_result_def fl'_def f3_def has_action_def action_complete_def)
    ultimately show ?thesis ..
  next
    fix ino
    assume o: "fd = int (k_next_fd ?k0)" "kfd_of k1 fd = Some \<lparr>kf_ino = ino, kf_flags = fl'\<rparr>"
      "k_dir ?k0 path = Some ino \<or> k_dir ?k0 path = None \<and> ino = k_next_ino ?k0" "kernel_ok ?P k1"
      "\<And>fd'. fd' \<noteq> fd \<Longrightarrow> kfd_of k1 fd' = kfd_of ?k0 fd'" "\<And>i. i \<noteq> ino \<Longrightarrow> k_data k1 i = k_data ?k0 i"
      "k_data k1 ino = (if k_dir ?k0 path = None \<or> bit fl' 9 \<and> can_write fl' then [] else k_data ?k0 ino)"
      "k_block k1 = k_block ?k0" "k_read_fails k1 = k_read_fails ?k0" "k_write_fails k1 = k_write_fails ?k0"
    have pos: "0 \<le> fd" "fd \<noteq> -1" using o(1) by simp_all
    have d1: "kdata k1 fd = opened_data (kern s) path fl" "kflags k1 fd = fl'" "kino k1 fd = ino"
      using o(2,3,7) kp by (auto simp: kdata_def kflags_def kino_def opened_data_def fl'_def open_flags_bits open_flags_can_write
          split: option.splits)
    have kg: "kgood ?P k1 (f_fd ?f1)" using o(2,4) by (simp add: kgood_def kernel_ok_def)
    have st: "open_setup ?P fl' ?f1 k1 = (f2, k2)" using fk pos by (simp add: fk_def)
    have md: "mode_ok fl' (kdata k1 (f_fd ?f1))" using mo d1 by (simp add: may_open_def fl'_def)
    note u = open_setup_ok [OF kg _ md _ _ _ st, simplified, OF d1(2) w(7,8,11)]
    have ino: "kino (kern s) (f_fd g) \<noteq> ino \<and> f_fd g \<noteq> fd" if "ef_heap s b = Some g" "f_status g = FILE_OPEN" for b g
      using open_file_fd [OF inv that] mo that o(1,3) kp by (auto simp: may_open_def)
    have ag: "k_agree (f_fd g) (kern s) (kern s')" if g: "ef_heap s b = Some g" "f_status g = FILE_OPEN" for b g
      using ino [OF g] u(4) o(5) [of "f_fd g"] o(6) [of "kino (kern s) (f_fd g)"] o(8-10) kp d1(3) sg(3)
      by (auto simp: k_agree_def k_same_def)
    have kok: "kernel_ok ?P (kern s')" using kernel_ok_same [OF o(4) u(4)] sg(3) by simp
    have ki: "kino (kern s') (f_fd f3) = ino" "f_fd f3 = fd" using u(4,6) d1(3) sg(3) by (auto simp: f3_def k_same_def)
    have io: "io_ok ?P f3 k2"
      using u(1,12) by (simp add: f3_def io_ok_def)
    then have ok: "file_ok ?P (kern s') a f3 (d_of s' a) (e_of s' a)"
      using u w act pos D' sg(3) by (simp add: file_ok_def open_action_ok_def rd_pos_def f3_def)
    have ef: "f_ef_fd f3 = f_ef_fd f" using u by (simp add: f3_def)
    have sub2: "set (sg_file_writer_queue s') \<subseteq> set (sg_file_writer_queue s)" using sg by simp
    note up = inv_update [OF inv sg(1) f sg(2) ef kok ag D'(3,4) sub sub2 ok]
    have r: "ef_inv s'" by (rule up) (use ki ino in \<open>auto dest: sym\<close>)
    have r2: "ef_heap s' b = Some g \<and> content s' b = content s b \<and> synced s' b = synced s b \<and>
        kino (kern s') (f_fd g) = kino (kern s) (f_fd g)"
      if "ef_heap s b = Some g" "b \<noteq> a" "f_status g = FILE_OPEN" for b g
      by (rule up(2) [OF _ _ _ _ _ that]) (use ki ino in \<open>auto dest: sym\<close>)
    have "keeps s s'"
      by (rule keeps_othersI [OF r _ r2]) (use sg(1) f w(1) in \<open>auto simp: same_globals_def\<close>)
    moreover have "content s' a = (opened_data (kern s) path fl,
        if bit fl 10 \<and> bit fl 0 then length (opened_data (kern s) path fl) else 0)"
      using u(5) d1 act sg(1-3) by (simp add: content_def logical_def f3_def fl'_def open_flags_bits same_globals_def)
    then have "open_result s path fl a s'"
      using so sg(2) act pos u by (simp add: open_result_def fl'_def f3_def has_action_def action_complete_def)
    ultimately show ?thesis ..
  qed
  with that [OF res _ f w(2,4)] sg show ?thesis by (auto simp: same_globals_def)
qed

subsection \<open>Taking a slot and giving it back\<close>

lemma fresh_address:
  assumes inv: "ef_inv s"
  shows "ef_heap s (ef_brk s) = None" "d_of s (ef_brk s) = []" "e_of s (ef_brk s) = []"
proof -
  show h: "ef_heap s (ef_brk s) = None" using inv unfolding ef_inv_def slots_ok_def
    by (metis less_irrefl not_None_eq)
  have "dtask_file t \<noteq> ef_brk s" if "t \<in> set (sg_disk_io s)" for t using inv h that by (auto simp: ef_inv_def queues_ok_def)
  then show "d_of s (ef_brk s) = []" by (auto simp: d_of_def filter_empty_conv)
  have "fw_file t \<noteq> Some (ef_brk s)" if "t \<in> set (sg_file_writer_queue s)" for t
    using inv h that by (fastforce simp: ef_inv_def queues_ok_def)
  then show "e_of s (ef_brk s) = []" by (auto simp: e_of_def filter_empty_conv)
qed

lemma inv_new:
  assumes inv: "ef_inv s" and q: "sg_fd_queue s = fd # fds" and a: "a = ef_brk s"
    and f: "f_ef_fd f = fd" "file_ok (sg_page_size s) (kern s) a f [T_open a] []" "f_status f = FILE_OPEN_ATTEMPTED"
    and s': "s' = s\<lparr>sg_open_files := (sg_open_files s)[fd := Some a], sg_fd_queue := fds, ef_brk := Suc a,
      ef_heap := (ef_heap s)(a \<mapsto> f), sg_disk_io := sg_disk_io s @ [T_open a]\<rparr>"
  shows "keeps s s'"
proof -
  note fr = fresh_address [OF inv, folded a]
  have D: "d_of s' a = [T_open a]" "e_of s' a = []" "\<And>b. b \<noteq> a \<Longrightarrow> d_of s' b = d_of s b" "e_of s' = e_of s"
    using fr(2,3) by (auto simp: s' d_of_def e_of_def)
  have sl: "slots_ok s" using inv by (simp add: ef_inv_def)
  have fd: "fd < EF_MAX_FILES" "sg_open_files s ! fd = None" "fd \<notin> set fds" "distinct fds"
    "set fds = {i. i < EF_MAX_FILES \<and> sg_open_files s ! i = None} - {fd}"
    using sl q by (auto simp: slots_ok_def)
  have len: "length (sg_open_files s) = EF_MAX_FILES" using sl by (simp add: slots_ok_def)
  have old: "a' \<noteq> a \<and> f_ef_fd g \<noteq> fd" if "ef_heap s a' = Some g" for a' g
    using that sl fr(1) fd(2) by (auto simp: slots_ok_def)
  have "slots_ok s'"
    unfolding slots_ok_def
  proof (intro conjI allI impI)
    show "set (sg_fd_queue s') = {i. i < EF_MAX_FILES \<and> sg_open_files s' ! i = None}"
      using fd len by (auto simp: s' nth_list_update)
    fix i b assume i: "i < EF_MAX_FILES" "sg_open_files s' ! i = Some b"
    show "\<exists>g. ef_heap s' b = Some g \<and> f_ef_fd g = i"
    proof (cases "i = fd")
      case True
      with i f(1) fd(1) len show ?thesis by (simp add: s')
    next
      case False
      then have "sg_open_files s ! i = Some b" using i by (simp add: s')
      then have "\<exists>g. ef_heap s b = Some g \<and> f_ef_fd g = i" using sl i(1) unfolding slots_ok_def by blast
      with fr(1) show ?thesis by (auto simp: s')
    qed
  next
    fix b g assume b: "ef_heap s' b = Some g"
    show "b < ef_brk s'" "f_ef_fd g < EF_MAX_FILES" "sg_open_files s' ! f_ef_fd g = Some b"
    proof -
      have "b < ef_brk s' \<and> f_ef_fd g < EF_MAX_FILES \<and> sg_open_files s' ! f_ef_fd g = Some b"
      proof (cases "b = a")
        case True
        with b f(1) fd(1) len show ?thesis by (simp add: s')
      next
        case False
        then have b': "ef_heap s b = Some g" using b by (simp add: s')
        with sl have "b < ef_brk s" "f_ef_fd g < EF_MAX_FILES" "sg_open_files s ! f_ef_fd g = Some b" by (simp_all add: slots_ok_def)
        with old [OF b'] show ?thesis by (simp add: s' a)
      qed
      then show "b < ef_brk s'" "f_ef_fd g < EF_MAX_FILES" "sg_open_files s' ! f_ef_fd g = Some b" by simp_all
    qed
  qed (use sl fd in \<open>auto simp: s' slots_ok_def\<close>)
  moreover have "queues_ok s'" using inv fr(1) by (fastforce simp: s' ef_inv_def queues_ok_def)
  moreover have "files_ok s'"
    unfolding files_ok_def
  proof (intro allI impI)
    fix b g assume g: "ef_heap s' b = Some g"
    show "file_ok (sg_page_size s') (kern s') b g (d_of s' b) (e_of s' b)"
      using g f(2) D inv_file [OF inv, of b g] by (cases "b = a") (simp_all add: s')
  qed
  moreover have "apart s'" using inv f(3) by (auto simp: s' ef_inv_def apart_def)
  ultimately have "ef_inv s'" using inv by (simp add: ef_inv_def) (simp add: s')
  then show ?thesis
    by (rule keeps_othersI) (use old D in \<open>auto simp: s' content_def synced_def\<close>)
qed

text \<open>What a step that gives up the file at \<open>a\<close> leaves of the others.\<close>

definition keeps_but :: "nat \<Rightarrow> ef_state \<Rightarrow> ef_state \<Rightarrow> bool" where
  "keeps_but a s s' \<longleftrightarrow>
     ef_inv s' \<and> sg_page_size s' = sg_page_size s \<and>
     (\<forall>b g. ef_heap s b = Some g \<longrightarrow> f_status g = FILE_OPEN \<longrightarrow> b \<noteq> a \<longrightarrow> carried s s' b g)"

lemma inv_remove:
  assumes inv: "ef_inv s" and f: "ef_heap s a = Some f"
    and k: "kernel_ok (sg_page_size s) (kern s')"
    and ag: "\<And>b g. ef_heap s b = Some g \<Longrightarrow> b \<noteq> a \<Longrightarrow> f_status g = FILE_OPEN \<Longrightarrow> k_agree (f_fd g) (kern s) (kern s')"
    and q: "\<And>b. b \<noteq> a \<Longrightarrow> d_of s' b = d_of s b" "e_of s' = e_of s" "set (sg_disk_io s') \<subseteq> set (sg_disk_io s)"
      "sg_file_writer_queue s' = sg_file_writer_queue s" "d_of s' a = []" "e_of s a = []"
    and s': "ef_heap s' = (ef_heap s)(a := None)" "sg_open_files s' = (sg_open_files s)[f_ef_fd f := None]"
      "sg_fd_queue s' = sg_fd_queue s @ [f_ef_fd f]" "sg_handle_to_file_action s' = sg_handle_to_file_action s"
      "sg_writer_shutdown s' = sg_writer_shutdown s" "sg_page_size s' = sg_page_size s"
      "sg_ef_init_done s' = sg_ef_init_done s" "ef_brk s' = ef_brk s"
  shows "keeps_but a s s'"
proof -
  have sl: "slots_ok s" using inv by (simp add: ef_inv_def)
  let ?fd = "f_ef_fd f"
  have fd: "?fd < EF_MAX_FILES" "sg_open_files s ! ?fd = Some a" "?fd \<notin> set (sg_fd_queue s)"
    using sl f by (auto simp: slots_ok_def)
  have len: "length (sg_open_files s) = EF_MAX_FILES" using sl by (simp add: slots_ok_def)
  have other: "f_ef_fd g \<noteq> ?fd" if "ef_heap s b = Some g" "b \<noteq> a" for b g
  proof -
    have "sg_open_files s ! f_ef_fd g = Some b" using that sl by (simp add: slots_ok_def)
    with that(2) fd(2) show ?thesis by auto
  qed
  have "slots_ok s'"
    unfolding slots_ok_def
  proof (intro conjI allI impI)
    show "distinct (sg_fd_queue s')" using sl fd(3) s'(3) by (simp add: slots_ok_def)
    show "set (sg_fd_queue s') = {i. i < EF_MAX_FILES \<and> sg_open_files s' ! i = None}"
      using sl fd len s'(2,3) by (auto simp: slots_ok_def nth_list_update)
    fix i b assume i: "i < EF_MAX_FILES" "sg_open_files s' ! i = Some b"
    then have "i \<noteq> ?fd \<and> sg_open_files s ! i = Some b" unfolding s'(2) using len fd(1) by (cases "i = ?fd") simp_all
    then have "i \<noteq> ?fd" "sg_open_files s ! i = Some b" by simp_all
    moreover from this have "\<exists>g. ef_heap s b = Some g \<and> f_ef_fd g = i" using sl i(1) unfolding slots_ok_def by blast
    ultimately show "\<exists>g. ef_heap s' b = Some g \<and> f_ef_fd g = i" using f s'(1) by auto
  next
    fix b g assume b: "ef_heap s' b = Some g"
    then have b': "ef_heap s b = Some g" "b \<noteq> a" using s'(1) by (auto split: if_splits)
    show "b < ef_brk s'" "f_ef_fd g < EF_MAX_FILES" "sg_open_files s' ! f_ef_fd g = Some b"
      using b' other [OF b'] sl s' by (auto simp: slots_ok_def)
  qed (use sl s' in \<open>simp_all add: slots_ok_def\<close>)
  moreover have "queues_ok s'"
    unfolding queues_ok_def
  proof (intro conjI ballI)
    fix t assume t: "t \<in> set (sg_disk_io s')"
    then have "dtask_file t \<noteq> a" using q(5) by (auto simp: d_of_def filter_empty_conv)
    with t q(3) inv s'(1) show "ef_heap s' (dtask_file t) \<noteq> None" by (auto simp: ef_inv_def queues_ok_def)
  next
    fix e assume e: "e \<in> set (sg_file_writer_queue s')"
    then have "fw_file e \<noteq> Some a" using q(4,6) by (auto simp: e_of_def filter_empty_conv)
    with e q(4) inv s'(1) show "\<exists>b. fw_file e = Some b \<and> ef_heap s' b \<noteq> None" by (fastforce simp: ef_inv_def queues_ok_def)
  qed
  moreover have "files_ok s'"
    unfolding files_ok_def s'(6)
  proof (intro allI impI)
    fix b g assume "ef_heap s' b = Some g"
    then have b: "ef_heap s b = Some g" "b \<noteq> a" using s'(1) by (auto split: if_splits)
    from inv_file [OF inv b(1)] ag [OF b] file_ok_agree [of g "kern s" "kern s'" "sg_page_size s" b] q(1) [OF b(2)] q(2)
    show "file_ok (sg_page_size s) (kern s') b g (d_of s' b) (e_of s' b)" by simp
  qed
  moreover have "apart s'"
    unfolding apart_def
  proof (intro allI impI)
    fix b c g h
    assume "ef_heap s' b = Some g" "ef_heap s' c = Some h" and o: "b \<noteq> c" "f_status g = FILE_OPEN" "f_status h = FILE_OPEN"
    then have b: "ef_heap s b = Some g" "b \<noteq> a" and c: "ef_heap s c = Some h" "c \<noteq> a" using s'(1) by (auto split: if_splits)
    with inv o have "f_fd g \<noteq> f_fd h \<and> kino (kern s) (f_fd g) \<noteq> kino (kern s) (f_fd h)" unfolding ef_inv_def apart_def by blast
    with k_agree_proj(3) [OF ag [OF b o(2)]] k_agree_proj(3) [OF ag [OF c o(3)]]
    show "f_fd g \<noteq> f_fd h \<and> kino (kern s') (f_fd g) \<noteq> kino (kern s') (f_fd h)" by simp
  qed
  ultimately have inv': "ef_inv s'" using k s'(6) by (simp add: ef_inv_def)
  have "content s' b = content s b \<and> synced s' b = synced s b \<and> kino (kern s') (f_fd g) = kino (kern s) (f_fd g)" if b: "ef_heap s b = Some g" "b \<noteq> a" "f_status g = FILE_OPEN" for b g
    using logical_agree [OF ag [OF b]] k_agree_proj(3) [OF ag [OF b]] b s'(1,6) q(1) [OF b(2)] by (simp add: content_def synced_def)
  with inv' s' show ?thesis by (auto simp: keeps_but_def intro!: carried_same)
qed

lemma slot_locks:
  assumes inv: "ef_inv s" and fd: "fd < EF_MAX_FILES"
  shows "htfa_lock fd s = Done (s\<lparr>sg_handle_to_file_action := (replicate EF_MAX_FILES 0)[fd := 1]\<rparr>)"
    "sg_handle_to_file_action t = (replicate EF_MAX_FILES 0)[fd := 1] \<Longrightarrow>
     htfa_unlock fd t = t\<lparr>sg_handle_to_file_action := sg_handle_to_file_action s\<rparr>"
proof -
  have h: "sg_handle_to_file_action s = replicate EF_MAX_FILES 0" using inv by (simp add: ef_inv_def slots_ok_def)
  then show "htfa_lock fd s = Done (s\<lparr>sg_handle_to_file_action := (replicate EF_MAX_FILES 0)[fd := 1]\<rparr>)"
    using fd by (simp add: htfa_lock_def)
  show "sg_handle_to_file_action t = (replicate EF_MAX_FILES 0)[fd := 1] \<Longrightarrow>
     htfa_unlock fd t = t\<lparr>sg_handle_to_file_action := sg_handle_to_file_action s\<rparr>"
    using h fd replicate_lock [of EF_MAX_FILES fd] by (simp add: htfa_unlock_def)
qed

definition open_args_ok :: "string option \<Rightarrow> flags \<Rightarrow> bool" where
  "open_args_ok path fl \<longleftrightarrow>
     path \<noteq> None \<and> path \<noteq> Some [] \<and> fl \<noteq> O_APPEND \<and> (fl = O_RDONLY \<or> any_flag (O_RDWR OR O_APPEND OR O_CREAT) fl)"

lemma ef_open_fails:
  assumes inv: "ef_inv s"
  shows "\<not> open_args_ok path fl \<Longrightarrow> ef_open path fl s = Done (-1, set_err EINVAL s)"
    "open_args_ok path fl \<Longrightarrow> sg_fd_queue s = [] \<Longrightarrow> ef_open path fl s = Done (-1, set_err EMFILE s)"
proof -
  have i: "sg_ef_init_done s" using inv by (simp add: ef_inv_def slots_ok_def)
  have q: "sg_fd_queue (set_err 0 s) = sg_fd_queue s" by (simp add: set_err_def)
  show "\<not> open_args_ok path fl \<Longrightarrow> ef_open path fl s = Done (-1, set_err EINVAL s)"
    using i by (auto simp: ef_open_def open_args_ok_def Let_def)
  show "open_args_ok path fl \<Longrightarrow> sg_fd_queue s = [] \<Longrightarrow> ef_open path fl s = Done (-1, set_err EMFILE s)"
    using i q by (auto simp: ef_open_def open_args_ok_def Let_def st_dequeue_sg_fd_queue_def)
qed

lemma ef_open_ok:
  assumes inv: "ef_inv s" and args: "open_args_ok path fl" and q: "sg_fd_queue s = fd # fds" and a: "a = ef_brk s"
  shows "\<exists>s' f act. ef_open path fl s = Done (int fd, s') \<and> keeps s s' \<and> sg_disk_io s' = sg_disk_io s @ [T_open a] \<and>
    sg_fd_queue s' = fds \<and> slot s' (int fd) = Done (Some a) \<and> ef_heap s' = (ef_heap s)(a \<mapsto> f) \<and> f_status f = FILE_OPEN_ATTEMPTED \<and>
    f_action f = Some act \<and> a_inp act = Open_inp (the path) fl \<and> sg_file_writer_queue s' = sg_file_writer_queue s \<and>
    kern s' = set_errno 0 (kern s)"
proof -
  let ?s0 = "set_err 0 s"
  let ?s1 = "?s0\<lparr>sg_fd_queue := fds\<rparr>"
  have inv0: "ef_inv ?s0" using inv by simp
  have g0: "sg_fd_queue ?s0 = fd # fds" "ef_brk ?s0 = a" "sg_ef_init_done ?s0" "mem_garbage ?s0 = mem_garbage s"
    "sg_handle_to_file_action ?s0 = replicate EF_MAX_FILES 0"
    using inv q a by (simp_all add: set_err_def ef_inv_def slots_ok_def)
  have fd: "fd < EF_MAX_FILES" using inv q by (auto simp: ef_inv_def slots_ok_def)
  define act where "act = (eio_cmd_init oper_open)\<lparr>a_inp := Open_inp (the path) fl\<rparr>"
  define f where "f = (EF_FILE_INIT (mem_garbage s) (mem_garbage s))\<lparr>f_ef_fd := fd, f_action := Some act, f_status := FILE_OPEN_ATTEMPTED\<rparr>"
  define s' where "s' = ?s0\<lparr>sg_open_files := (sg_open_files ?s0)[fd := Some a], sg_fd_queue := fds, ef_brk := Suc a,
      ef_heap := (ef_heap ?s0)(a \<mapsto> f), sg_disk_io := sg_disk_io ?s0 @ [T_open a]\<rparr>"
  have lock: "htfa_lock fd ?s1 = Done (?s1\<lparr>sg_handle_to_file_action := (replicate EF_MAX_FILES 0)[fd := 1]\<rparr>)"
    using g0(5) fd by (simp add: htfa_lock_def)
  have unl: "htfa_unlock fd t = t\<lparr>sg_handle_to_file_action := replicate EF_MAX_FILES 0\<rparr>"
    if "sg_handle_to_file_action t = (replicate EF_MAX_FILES 0)[fd := 1]" for t :: ef_state
    using slot_locks(2) [OF inv0 fd that] g0(5) by simp
  have deq: "st_dequeue_sg_fd_queue ?s0 = (int fd, ?s1)" using g0(1) by (simp add: st_dequeue_sg_fd_queue_def)
  let ?s3 = "?s1\<lparr>sg_open_files := (sg_open_files ?s0)[fd := Some a], ef_brk := Suc a, sg_handle_to_file_action := replicate EF_MAX_FILES 0\<rparr>"
  have "ef_open path fl s = Done (int fd, enqueue_task (T_open a) (put_file a f ?s3))"
    using args g0 deq lock unl unfolding ef_open_def open_args_ok_def
    by (auto simp: Let_def alloc_file_action_def EF_FILE_INIT_def f_def act_def)
  also have "enqueue_task (T_open a) (put_file a f ?s3) = s'"
    using g0(5) by (simp add: s'_def enqueue_task_def put_file_def)
  finally have res: "ef_open path fl s = Done (int fd, s')" .
  have "file_ok (sg_page_size ?s0) (kern ?s0) a f [T_open a] []"
    by (simp add: file_ok_def f_def EF_FILE_INIT_def act_def act_idle_def eio_cmd_init_def low_eio_cmd_init_def)
  then have "keeps ?s0 s'"
    by (intro inv_new [OF inv0 g0(1) g0(2) [symmetric] _ _ _ s'_def]) (simp_all add: f_def)
  moreover have "length (sg_open_files s) = EF_MAX_FILES" using inv by (simp add: ef_inv_def slots_ok_def)
  then have "slot s' (int fd) = Done (Some a)" using fd by (simp add: slot_def s'_def)
  ultimately show ?thesis using res
    by (intro exI [of _ s'] exI [of _ f] exI [of _ act]) (simp add: keeps_set_err s'_def f_def act_def)
qed

lemma release_slot_eq:
  assumes h: "sg_handle_to_file_action s = replicate EF_MAX_FILES 0" and fd: "fd < EF_MAX_FILES" and f: "ef_heap s a = Some f"
  shows "release_slot fd a s = Done (s\<lparr>ef_heap := (ef_heap s)(a := None), sg_open_files := (sg_open_files s)[fd := None],
    sg_fd_queue := sg_fd_queue s @ [fd]\<rparr>)"
proof -
  let ?s1 = "s\<lparr>sg_handle_to_file_action := (replicate EF_MAX_FILES 0)[fd := 1]\<rparr>"
  let ?s2 = "?s1\<lparr>ef_heap := (ef_heap s)(a := None), sg_open_files := (sg_open_files s)[fd := None]\<rparr>"
  have "htfa_lock fd s = Done ?s1" using h fd by (simp add: htfa_lock_def)
  moreover have "EF_FILE_CLEANUP fd a ?s1 = Done ?s2"
    using f by (cases "f_action f") (simp_all add: EF_FILE_CLEANUP_def free_file_action_def)
  moreover have "st_enqueue_sg_fd_queue fd (htfa_unlock fd ?s2) = s\<lparr>ef_heap := (ef_heap s)(a := None),
      sg_open_files := (sg_open_files s)[fd := None], sg_fd_queue := sg_fd_queue s @ [fd]\<rparr>"
    using h fd replicate_lock [of EF_MAX_FILES fd]
    by (simp add: htfa_unlock_def st_enqueue_sg_fd_queue_def)
  ultimately show ?thesis by (simp add: release_slot_def)
qed

lemma keeps_but_closed:
  "keeps_but a s s' \<Longrightarrow> ef_heap s a = Some f \<Longrightarrow> f_status f \<noteq> FILE_OPEN \<Longrightarrow> keeps s s'"
  unfolding keeps_but_def keeps_def by fastforce

lemma inv_htfa: "ef_inv s \<Longrightarrow> sg_handle_to_file_action s = replicate EF_MAX_FILES 0"
  by (simp add: ef_inv_def slots_ok_def)

lemma ef_open_status_keeps:
  assumes inv: "ef_inv s" and sl: "slot s fd = Done (Some a)" and f: "ef_heap s a = Some f"
  shows "f_status f = FILE_OPEN_ATTEMPTED \<Longrightarrow> ef_open_status fd s = Done (-1, set_err EAGAIN s)"
    "f_status f = FILE_NOT_OPEN \<Longrightarrow> \<exists>s'. ef_open_status fd s = Done (-1, s') \<and> keeps s s' \<and> slot s' fd = Done None \<and>
       errno (kern s') = a_err (the (f_action f))"
    "f_status f = FILE_OPEN \<Longrightarrow> \<exists>s'. ef_open_status fd s = Done (fd, s') \<and> keeps s s' \<and> sg_disk_io s' = sg_disk_io s \<and> ef_heap s' a = Some (f\<lparr>f_action :=
       if has_action oper_open f then None else f_action f\<rparr>)"
proof -
  note fo = inv_file [OF inv f]
  obtain f' where fd: "ef_heap s a = Some f'" "f_ef_fd f' = nat fd" "0 \<le> fd" "nat fd < EF_MAX_FILES" "sg_open_files s ! nat fd = Some a"
    by (rule slot_file [OF inv sl])
  then have ff: "f_ef_fd f = nat fd" using f by simp
  show "f_status f = FILE_OPEN_ATTEMPTED \<Longrightarrow> ef_open_status fd s = Done (-1, set_err EAGAIN s)"
    using sl f by (simp add: ef_open_status_def Let_def)
  {
    assume o: "f_status f = FILE_NOT_OPEN"
    with fo obtain act where act: "f_action f = Some act" "a_cmd act = oper_open" "a_status act = ACTION_COMPLETE" "a_return_value act = -1"
      and D: "d_of s a = []" "e_of s a = []"
      by (auto simp: file_ok_def split: option.splits)
    let ?s1 = "set_err (a_err act) s"
    let ?s' = "?s1\<lparr>ef_heap := (ef_heap ?s1)(a := None), sg_open_files := (sg_open_files ?s1)[nat fd := None],
      sg_fd_queue := sg_fd_queue ?s1 @ [nat fd]\<rparr>"
    have inv1: "ef_inv ?s1" using inv by simp
    have "release_slot (nat fd) a ?s1 = Done ?s'" by (rule release_slot_eq) (use inv1 inv_htfa fd f in auto)
    then have "ef_open_status fd s = Done (-1, ?s')"
      using sl f o act by (simp add: ef_open_status_def Let_def has_action_def)
    moreover have "keeps_but a ?s1 ?s'"
      by (rule inv_remove [OF inv1]) (use f ff D inv1 in \<open>auto simp: k_agree_def d_of_def e_of_def ef_inv_def\<close>)
    then have "keeps s ?s'" using keeps_but_closed [of a ?s1 ?s' f] f o by (simp add: keeps_set_err)
    moreover have "length (sg_open_files s) = EF_MAX_FILES" using inv by (simp add: ef_inv_def slots_ok_def)
    then have "slot ?s' fd = Done None" using fd by (simp add: slot_def)
    ultimately show "\<exists>s'. ef_open_status fd s = Done (-1, s') \<and> keeps s s' \<and> slot s' fd = Done None \<and>
        errno (kern s') = a_err (the (f_action f))"
      using act(1) by (intro exI [of _ ?s']) (simp add: set_errno_def)
  }
  assume o: "f_status f = FILE_OPEN"
  show "\<exists>s'. ef_open_status fd s = Done (fd, s') \<and> keeps s s' \<and> sg_disk_io s' = sg_disk_io s \<and> ef_heap s' a = Some (f\<lparr>f_action :=
       if has_action oper_open f then None else f_action f\<rparr>)"
  proof (cases "has_action oper_open f")
    case False
    then have "ef_open_status fd s = Done (fd, set_err 0 s)" using sl f o by (simp add: ef_open_status_def Let_def)
    with inv f False show ?thesis by (simp add: keeps_set_err action_same)
  next
    case True
    then obtain act where act: "f_action f = Some act" "a_cmd act = oper_open" by (auto simp: has_action_def split: option.splits)
    with fo o have c: "a_status act = ACTION_COMPLETE" "0 \<le> a_return_value act" by (simp_all add: file_ok_def open_action_ok_def)
    have pm: "f\<lparr>f_action := None, f_prevent_mutation := 0\<rparr> = f\<lparr>f_action := None\<rparr>" using fo by (cases f) (simp add: file_ok_def)
    have "ef_open_status fd s = Done (fd, put_file a (f\<lparr>f_action := None\<rparr>) (set_err 0 s))"
      using sl f o act c True pm by (simp add: ef_open_status_def Let_def free_file_action_def)
    moreover have "keeps (set_err 0 s) (put_file a (f\<lparr>f_action := None\<rparr>) (set_err 0 s))"
      by (rule free_action_keeps) (use inv f o act c in \<open>auto simp: action_complete_def\<close>)
    ultimately show ?thesis using True by (simp add: keeps_set_err)
  qed
qed

lemma ef_close_status_keeps:
  assumes inv: "ef_inv s" and sl: "slot s fd = Done p"
  shows "\<exists>r e. ef_close_status fd s = Done (r, set_err e s)"
proof (cases p)
  case None
  with sl show ?thesis by (auto simp: ef_close_status_def Let_def)
next
  case (Some a)
  obtain f where f: "ef_heap s a = Some f" by (rule slot_file [OF inv]) (use sl Some in auto)
  show ?thesis
  proof (cases "has_action oper_close f")
    case False
    with sl Some f show ?thesis by (auto simp: ef_close_status_def Let_def)
  next
    case True
    then obtain act where act: "f_action f = Some act" "a_cmd act = oper_close" by (auto simp: has_action_def split: option.splits)
    with inv_file [OF inv f] have "a_status act = ACTION_INITIATED"
      by (auto simp: file_ok_def open_action_ok_def act_idle_def split: file_status.splits)
    with sl Some f act True show ?thesis by (auto simp: ef_close_status_def Let_def)
  qed
qed

lemma backlog_remove:
  assumes "ef_heap s' = (ef_heap s)(a := None)" "sg_open_files s' = (sg_open_files s)[fd := None]" "length (sg_open_files s) = EF_MAX_FILES"
  shows "backlog s' \<le> backlog s"
  unfolding backlog_def
proof (rule sum_mono)
  fix i assume "i \<in> {..<EF_MAX_FILES}"
  then show "slot_backlog s' i \<le> slot_backlog s i"
    using assms by (cases "i = fd") (auto simp: slot_backlog_def split: option.splits)
qed

text \<open>The disk thread closes a file: it and its slot are gone, its bytes stay on the disk.\<close>

lemma sys_close_good:
  assumes "kfd_of k fd \<noteq> None"
  shows "\<exists>k'. sys_close k fd = (0, k') \<and> k_data k' = k_data k \<and> errno k' = errno k \<and> (kernel_ok P k \<longrightarrow> kernel_ok P k') \<and>
    (\<forall>fd'. fd' \<noteq> fd \<longrightarrow> k_agree fd' k k')"
proof -
  obtain e where e: "kfd_of k fd = Some e" using assms by auto
  let ?k = "k\<lparr>k_fds := (k_fds k)(nat fd := None)\<rparr>"
  have "sys_close k fd = (0, ?k)" using e by (simp add: sys_close_def)
  moreover have "kernel_ok P k \<longrightarrow> kernel_ok P ?k" by (auto simp: kernel_ok_def)
  moreover have "k_agree fd' k ?k" if "fd' \<noteq> fd" for fd'
    using that e by (auto simp: k_agree_def kfd_of_def kino_def split: if_splits)
  ultimately show ?thesis by auto
qed

lemma ef_file_close_keeps:
  assumes inv: "ef_inv s" and q: "sg_disk_io s = T_close a i # ts"
  shows "\<exists>f s'. ef_heap s a = Some f \<and> f_status f = FILE_OPEN \<and> has_action oper_close f \<and>
    ef_file_close a i (s\<lparr>sg_disk_io := ts\<rparr>) = Done s' \<and> keeps_but a s s' \<and> ef_heap s' = (ef_heap s)(a := None) \<and>
    slot s' (int (f_ef_fd f)) = Done None \<and> k_data (kern s') = k_data (kern s) \<and> fst (content s a) = kdata (kern s) (f_fd f) \<and>
    sg_disk_io s' = ts \<and> sg_file_writer_queue s' = sg_file_writer_queue s \<and> progress s s'"
proof -
  let ?s = "s\<lparr>sg_disk_io := ts\<rparr>" and ?P = "sg_page_size s"
  have D0: "d_of s a = T_close a i # d_of ?s a" using q by (simp add: d_of_def)
  obtain f where f: "ef_heap s a = Some f" using inv q by (auto simp: ef_inv_def queues_ok_def)
  note fo = inv_file [OF inv f]
  from fo D0 obtain act where w: "f_status f = FILE_OPEN" "f_action f = Some act" "a_cmd act = oper_close" "d_of ?s a = []"
    "e_of s a = []" "\<not> f_dirty f"
    by (auto simp: file_ok_def open_action_ok_def pipe_ok_def pipe_queues_def act_idle_def io_ok_def has_action_def
        split: file_status.splits option.splits file_oper_type.splits eio_inp.splits if_splits)
  have fd: "f_ef_fd f < EF_MAX_FILES" "sg_open_files s ! f_ef_fd f = Some a" "length (sg_open_files s) = EF_MAX_FILES"
    using inv f by (auto simp: ef_inv_def slots_ok_def)
  have kg: "kfd_of (set_errno 0 (kern s)) (f_fd f) \<noteq> None" using open_file_fd(1) [OF inv f w(1)] by simp
  from sys_close_good [OF kg, of ?P] obtain k where k: "sys_close (set_errno 0 (kern s)) (f_fd f) = (0, k)"
    "k_data k = k_data (kern s)" "errno k = 0" "kernel_ok ?P (set_errno 0 (kern s)) \<longrightarrow> kernel_ok ?P k"
    "\<And>fd'. fd' \<noteq> f_fd f \<Longrightarrow> k_agree fd' (kern s) k"
    by (auto simp: k_agree_def set_errno_def kfd_of_def kino_def)
  define f1 where "f1 = f\<lparr>f_buffer := None, f_status := FILE_NOT_OPEN, f_action := Some (act\<lparr>a_return_value := 0, a_err := errno k,
      a_status := ACTION_COMPLETE\<rparr>)\<rparr>"
  define s1 where "s1 = set_err 0 (notify (f_ef_fd f) oper_close (put_file a f1 ((set_err 0 ?s)\<lparr>kern := k\<rparr>)))"
  define s' where "s' = s1\<lparr>ef_heap := (ef_heap s1)(a := None), sg_open_files := (sg_open_files s1)[f_ef_fd f := None],
    sg_fd_queue := sg_fd_queue s1 @ [f_ef_fd f]\<rparr>"
  have g1: "ef_heap s1 = (ef_heap s)(a \<mapsto> f1)" "sg_open_files s1 = sg_open_files s" "sg_fd_queue s1 = sg_fd_queue s"
    "sg_handle_to_file_action s1 = sg_handle_to_file_action s" "kern s1 = set_errno 0 k" "sg_disk_io s1 = ts"
    "sg_file_writer_queue s1 = sg_file_writer_queue s" "sg_page_size s1 = ?P" "sg_ef_init_done s1 = sg_ef_init_done s"
    "ef_brk s1 = ef_brk s" "sg_writer_shutdown s1 = sg_writer_shutdown s"
    by (simp_all add: s1_def) (simp_all add: set_err_def)
  have rel: "release_slot (f_ef_fd f) a s1 = Done s'"
    unfolding s'_def by (rule release_slot_eq) (use g1 inv_htfa [OF inv] fd in auto)
  have "slot s1 (int (f_ef_fd f)) = Done (Some a)" using fd g1 by (simp add: slot_def)
  then have "ef_close_status (int (f_ef_fd f)) (notify (f_ef_fd f) oper_close (put_file a f1 ((set_err 0 ?s)\<lparr>kern := k\<rparr>))) = Done (0, s')"
    using rel g1(1) w(3) unfolding s1_def by (simp add: ef_close_status_def Let_def has_action_def f1_def)
  then have res: "ef_file_close a i ?s = Done s'"
    using f w(2) k(1) by (simp add: ef_file_close_def Let_def f1_def)
  have D': "\<And>b. b \<noteq> a \<Longrightarrow> d_of s' b = d_of s b" "e_of s' = e_of s" "d_of s' a = []"
    using w(4) q g1 by (auto simp: s'_def d_of_def e_of_def fun_eq_iff)
  have kok: "kernel_ok ?P (set_errno e k')" if "kernel_ok ?P k'" for e k'
    using that by (simp add: kernel_ok_def) (simp add: set_errno_def)
  have "keeps_but a s s'"
  proof (rule inv_remove [OF inv f _ _ D'(1,2) _ _ D'(3) w(5)])
    show "kernel_ok ?P (kern s')" using k(4) kok inv g1 by (simp add: ef_inv_def s'_def)
    fix b g assume "ef_heap s b = Some g" "b \<noteq> a" "f_status g = FILE_OPEN"
    then have "f_fd g \<noteq> f_fd f" using inv f w(1) unfolding ef_inv_def apart_def by metis
    then show "k_agree (f_fd g) (kern s) (kern s')" using k(5) [of "f_fd g"] g1(5) by (simp add: s'_def k_agree_def) (simp add: set_errno_def)
  qed (use g1 q in \<open>auto simp: s'_def\<close>)
  moreover have "fst (content s a) = kdata (kern s) (f_fd f)" using f w by (simp add: content_def logical_def f_abs_def f_view_def)
  moreover have "k_data (kern s') = k_data (kern s)" using k(2) g1(5) by (simp add: s'_def set_errno_def)
  moreover have "backlog s' \<le> backlog s"
    by (rule backlog_remove [of _ _ a "f_ef_fd f"]) (use g1 fd in \<open>auto simp: s'_def\<close>)
  then have "progress s s'" using q g1 by (auto simp: progress_def load_def no_opens_def s'_def)
  ultimately show ?thesis using f w res g1 fd
    by (intro exI [of _ f] exI [of _ s']) (auto simp: s'_def has_action_def slot_def)
qed

end
