(* ===== verification/EfClose.thy ===== *)
theory EfClose
  imports EfOpen
begin

text \<open>
  The background threads together, and closing: \<open>ef_close\<close> waits until they have written what is
  pending, and then the disk holds exactly what the file holds.
\<close>

subsection \<open>A step of another thread\<close>

text \<open>A handle that is open and not being closed.\<close>

definition live :: "ef_state \<Rightarrow> nat \<Rightarrow> ef_file \<Rightarrow> bool" where
  "live s a f \<longleftrightarrow> ef_heap s a = Some f \<and> f_status f = FILE_OPEN \<and> \<not> has_action oper_close f"

definition keeps_live :: "ef_state \<Rightarrow> ef_state \<Rightarrow> bool" where
  "keeps_live s s' \<longleftrightarrow>
     ef_inv s' \<and> sg_page_size s' = sg_page_size s \<and> (\<forall>b g. live s b g \<longrightarrow> carried s s' b g)"

lemma keeps_keeps_live: "keeps s s' \<Longrightarrow> keeps_live s s'"
  unfolding keeps_def keeps_live_def live_def by blast

lemma keeps_but_live: "keeps_but a s s' \<Longrightarrow> ef_heap s a = Some f \<Longrightarrow> has_action oper_close f \<Longrightarrow> keeps_live s s'"
  unfolding keeps_but_def keeps_live_def live_def by fastforce

lemma keeps_live_trans:
  assumes "keeps_live s s1" "keeps_live s1 s2"
  shows "keeps_live s s2"
proof -
  have "carried s s2 b g" if "live s b g" for b g
  proof -
    from assms(1) that have c: "carried s s1 b g" by (simp add: keeps_live_def)
    moreover have "live s1 b g1" if "ef_heap s1 b = Some g1" "f_status g1 = FILE_OPEN" for g1
      using that c \<open>live s b g\<close> by (auto simp: live_def carried_def)
    ultimately show ?thesis using assms(2) by (auto simp: keeps_live_def intro: carried_trans)
  qed
  with assms show ?thesis by (auto simp: keeps_live_def)
qed

lemma no_opens_next: "no_opens s \<Longrightarrow> next_open_ok s"
  by (auto simp: no_opens_def next_open_ok_def)

lemma no_readahead: "ef_inv s \<Longrightarrow> T_readahead a p n \<notin> set (sg_disk_io s)"
proof
  assume inv: "ef_inv s" and m: "T_readahead a p n \<in> set (sg_disk_io s)"
  then have d: "T_readahead a p n \<in> set (d_of s a)" by (simp add: d_of_def)
  from inv m obtain f where f: "ef_heap s a = Some f" by (fastforce simp: ef_inv_def queues_ok_def)
  from inv_file [OF inv f] d show False
    by (auto simp: file_ok_def open_action_ok_def pipe_ok_def pipe_queues_def split: file_status.splits option.splits
        file_oper_type.splits eio_inp.splits if_splits)
qed

lemma disk_thread_keeps:
  assumes inv: "ef_inv s" and nx: "next_open_ok s"
  shows "\<exists>s'. disk_thread s = Done s' \<and> keeps_live s s' \<and>
    (no_opens s \<longrightarrow> s' = s \<and> sg_disk_io s = [] \<or> progress s s')"
proof (cases "sg_disk_io s")
  case Nil
  with inv show ?thesis by (intro exI [of _ s]) (simp add: disk_thread_def keeps_keeps_live)
next
  case (Cons t ts)
  show ?thesis
  proof (cases t)
    case (T_open a)
    then have n: "\<not> no_opens s" using Cons by (auto simp: no_opens_def)
    show ?thesis
      by (rule ef_file_open_keeps [OF inv _ nx, of a ts]) (use Cons T_open n keeps_keeps_live in \<open>auto simp: disk_thread_def\<close>)
  next
    case (T_close a i)
    with ef_file_close_keeps [OF inv, of a i ts] Cons keeps_but_live show ?thesis
      by (fastforce simp: disk_thread_def)
  next
    case (T_read a p)
    with ef_file_read_keeps [OF inv, of a p ts] Cons keeps_keeps_live show ?thesis by (auto simp: disk_thread_def)
  next
    case (T_readahead a p n)
    with no_readahead [OF inv, of a p n] Cons show ?thesis by simp
  next
    case (T_write a)
    with ef_file_write_keeps [OF inv, of a ts] Cons keeps_keeps_live show ?thesis by (auto simp: disk_thread_def)
  qed
qed

lemma bg_step_keeps:
  assumes inv: "ef_inv s" and nx: "next_open_ok s"
  shows "b = Bg_sync \<and> bg_step b s = Spins \<or>
    (\<exists>s'. bg_step b s = Done s' \<and> keeps_live s s' \<and> (no_opens s \<longrightarrow> no_opens s'))"
proof (cases b)
  case Bg_disk
  with disk_thread_keeps [OF assms] show ?thesis by (auto simp: bg_step_def progress_def)
next
  case Bg_writer
  with file_writer_keeps [OF inv] keeps_keeps_live show ?thesis by (auto simp: bg_step_def progress_def)
next
  case Bg_sync
  with slow_sync_keeps [OF inv] keeps_keeps_live show ?thesis by (auto simp: bg_step_def no_opens_def)
qed

subsection \<open>Waiting for the writes\<close>

text \<open>Everything that was requested of the file is written and flushed.\<close>

definition settled :: "ef_state \<Rightarrow> nat \<Rightarrow> ef_file \<Rightarrow> eio_file_cmd \<Rightarrow> eio_write_oper \<Rightarrow> bool" where
  "settled s a f act w \<longleftrightarrow>
     ef_inv s \<and> ef_heap s a = Some f \<and> f_status f = FILE_OPEN \<and> writing f act w \<and>
     write_totreq_count w = write_cmpl_count w \<and> synced s a"

lemma settled_facts:
  assumes "settled s a f act w"
  shows "d_of s a = []" "e_of s a = []" "\<not> f_dirty f" "content s a = f_abs (sg_page_size s) f (kern s)"
    "fst (content s a) = kdata (kern s) (f_fd f)"
proof -
  have f: "ef_inv s" "ef_heap s a = Some f" "f_status f = FILE_OPEN" "f_action f = Some act" "a_cmd act = oper_write"
    "a_inp act = Write_inp w" "write_totreq_count w = write_cmpl_count w" "flushed a f (d_of s a)"
    using assms by (auto simp: settled_def writing_def synced_def)
  have p: "pipe_ok (sg_page_size s) a w (d_of s a) (e_of s a)"
    using inv_file [OF f(1,2)] f(3-6) by (simp add: file_ok_def open_action_ok_def)
  note i = pipe_idle [OF p f(7)]
  show "d_of s a = []" "e_of s a = []" using i by simp_all
  have fl: "flushes a f w (d_of s a)" using f(4-6,8) by (simp add: flushed_def)
  then show "\<not> f_dirty f" using i by (simp add: flushes_def pend_tasks_def)
  show c: "content s a = f_abs (sg_page_size s) f (kern s)"
    using f fl i by (simp add: content_def logical_def pend_tasks_def flushes_def with_accum_def)
  then show "fst (content s a) = kdata (kern s) (f_fd f)" using \<open>\<not> f_dirty f\<close> by (simp add: f_abs_def f_view_def)
qed

lemma set_status_writing:
  assumes inv: "ef_inv s" and f: "ef_heap s a = Some f" "writing f act w"
  shows "SET_STATUS_AT a s = Done (if write_totreq_count w = write_cmpl_count w
    then put_file a (f\<lparr>f_action := Some (act\<lparr>a_status := ACTION_COMPLETE\<rparr>)\<rparr>) s else s)"
proof -
  have "put_file a (f\<lparr>f_action := Some act\<rparr>) s = s"
    using f by (simp add: put_file_def fun_upd_idem writing_def action_same)
  then show ?thesis using f by (simp add: SET_STATUS_AT_def SET_WRITE_ACTION_STATUS_def writing_def)
qed

lemma writing_file:
  assumes inv: "ef_inv s" and f: "ef_heap s a = Some f" "f_status f = FILE_OPEN" "has_action oper_write f"
  obtains act w where "writing f act w" "a_status act \<noteq> ACTION_COMPLETE" "pipe_ok (sg_page_size s) a w (d_of s a) (e_of s a)"
  using inv_file [OF inv f(1)] f(2,3)
  by (auto simp: file_ok_def open_action_ok_def has_action_def writing_def split: option.splits eio_inp.splits)

lemma close_wait_writing:
  assumes inv: "ef_inv s" and f: "ef_heap s a = Some f" "writing f act w" "a_status act \<noteq> ACTION_COMPLETE"
  shows "close_wait sched a s =
    (if write_totreq_count w = write_cmpl_count w
     then Done (put_file a (f\<lparr>f_action := Some (act\<lparr>a_status := ACTION_COMPLETE\<rparr>)\<rparr>) s)
     else case sched of [] \<Rightarrow> Spins | b # bs \<Rightarrow> obind (bg_step b s) (close_wait bs a))"
  using set_status_writing [OF inv f(1,2)] f
  by (simp add: close_wait.simps [of sched] action_complete_def writing_def)

text \<open>A file with a write action goes through a step of another thread.\<close>

lemma bg_step_writing:
  assumes k: "keeps_live s s1" and f: "ef_heap s a = Some f" "f_status f = FILE_OPEN" "has_action oper_write f"
  obtains f1 where "ef_inv s1" "ef_heap s1 a = Some f1" "f_status f1 = FILE_OPEN" "has_action oper_write f1"
    "f_fd f1 = f_fd f" "f_oflag f1 = f_oflag f" "synced s a \<longrightarrow> synced s1 a" "f_ef_fd f1 = f_ef_fd f"
proof -
  have "live s a f" using f by (auto simp: live_def has_action_def split: option.splits)
  with k have "carried s s1 a f" "ef_inv s1" by (simp_all add: keeps_live_def)
  with f that show ?thesis by (auto simp: carried_def)
qed

lemma close_wait_ok:
  assumes "ef_inv s" "no_opens s" "ef_heap s a = Some f" "f_status f = FILE_OPEN" "has_action oper_write f" "synced s a"
  shows "close_wait sched a s = Spins \<or>
    (\<exists>s' f' act w. close_wait sched a s = Done (put_file a (f'\<lparr>f_action := Some (act\<lparr>a_status := ACTION_COMPLETE\<rparr>)\<rparr>) s') \<and>
       keeps_live s s' \<and> no_opens s' \<and> settled s' a f' act w \<and> f_fd f' = f_fd f \<and> f_ef_fd f' = f_ef_fd f)"
  using assms
proof (induction sched arbitrary: s f)
  case Nil
  obtain act w where w: "writing f act w" "a_status act \<noteq> ACTION_COMPLETE" by (rule writing_file [OF Nil.prems(1,3-5)])
  note u = close_wait_writing [OF Nil.prems(1,3) w]
  show ?case
  proof (cases "write_totreq_count w = write_cmpl_count w")
    case True
    with u Nil.prems w keeps_keeps_live [of s s] show ?thesis
      by (intro disjI2 exI [of _ s] exI [of _ f] exI [of _ act] exI [of _ w]) (simp add: settled_def)
  next
    case False
    with u show ?thesis by simp
  qed
next
  case (Cons b sched)
  obtain act w where w: "writing f act w" "a_status act \<noteq> ACTION_COMPLETE" by (rule writing_file [OF Cons.prems(1,3-5)])
  note u = close_wait_writing [OF Cons.prems(1,3) w, of "b # sched"]
  show ?case
  proof (cases "write_totreq_count w = write_cmpl_count w")
    case True
    with u Cons.prems w keeps_keeps_live [of s s] show ?thesis
      by (intro disjI2 exI [of _ s] exI [of _ f] exI [of _ act] exI [of _ w]) (simp add: settled_def)
  next
    case False
    from bg_step_keeps [OF Cons.prems(1) no_opens_next [OF Cons.prems(2)], of b] consider
      "bg_step b s = Spins" | s1 where "bg_step b s = Done s1" "keeps_live s s1" "no_opens s1" using Cons.prems(2) by blast
    then show ?thesis
    proof cases
      case 1
      with u False show ?thesis by simp
    next
      case 2
      obtain f1 where f1: "ef_inv s1" "ef_heap s1 a = Some f1" "f_status f1 = FILE_OPEN" "has_action oper_write f1"
        "f_fd f1 = f_fd f" "f_oflag f1 = f_oflag f" "synced s a \<longrightarrow> synced s1 a" "f_ef_fd f1 = f_ef_fd f"
        by (rule bg_step_writing [OF 2(2) Cons.prems(3-5)])
      from Cons.IH [OF f1(1) 2(3) f1(2-4)] u False 2(1) keeps_live_trans [OF 2(2)] f1 Cons.prems(6) show ?thesis by fastforce
    qed
  qed
qed

text \<open>Turns of the writer and of a disk thread in alternation finish the work.\<close>

fun alternate :: "nat \<Rightarrow> bg list" where
  "alternate 0 = []"
| "alternate (Suc n) = Bg_writer # Bg_disk # alternate n"

lemma pending_work:
  assumes "pipe_ok P a w (d_of s a) (e_of s a)" "write_totreq_count w \<noteq> write_cmpl_count w"
  shows "sg_disk_io s \<noteq> [] \<or> sg_file_writer_queue s \<noteq> []"
  using assms by (auto simp: pipe_ok_def pipe_queues_def d_of_def e_of_def reqs_cmpl_def split: if_splits)

lemma settle_eventually:
  assumes "ef_inv s" "no_opens s" "ef_heap s a = Some f" "f_status f = FILE_OPEN" "has_action oper_write f" "load s \<le> n"
  shows "close_wait (alternate n) a s \<noteq> Spins"
  using assms
proof (induction n arbitrary: s f)
  case 0
  obtain act w where w: "writing f act w" "a_status act \<noteq> ACTION_COMPLETE" "pipe_ok (sg_page_size s) a w (d_of s a) (e_of s a)"
    by (rule writing_file [OF 0(1,3-5)])
  from 0(6) have "sg_disk_io s = []" "sg_file_writer_queue s = []" by (simp_all add: load_def)
  with pending_work [OF w(3)] close_wait_writing [OF 0(1,3) w(1,2)] show ?case by auto
next
  case (Suc n)
  note P = Suc.prems
  obtain act w where w: "writing f act w" "a_status act \<noteq> ACTION_COMPLETE" "pipe_ok (sg_page_size s) a w (d_of s a) (e_of s a)"
    by (rule writing_file [OF P(1,3-5)])
  from file_writer_keeps [OF P(1)] obtain s1 where
    s1: "file_writer s = Done s1" "keeps s s1" "s1 = s \<and> sg_file_writer_queue s = [] \<or> progress s s1" by blast
  obtain f1 where f1: "ef_inv s1" "ef_heap s1 a = Some f1" "f_status f1 = FILE_OPEN" "has_action oper_write f1"
    by (rule bg_step_writing [OF keeps_keeps_live [OF s1(2)] P(3-5)])
  have no1: "no_opens s1" using s1(3) P(2) by (auto simp: progress_def)
  obtain act1 w1 where w1: "writing f1 act1 w1" "a_status act1 \<noteq> ACTION_COMPLETE" by (rule writing_file [OF f1])
  from disk_thread_keeps [OF f1(1) no_opens_next [OF no1]] no1 obtain s2 where
    s2: "disk_thread s1 = Done s2" "keeps_live s1 s2" "s2 = s1 \<and> sg_disk_io s1 = [] \<or> progress s1 s2" by blast
  obtain f2 where f2: "ef_inv s2" "ef_heap s2 a = Some f2" "f_status f2 = FILE_OPEN" "has_action oper_write f2"
    by (rule bg_step_writing [OF s2(2) f1(2-4)])
  have no2: "no_opens s2" using s2(3) no1 by (auto simp: progress_def)
  show ?case
  proof (cases "write_totreq_count w = write_cmpl_count w \<or> write_totreq_count w1 = write_cmpl_count w1")
    case True
    with close_wait_writing [OF P(1,3) w(1,2)] close_wait_writing [OF f1(1,2) w1] s1(1) show ?thesis by (auto simp: bg_step_def)
  next
    case False
    then have "load s2 < load s"
      using pending_work [OF w(3)] s1(3) s2(3) by (auto simp: progress_def)
    with P(6) Suc.IH [OF f2(1) no2 f2(2-4)] have "close_wait (alternate n) a s2 \<noteq> Spins" by simp
    with False close_wait_writing [OF P(1,3) w(1,2)] close_wait_writing [OF f1(1,2) w1] s1(1) s2(1) show ?thesis
      by (simp add: bg_step_def)
  qed
qed

subsection \<open>Closing\<close>

text \<open>After the wait the action becomes the close, and a disk thread is told.\<close>

lemma close_request_inv:
  assumes inv: "ef_inv s" and f: "ef_heap s a = Some f" "f_status f = FILE_OPEN" "f_ef_fd f = fd"
    and i: "d_of s a = []" "e_of s a = []" "\<not> f_dirty f"
    and s': "s' = s\<lparr>ef_heap := (ef_heap s)(a \<mapsto> f\<lparr>f_action := Some (eio_cmd_init oper_close)\<rparr>), sg_disk_io := ts @ T_close a fd # us\<rparr>"
    and q: "sg_disk_io s = ts @ us"
  shows "keeps_but a s s'" "content s' a = f_abs (sg_page_size s) f (kern s)"
proof -
  let ?f = "f\<lparr>f_action := Some (eio_cmd_init oper_close)\<rparr>" and ?P = "sg_page_size s"
  have act: "act_idle (eio_cmd_init oper_close) oper_close" "a_cmd (eio_cmd_init oper_close) = oper_close"
    by (simp_all add: act_idle_def eio_cmd_init_def low_eio_cmd_init_def)
  have D: "d_of s' a = [T_close a fd]" "e_of s' a = []" "\<And>b. b \<noteq> a \<Longrightarrow> d_of s' b = d_of s b" "\<And>b. e_of s' b = e_of s b"
    using i q by (auto simp: s' d_of_def e_of_def)
  have st: "file_step a s s'"
    by (rule file_stepI [OF f(1), where f' = ?f]) (use f D q in \<open>auto simp: s' same_globals_def\<close>)
  have "io_ok ?P ?f (kern s)" using inv_file [OF inv f(1)] f(2) i(3) by (simp add: file_ok_def io_ok_def)
  then have ok: "file_ok ?P (kern s) a ?f (d_of s' a) (e_of s' a)"
    using inv_file [OF inv f(1)] f act D by (simp add: file_ok_def open_action_ok_def)
  have inv': "ef_inv s'" using file_step_inv [OF inv st] ok f(1) by (simp add: s')
  moreover have "carried s s' b g" if "ef_heap s b = Some g" "f_status g = FILE_OPEN" "b \<noteq> a" for b g
    using file_step_other [OF inv st that(1,3,2)] that(2) by (intro carried_same) simp_all
  ultimately show "keeps_but a s s'" by (simp add: keeps_but_def) (simp add: s')
  show "content s' a = f_abs ?P f (kern s)" using act by (simp add: content_def s' logical_def)
qed

lemma close_wait_none:
  assumes "ef_heap s a = Some f" "f_action f = None"
  shows "close_wait sched a s = Done s"
proof -
  have "put_file a (f\<lparr>f_action := None\<rparr>) s = s" using assms by (simp add: put_file_def fun_upd_idem action_same)
  with assms show ?thesis by (simp add: close_wait.simps [of sched] SET_STATUS_AT_def SET_WRITE_ACTION_STATUS_def)
qed

text \<open>\<open>ef_close_api\<close> up to the point where the close action exists.\<close>

definition close_prep :: "bg list \<Rightarrow> nat \<Rightarrow> nat \<Rightarrow> ef_state \<Rightarrow> (ef_file \<times> ef_state) outcome" where
  "close_prep sched fd a s =
     obind (sync_file_writes fd s) (\<lambda>s1.
     obind (close_wait sched a s1) (\<lambda>s2.
     obind (file_at s2 a) (\<lambda>f2.
     obind (if f_action f2 \<noteq> None then free_file_action f2 else Done f2) (\<lambda>f3.
       Done (alloc_file_action f3 oper_close, s2)))))"

lemma ef_close_api_prep:
  assumes inv: "ef_inv s" and sl: "slot s fd = Done (Some a)" and f: "ef_heap s a = Some f" "f_status f = FILE_OPEN"
    "idle_now f \<or> has_action oper_write f"
    and f1: "f1 = (if idle_now f then f\<lparr>f_action := None\<rparr> else f)"
  shows "ef_close_api sched fd immediate s = obind (close_prep sched (nat fd) a (put_file a f1 (set_err 0 s))) (\<lambda>(f3, s2).
      let s3 = put_file a f3 s2
      in if immediate then obind (ef_file_close a (nat fd) s3) (\<lambda>s4. Done (0, s4))
         else Done (0, enqueue_task (T_close a (nat fd)) s3))"
proof -
  have i: "sg_ef_init_done s" using inv by (simp add: ef_inv_def slots_ok_def)
  note fo = inv_file [OF inv f(1)]
  have pm: "f\<lparr>f_action := None, f_prevent_mutation := 0\<rparr> = f\<lparr>f_action := None\<rparr>" using fo by (cases f) (simp add: file_ok_def)
  have nc: "\<not> has_action oper_close f"
    using fo f(2,3) by (auto simp: file_ok_def open_action_ok_def has_action_def idle_now_def action_complete_def act_idle_def
        split: option.splits)
  have fr: "(if action_complete f then free_file_action f else Done f) = Done f1"
    using f1 pm by (auto simp: idle_now_def action_complete_def free_file_action_def action_same split: option.splits)
  have nb: "\<not> (f_action f \<noteq> None \<and> \<not> has_action oper_write f \<and> \<not> action_complete f)"
    using f(3) by (auto simp: idle_now_def)
  show ?thesis
    using i sl f(1,2) nc fr nb by (simp add: ef_close_api_def close_prep_def Let_def obind_assoc if_not_P)
qed

definition ready_to_close :: "ef_state \<Rightarrow> nat \<Rightarrow> ef_file \<Rightarrow> ef_file \<Rightarrow> ef_state \<Rightarrow> bool" where
  "ready_to_close s a f f2 s2 \<longleftrightarrow>
     keeps_live s s2 \<and> no_opens s2 \<and> ef_heap s2 a = Some f2 \<and> f_status f2 = FILE_OPEN \<and> d_of s2 a = [] \<and> e_of s2 a = [] \<and>
     \<not> f_dirty f2 \<and> f_fd f2 = f_fd f \<and> f_ef_fd f2 = f_ef_fd f \<and>
     kino (kern s2) (f_fd f) = kino (kern s) (f_fd f) \<and> kdata (kern s2) (f_fd f) = fst (content s a)"

lemma close_prep_ok:
  assumes inv: "ef_inv s" and no: "no_opens s" and fd: "fd < EF_MAX_FILES" "sg_open_files s ! fd = Some a"
    and f: "ef_heap s a = Some f" "f_status f = FILE_OPEN" "f_action f = None \<or> has_action oper_write f"
  shows "close_prep sched fd a s = Spins \<or>
      (\<exists>f2 x s2. close_prep sched fd a s = Done (f2\<lparr>f_action := Some (eio_cmd_init oper_close)\<rparr>, put_file a (f2\<lparr>f_action := x\<rparr>) s2) \<and>
        ready_to_close s a f f2 s2)"
    and "\<exists>N. \<forall>n\<ge>N. close_prep (alternate n) fd a s \<noteq> Spins"
proof -
  have pam: "f_prevent_mutation g = 0" if "ef_inv t" "ef_heap t b = Some g" for t b g
    using inv_file [OF that] by (simp add: file_ok_def)
  have upd: "g\<lparr>f_action := y, f_prevent_mutation := 0\<rparr> = g\<lparr>f_action := y\<rparr>" if "f_prevent_mutation g = 0" for g y
    using that by (cases g) simp
  have nw: "\<not> sync_waits f" using f(3) by (auto simp: sync_waits_def)
  note sy = sync_file_writes_eq [OF inv fd f(1) nw]
  show "close_prep sched fd a s = Spins \<or>
      (\<exists>f2 x s2. close_prep sched fd a s = Done (f2\<lparr>f_action := Some (eio_cmd_init oper_close)\<rparr>, put_file a (f2\<lparr>f_action := x\<rparr>) s2) \<and>
        ready_to_close s a f f2 s2)"
    "\<exists>N. \<forall>n\<ge>N. close_prep (alternate n) fd a s \<noteq> Spins"
  proof (atomize (full), cases "has_action oper_write f")
    case False
    then have na: "f_action f = None" using f(3) by simp
    have s1: "sync_file_writes fd s = Done s" using sy False by (auto simp: writing_def has_action_def)
    have same: "put_file a (f\<lparr>f_action := None\<rparr>) s = s" using f(1) na by (simp add: put_file_def fun_upd_idem action_same)
    have "f\<lparr>f_action := Some (eio_cmd_init oper_close), f_prevent_mutation := 0\<rparr> = f\<lparr>f_action := Some (eio_cmd_init oper_close)\<rparr>"
      using upd pam [OF inv f(1)] by blast
    then have res: "close_prep sc fd a s = Done (f\<lparr>f_action := Some (eio_cmd_init oper_close)\<rparr>, put_file a (f\<lparr>f_action := None\<rparr>) s)" for sc
      using s1 close_wait_none [OF f(1) na] f(1) na same by (simp add: close_prep_def alloc_file_action_def)
    have "d_of s a = []" "e_of s a = []" "\<not> f_dirty f" "fst (content s a) = kdata (kern s) (f_fd f)"
      using inv_file [OF inv f(1)] f na
      by (auto simp: file_ok_def open_action_ok_def io_ok_def has_action_def content_def logical_def f_abs_def f_view_def)
    with f no keeps_keeps_live [of s s] inv have "ready_to_close s a f f s" by (simp add: ready_to_close_def)
    with res show "(close_prep sched fd a s = Spins \<or>
      (\<exists>f2 x s2. close_prep sched fd a s = Done (f2\<lparr>f_action := Some (eio_cmd_init oper_close)\<rparr>, put_file a (f2\<lparr>f_action := x\<rparr>) s2) \<and>
        ready_to_close s a f f2 s2)) \<and> (\<exists>N. \<forall>n\<ge>N. close_prep (alternate n) fd a s \<noteq> Spins)" by auto
  next
    case True
    from sy True f(2) obtain act w act' w' m ts where
      r: "sync_file_writes fd s = Done (act_upd a f act' m s)" "writing f act w" "writing (f\<lparr>f_action := Some act'\<rparr>) act' w'"
        "a_status act' \<noteq> ACTION_COMPLETE" "pipe_ext (sg_page_size s) a [] w m w'" "accum_data w' = None"
        "w_queue w' = ts @ [\<lparr>w_cmd = file_fsync_evt, w_buf = None, w_nbyte = 0\<rparr>]" by blast
    let ?s1 = "act_upd a f act' m s" and ?f1 = "f\<lparr>f_action := Some act'\<rparr>"
    have fl: "flushes a f w' D" for D using r(6,7) by (simp add: flushes_def pend_tasks_def ends_flushed_def)
    have k1: "keeps s ?s1" by (rule act_upd_keeps [OF inv f(1,2) r(2-5) fl])
    have c1: "content ?s1 a = content s a" using k1 f(1,2) by (auto simp: keeps_def carried_def)
    have h1: "ef_heap ?s1 a = Some ?f1" "f_status ?f1 = FILE_OPEN" "has_action oper_write ?f1" "no_opens ?s1"
      using f(2) r(3) no by (auto simp: act_upd_def writing_def has_action_def no_opens_def)
    have kern1: "kern ?s1 = kern s" by (simp add: act_upd_def)
    have y1: "synced ?s1 a" using h1(1) r(3) fl by (auto simp: synced_def flushed_def flushes_def writing_def)
    have tail: "close_prep sc fd a s = obind (close_wait sc a ?s1) (\<lambda>s2. obind (file_at s2 a) (\<lambda>f2.
        obind (if f_action f2 \<noteq> None then free_file_action f2 else Done f2) (\<lambda>f3. Done (alloc_file_action f3 oper_close, s2))))" for sc
      by (simp add: close_prep_def r(1))
    have ok: "close_prep sc fd a s = Spins \<and> close_wait sc a ?s1 = Spins \<or>
      (\<exists>f2 x s2. close_prep sc fd a s = Done (f2\<lparr>f_action := Some (eio_cmd_init oper_close)\<rparr>, put_file a (f2\<lparr>f_action := x\<rparr>) s2) \<and>
        ready_to_close s a f f2 s2)" for sc
    proof -
      from close_wait_ok [OF keeps_inv [OF k1] h1(4,1,2,3) y1, of sc] consider "close_wait sc a ?s1 = Spins" |
        s2 f2 a2 w2 where "close_wait sc a ?s1 = Done (put_file a (f2\<lparr>f_action := Some (a2\<lparr>a_status := ACTION_COMPLETE\<rparr>)\<rparr>) s2)"
          "keeps_live ?s1 s2" "no_opens s2" "settled s2 a f2 a2 w2" "f_fd f2 = f_fd ?f1" "f_ef_fd f2 = f_ef_fd ?f1" by blast
      then show ?thesis
      proof cases
        case 1
        with tail show ?thesis by simp
      next
        case 2
        note st = settled_facts [OF 2(4)]
        have s2: "ef_inv s2" "ef_heap s2 a = Some f2" "f_status f2 = FILE_OPEN" using 2(4) by (simp_all add: settled_def)
        have "live ?s1 a ?f1" using h1 r(3) by (simp add: live_def writing_def)
        then have "carried ?s1 s2 a ?f1" using 2(2) by (simp add: keeps_live_def)
        then have c2: "content s2 a = content s a" "kino (kern s2) (f_fd f) = kino (kern s) (f_fd f)"
          using c1 kern1 by (auto simp: carried_def)
        have "ready_to_close s a f f2 s2"
          using keeps_live_trans [OF keeps_keeps_live [OF k1] 2(2)] 2(3,5,6) s2 st c2 by (simp add: ready_to_close_def)
        moreover have "close_prep sc fd a s = Done (f2\<lparr>f_action := Some (eio_cmd_init oper_close)\<rparr>,
            put_file a (f2\<lparr>f_action := Some (a2\<lparr>a_status := ACTION_COMPLETE\<rparr>)\<rparr>) s2)"
          using upd [OF pam [OF s2(1,2)]] by (simp add: tail 2(1) free_file_action_def alloc_file_action_def)
        ultimately show ?thesis by blast
      qed
    qed
    have "close_wait (alternate n) a ?s1 \<noteq> Spins" if "load ?s1 \<le> n" for n
      by (rule settle_eventually [OF keeps_inv [OF k1] h1(4,1,2,3) that])
    with ok show "(close_prep sched fd a s = Spins \<or>
      (\<exists>f2 x s2. close_prep sched fd a s = Done (f2\<lparr>f_action := Some (eio_cmd_init oper_close)\<rparr>, put_file a (f2\<lparr>f_action := x\<rparr>) s2) \<and>
        ready_to_close s a f f2 s2)) \<and> (\<exists>N. \<forall>n\<ge>N. close_prep (alternate n) fd a s \<noteq> Spins)"
      by (metis outcome.distinct(3))
  qed
qed

text \<open>
  A file on its way to be closed: its handle still exists, everything it holds is on the disk, and the
  other files are as they were.
\<close>

definition others_carried :: "nat \<Rightarrow> ef_state \<Rightarrow> ef_state \<Rightarrow> bool" where
  "others_carried a s s' \<longleftrightarrow>
     ef_inv s' \<and> sg_page_size s' = sg_page_size s \<and> (\<forall>b g. live s b g \<longrightarrow> b \<noteq> a \<longrightarrow> carried s s' b g)"

lemma others_carried_trans:
  assumes "keeps_live s s1" "keeps_but a s1 s2"
  shows "others_carried a s s2"
proof -
  have "carried s s2 b g" if "live s b g" "b \<noteq> a" for b g
    by (rule carried_trans [of s s1]) (use assms that in \<open>auto simp: keeps_live_def keeps_but_def\<close>)
  with assms show ?thesis by (auto simp: others_carried_def keeps_live_def keeps_but_def)
qed

definition closing :: "ef_state \<Rightarrow> nat \<Rightarrow> ef_file \<Rightarrow> ef_state \<Rightarrow> bool" where
  "closing s a f s' \<longleftrightarrow>
     others_carried a s s' \<and>
     (\<exists>f'. ef_heap s' a = Some f' \<and> f_status f' = FILE_OPEN \<and> has_action oper_close f' \<and> f_fd f' = f_fd f \<and>
        f_ef_fd f' = f_ef_fd f) \<and>
     kino (kern s') (f_fd f) = kino (kern s) (f_fd f) \<and> kdata (kern s') (f_fd f) = fst (content s a)"

lemma ef_close_api_ok:
  assumes inv: "ef_inv s" and no: "no_opens s" and sl: "slot s fd = Done (Some a)"
    and f: "ef_heap s a = Some f" "f_status f = FILE_OPEN" "idle_now f \<or> has_action oper_write f"
  shows "ef_close_api sched fd False s = Spins \<and> ef_close_api sched fd True s = Spins \<or>
      (\<exists>s' t'. ef_close_api sched fd False s = Done (0, s') \<and> closing s a f s' \<and>
        (\<exists>ts. sg_disk_io s' = ts @ [T_close a (nat fd)] \<and>
          ef_close_api sched fd True s = obind (ef_file_close a (nat fd) (t'\<lparr>sg_disk_io := ts\<rparr>)) (\<lambda>s4. Done (0, s4)) \<and>
          sg_disk_io t' = T_close a (nat fd) # ts \<and> closing s a f t'))"
    and "\<exists>N. \<forall>n\<ge>N. ef_close_api (alternate n) fd False s \<noteq> Spins"
proof -
  obtain f' where fd: "ef_heap s a = Some f'" "f_ef_fd f' = nat fd" "nat fd < EF_MAX_FILES" "sg_open_files s ! nat fd = Some a"
    by (rule slot_file [OF inv sl])
  have inv0: "ef_inv (set_err 0 s)" using inv by simp
  define f1 where "f1 = (if idle_now f then f\<lparr>f_action := None\<rparr> else f)"
  let ?s1 = "put_file a f1 (set_err 0 s)"
  note api = ef_close_api_prep [OF inv sl f f1_def]
  have f1: "ef_heap ?s1 a = Some f1" "f_status f1 = FILE_OPEN" "f_action f1 = None \<or> has_action oper_write f1" "f_fd f1 = f_fd f"
    "f_ef_fd f1 = f_ef_fd f"
    using f by (auto simp: f1_def)
  have k1: "keeps s ?s1"
  proof (cases "idle_now f")
    case True
    with settle_idle(2) [OF inv0, of a f] f show ?thesis by (simp add: f1_def keeps_set_err)
  next
    case False
    then have "?s1 = set_err 0 s" using f(1) by (simp add: f1_def put_file_def set_err_def fun_upd_idem)
    with inv show ?thesis using keeps_set_err(1) [of s s 0] by simp
  qed
  have c1: "content ?s1 a = content s a" using k1 f(1,2) by (auto simp: keeps_def carried_def)
  have no1: "no_opens ?s1" using no by (simp add: no_opens_def)
  have fd1: "sg_open_files ?s1 ! nat fd = Some a" using fd(4) by simp
  note pr = close_prep_ok [OF keeps_inv [OF k1] no1 fd(3) fd1 f1(1-3)]
  from pr(1) [of sched] consider "close_prep sched (nat fd) a ?s1 = Spins" | f2 x s2 where
    "close_prep sched (nat fd) a ?s1 = Done (f2\<lparr>f_action := Some (eio_cmd_init oper_close)\<rparr>, put_file a (f2\<lparr>f_action := x\<rparr>) s2)"
    "ready_to_close ?s1 a f1 f2 s2" by blast
  then show "ef_close_api sched fd False s = Spins \<and> ef_close_api sched fd True s = Spins \<or>
      (\<exists>s' t'. ef_close_api sched fd False s = Done (0, s') \<and> closing s a f s' \<and>
        (\<exists>ts. sg_disk_io s' = ts @ [T_close a (nat fd)] \<and>
          ef_close_api sched fd True s = obind (ef_file_close a (nat fd) (t'\<lparr>sg_disk_io := ts\<rparr>)) (\<lambda>s4. Done (0, s4)) \<and>
          sg_disk_io t' = T_close a (nat fd) # ts \<and> closing s a f t'))"
  proof cases
    case 1
    then show ?thesis by (simp add: api)
  next
    case 2
    let ?f3 = "f2\<lparr>f_action := Some (eio_cmd_init oper_close)\<rparr>"
    define st where "st us vs = s2\<lparr>ef_heap := (ef_heap s2)(a \<mapsto> ?f3), sg_disk_io := us @ T_close a (nat fd) # vs\<rparr>" for us vs
    have r: "keeps_live ?s1 s2" "ef_heap s2 a = Some f2" "f_status f2 = FILE_OPEN" "d_of s2 a = []" "e_of s2 a = []"
      "\<not> f_dirty f2" "f_fd f2 = f_fd f" "kdata (kern s2) (f_fd f) = fst (content s a)"
      "kino (kern s2) (f_fd f) = kino (kern s) (f_fd f)"
      using 2(2) f1(4) c1 by (simp_all add: ready_to_close_def)
    have inv2: "ef_inv s2" using r(1) by (simp add: keeps_live_def)
    have eff: "f_ef_fd f2 = nat fd" using 2(2) f1(5) fd(1,2) f(1) by (simp add: ready_to_close_def)
    have cl: "closing s a f (st us vs)" if "sg_disk_io s2 = us @ vs" for us vs
    proof -
      have "keeps_but a s2 (st us vs)" by (rule close_request_inv(1) [OF inv2 r(2,3) eff r(4-6) st_def that])
      then have "others_carried a s (st us vs)"
        using others_carried_trans [OF keeps_live_trans [OF keeps_keeps_live [OF k1] r(1)]] by blast
      moreover have "f_ef_fd f = nat fd" using fd(1,2) f(1) by simp
      ultimately show ?thesis using r eff by (simp add: closing_def) (simp add: st_def eio_cmd_init_def low_eio_cmd_init_def)
    qed
    have a: "ef_close_api sched fd False s = Done (0, st (sg_disk_io s2) [])"
      by (simp add: api 2(1)) (simp add: st_def enqueue_task_def put_file_def)
    have b: "ef_close_api sched fd True s = obind (ef_file_close a (nat fd) ((st [] (sg_disk_io s2))\<lparr>sg_disk_io := sg_disk_io s2\<rparr>)) (\<lambda>s4. Done (0, s4))"
      by (simp add: api 2(1)) (simp add: st_def put_file_def)
    show ?thesis
      by (intro disjI2 exI [of _ "st (sg_disk_io s2) []"] exI [of _ "st [] (sg_disk_io s2)"] conjI exI [of _ "sg_disk_io s2"])
         (use a b cl in \<open>simp_all, simp_all add: st_def\<close>)
  qed
  from pr(2) obtain N where N: "\<And>n. N \<le> n \<Longrightarrow> close_prep (alternate n) (nat fd) a ?s1 \<noteq> Spins" by blast
  have "ef_close_api (alternate n) fd False s \<noteq> Spins" if "N \<le> n" for n
    using N [OF that] pr(1) [of "alternate n"] by (auto simp: api)
  then show "\<exists>N. \<forall>n\<ge>N. ef_close_api (alternate n) fd False s \<noteq> Spins" by blast
qed

lemma set_err_closing [simp]: "closing (set_err e s) a f s' = closing s a f s'" "no_opens (set_err e s) = no_opens s"
  by (simp_all add: closing_def others_carried_def live_def carried_def no_opens_def)

lemma ef_close_ok:
  assumes "ef_inv s" "no_opens s" "slot s fd = Done (Some a)" "ef_heap s a = Some f" "f_status f = FILE_OPEN"
    "idle_now f \<or> has_action oper_write f"
  shows "ef_close sched fd s = Spins \<or>
      (\<exists>s'. ef_close sched fd s = Done (0, s') \<and> closing s a f s' \<and> T_close a (nat fd) \<in> set (sg_disk_io s'))"
    "\<exists>N. \<forall>n\<ge>N. ef_close (alternate n) fd s \<noteq> Spins"
proof -
  note c = ef_close_api_ok [of "set_err 0 s" fd a f, simplified, OF assms]
  from c(1) [of sched] show "ef_close sched fd s = Spins \<or>
      (\<exists>s'. ef_close sched fd s = Done (0, s') \<and> closing s a f s' \<and> T_close a (nat fd) \<in> set (sg_disk_io s'))"
    by (auto simp: ef_close_def)
  from c(2) show "\<exists>N. \<forall>n\<ge>N. ef_close (alternate n) fd s \<noteq> Spins" by (simp add: ef_close_def)
qed

text \<open>The file is gone, its slot is free, and the inode holds what the file held.\<close>

definition closed :: "ef_state \<Rightarrow> nat \<Rightarrow> ef_file \<Rightarrow> int \<Rightarrow> ef_state \<Rightarrow> bool" where
  "closed s a f fd s' \<longleftrightarrow>
     others_carried a s s' \<and> ef_heap s' a = None \<and> slot s' fd = Done None \<and>
     k_data (kern s') (kino (kern s) (f_fd f)) = fst (content s a)"

lemma disk_closes:
  assumes c: "closing s a f t" and q: "sg_disk_io t = T_close a (nat fd) # ts" and fd: "slot t fd = Done (Some a)" "0 \<le> fd"
  shows "\<exists>s'. ef_file_close a (nat fd) (t\<lparr>sg_disk_io := ts\<rparr>) = Done s' \<and> closed s a f fd s'"
proof -
  have inv: "ef_inv t" using c by (simp add: closing_def others_carried_def)
  from ef_file_close_keeps [OF inv q] obtain g s' where r: "ef_heap t a = Some g"
    "ef_file_close a (nat fd) (t\<lparr>sg_disk_io := ts\<rparr>) = Done s'" "keeps_but a t s'" "ef_heap s' = (ef_heap t)(a := None)"
    "slot s' (int (f_ef_fd g)) = Done None" "k_data (kern s') = k_data (kern t)" by blast
  have "carried s s' b h" if "live s b h" "b \<noteq> a" for b h
    by (rule carried_trans [of s t]) (use c r(3) that in \<open>auto simp: closing_def others_carried_def keeps_but_def\<close>)
  then have "others_carried a s s'" using c r(3) by (auto simp: others_carried_def closing_def keeps_but_def)
  moreover obtain g' where "ef_heap t a = Some g'" "f_ef_fd g' = nat fd" by (rule slot_file [OF inv fd(1)])
  then have "int (f_ef_fd g) = fd" using r(1) fd(2) by simp
  then have "slot s' fd = Done None" using r(5) by simp
  moreover have "k_data (kern s') (kino (kern s) (f_fd f)) = fst (content s a)"
    using c r(6) by (auto simp: closing_def kdata_def kino_def)
  ultimately show ?thesis using r(2,4) by (simp add: closed_def)
qed

lemma ef_close_immediate_ok:
  assumes "ef_inv s" "no_opens s" "slot s fd = Done (Some a)" "ef_heap s a = Some f" "f_status f = FILE_OPEN"
    "idle_now f \<or> has_action oper_write f"
  shows "ef_close_immediate sched fd s = Spins \<or> (\<exists>s'. ef_close_immediate sched fd s = Done (0, s') \<and> closed s a f fd s')"
    "\<exists>N. \<forall>n\<ge>N. ef_close_immediate (alternate n) fd s \<noteq> Spins"
proof -
  note c = ef_close_api_ok [of "set_err 0 s" fd a f, simplified, OF assms]
  have fd: "0 \<le> fd" "nat fd < EF_MAX_FILES" "f_ef_fd f = nat fd" using slot_file [OF assms(1,3)] assms(4) by auto
  have sl: "slot t fd = Done (Some a)" if "closing s a f t" for t
  proof -
    from that obtain f' where "slots_ok t" "ef_heap t a = Some f'" "f_ef_fd f' = nat fd"
      using fd(3) by (auto simp: closing_def others_carried_def ef_inv_def)
    then have "sg_open_files t ! nat fd = Some a" "length (sg_open_files t) = EF_MAX_FILES" unfolding slots_ok_def by metis+
    with fd show ?thesis by (simp add: slot_def)
  qed
  have ok: "ef_close_api sched fd False (set_err 0 s) = Spins \<and> ef_close_immediate sched fd s = Spins \<or>
      (\<exists>s'. ef_close_immediate sched fd s = Done (0, s') \<and> closed s a f fd s')" for sched
    using c(1) [of sched]
  proof (elim disjE exE conjE)
    fix s' t' ts
    assume t: "ef_close_api sched fd True (set_err 0 s) = obind (ef_file_close a (nat fd) (t'\<lparr>sg_disk_io := ts\<rparr>)) (\<lambda>s4. Done (0, s4))"
      "sg_disk_io t' = T_close a (nat fd) # ts" "closing s a f t'"
    from disk_closes [OF t(3,2) sl [OF t(3)] fd(1)] t(1) show ?thesis by (auto simp: ef_close_immediate_def)
  qed (simp add: ef_close_immediate_def)
  then show "ef_close_immediate sched fd s = Spins \<or> (\<exists>s'. ef_close_immediate sched fd s = Done (0, s') \<and> closed s a f fd s')" by blast
  from c(2) ok show "\<exists>N. \<forall>n\<ge>N. ef_close_immediate (alternate n) fd s \<noteq> Spins" by (metis outcome.distinct(3))
qed

end
