(* ===== verification/EfSystem.thy ===== *)
theory EfSystem
  imports EfClose
begin

text \<open>
  The file layer as a whole: the calls a program may make and the steps of the other threads, in any
  order. From the state that \<open>ef_init\<close> leaves, every reachable state satisfies the invariant, and no
  call or thread aborts or touches memory it does not own.
\<close>

subsection \<open>Initialisation\<close>

lemma setup_fd_slots_eq: "setup_fd_slots s = s\<lparr>sg_fd_queue := sg_fd_queue s @ [0..<EF_MAX_FILES]\<rparr>"
proof -
  have "fold st_enqueue_sg_fd_queue xs s = s\<lparr>sg_fd_queue := sg_fd_queue s @ xs\<rparr>" for xs and s :: ef_state
    by (induction xs arbitrary: s) (simp_all add: st_enqueue_sg_fd_queue_def)
  then show ?thesis by (simp add: setup_fd_slots_def)
qed

text \<open>The state before \<open>ef_init\<close>: no file exists and no task is queued.\<close>

definition fresh_state :: "nat \<Rightarrow> ef_state \<Rightarrow> bool" where
  "fresh_state pagesize s \<longleftrightarrow>
     kernel_ok (256 * pagesize) (kern s) \<and> ef_heap s = (\<lambda>_. None) \<and> sg_disk_io s = []"

lemma ef_init_inv:
  assumes "fresh_state pagesize s"
  shows "ef_inv (ef_init pagesize s)" "sg_disk_io (ef_init pagesize s) = []" "ef_heap (ef_init pagesize s) = (\<lambda>_. None)"
    "sg_page_size (ef_init pagesize s) = 256 * pagesize"
proof -
  let ?s = "ef_init pagesize s"
  have k: "kernel_ok (256 * pagesize) (set_errno 0 (kern s))"
    using assms by (simp add: fresh_state_def kernel_ok_def) (simp add: set_errno_def)
  have g: "ef_heap ?s = (\<lambda>_. None)" "sg_disk_io ?s = []" "sg_file_writer_queue ?s = []" "sg_page_size ?s = 256 * pagesize"
    "kern ?s = set_errno 0 (kern s)" "sg_fd_queue ?s = [0..<EF_MAX_FILES]" "sg_open_files ?s = replicate EF_MAX_FILES None"
    "sg_handle_to_file_action ?s = replicate EF_MAX_FILES 0" "sg_ef_init_done ?s" "\<not> sg_writer_shutdown ?s"
    using assms by (simp_all add: ef_init_def Let_def setup_fd_slots_eq fresh_state_def)
  have "slots_ok ?s" using g by (auto simp: slots_ok_def)
  with k g show "ef_inv ?s" by (simp add: ef_inv_def queues_ok_def files_ok_def apart_def)
  show "sg_disk_io ?s = []" "ef_heap ?s = (\<lambda>_. None)" "sg_page_size ?s = 256 * pagesize" using g by simp_all
qed

subsection \<open>Calls and steps\<close>

datatype ef_op =
    Op_open "string option" flags
  | Op_open_status int
  | Op_read int bool nat
  | Op_ready int
  | Op_write int "byte list option" nat
  | Op_sync int
  | Op_poll int
  | Op_close "bg list" int
  | Op_close_immediate "bg list" int
  | Op_close_status int
  | Op_set_cb "nat option" nat
  | Op_unset_cb
  | Op_set_thrpool nat
  | Op_bg bg

fun ef_exec :: "ef_op \<Rightarrow> ef_state \<Rightarrow> (int \<times> byte list \<times> ef_state) outcome" where
  "ef_exec (Op_open path fl) s = obind (ef_open path fl s) (\<lambda>(r, s'). Done (r, [], s'))"
| "ef_exec (Op_open_status fd) s = obind (ef_open_status fd s) (\<lambda>(r, s'). Done (r, [], s'))"
| "ef_exec (Op_read fd null n) s = ef_read fd null n s"
| "ef_exec (Op_ready fd) s = obind (ef_file_ready_for_read fd s) (\<lambda>(r, s'). Done (r, [], s'))"
| "ef_exec (Op_write fd buf n) s = obind (ef_write fd buf n s) (\<lambda>(r, s'). Done (r, [], s'))"
| "ef_exec (Op_sync fd) s = obind (ef_sync fd s) (\<lambda>(r, s'). Done (r, [], s'))"
| "ef_exec (Op_poll fd) s = obind (ef_poll fd s) (\<lambda>(r, s'). Done (r, [], s'))"
| "ef_exec (Op_close sched fd) s = obind (ef_close sched fd s) (\<lambda>(r, s'). Done (r, [], s'))"
| "ef_exec (Op_close_immediate sched fd) s = obind (ef_close_immediate sched fd s) (\<lambda>(r, s'). Done (r, [], s'))"
| "ef_exec (Op_close_status fd) s = obind (ef_close_status fd s) (\<lambda>(r, s'). Done (r, [], s'))"
| "ef_exec (Op_set_cb cb d) s = Done (0, [], ef_set_cb_func cb d s)"
| "ef_exec Op_unset_cb s = Done (0, [], ef_unset_cb_func s)"
| "ef_exec (Op_set_thrpool p) s = obind (ef_set_thrpool p s) (\<lambda>s'. Done (0, [], s'))"
| "ef_exec (Op_bg b) s = obind (bg_step b s) (\<lambda>s'. Done (0, [], s'))"

text \<open>
  What a program has to observe: handles are indices of the table, which the code does not check; a
  write names a buffer that has the bytes and is shorter than \<open>INT_MAX\<close>; a close waits while no open is
  pending, and so does a change of the pool. The environment is such that a file is opened only by one handle at a time, in a supported mode.
\<close>

definition handle :: "int \<Rightarrow> bool" where
  "handle fd \<longleftrightarrow> 0 \<le> fd \<and> fd < 128"

fun op_ok :: "ef_op \<Rightarrow> ef_state \<Rightarrow> bool" where
  "op_ok (Op_open path fl) s = True"
| "op_ok (Op_open_status fd) s = handle fd"
| "op_ok (Op_read fd null n) s = handle fd"
| "op_ok (Op_ready fd) s = handle fd"
| "op_ok (Op_write fd buf n) s = (handle fd \<and> (\<forall>d. buf = Some d \<longrightarrow> n \<le> length d \<and> n < 2147483648))"
| "op_ok (Op_sync fd) s = handle fd"
| "op_ok (Op_poll fd) s = handle fd"
| "op_ok (Op_close sched fd) s = (handle fd \<and> no_opens s)"
| "op_ok (Op_close_immediate sched fd) s = (handle fd \<and> no_opens s)"
| "op_ok (Op_close_status fd) s = handle fd"
| "op_ok (Op_set_cb cb d) s = True"
| "op_ok Op_unset_cb s = True"
| "op_ok (Op_set_thrpool p) s = no_opens s"
| "op_ok (Op_bg b) s = next_open_ok s"

text \<open>The third component of what \<open>ef_exec\<close> returns is the next state.\<close>

definition next_state :: "int \<times> byte list \<times> ef_state \<Rightarrow> ef_state" where
  "next_state r = snd (snd r)"

definition ef_start :: "nat \<Rightarrow> ef_state \<Rightarrow> bool" where
  "ef_start pagesize s \<longleftrightarrow> (\<exists>s0. fresh_state pagesize s0 \<and> s = ef_init pagesize s0)"

definition ef_reach :: "nat \<Rightarrow> ef_state \<Rightarrow> bool" where
  "ef_reach pagesize = reach (ef_start pagesize) op_ok ef_exec next_state"

subsection \<open>Every call keeps the invariant\<close>

text \<open>
  A call returns with the invariant kept; closing, and the periodic flush, may wait instead for threads
  that are not given the turns they need.
\<close>

definition returns :: "(int \<times> byte list \<times> ef_state) outcome \<Rightarrow> bool" where
  "returns out \<longleftrightarrow> (\<exists>r bs s'. out = Done (r, bs, s') \<and> ef_inv s')"

definition safe :: "(int \<times> byte list \<times> ef_state) outcome \<Rightarrow> bool" where
  "safe out \<longleftrightarrow> out = Spins \<or> returns out"

fun may_wait :: "ef_op \<Rightarrow> bool" where
  "may_wait (Op_close sched fd) = True"
| "may_wait (Op_close_immediate sched fd) = True"
| "may_wait (Op_bg b) = (b = Bg_sync)"
| "may_wait _ = False"

lemma handle_slot:
  assumes inv: "ef_inv s" and h: "handle fd"
  obtains "slot s fd = Done None" | a f where "slot s fd = Done (Some a)" "ef_heap s a = Some f" "f_ef_fd f = nat fd"
proof -
  have len: "length (sg_open_files s) = EF_MAX_FILES" using inv by (simp add: ef_inv_def slots_ok_def)
  then have "slot s fd = Done (sg_open_files s ! nat fd)" using h by (auto simp: slot_def handle_def)
  then show ?thesis
  proof (cases "sg_open_files s ! nat fd")
    case None
    with \<open>slot s fd = Done (sg_open_files s ! nat fd)\<close> that(1) show ?thesis by simp
  next
    case (Some a)
    with \<open>slot s fd = Done (sg_open_files s ! nat fd)\<close> have "slot s fd = Done (Some a)" by simp
    with slot_file [OF inv this] that(2) show ?thesis by metis
  qed
qed

lemma heap_slot: "ef_inv s \<Longrightarrow> ef_heap s a = Some f \<Longrightarrow> slot s (int (f_ef_fd f)) = Done (Some a)"
  by (simp add: slot_def ef_inv_def slots_ok_def)

lemma init_done: "ef_inv s \<Longrightarrow> sg_ef_init_done s"
  by (simp add: ef_inv_def slots_ok_def)

lemma returns_open: "ef_inv s \<Longrightarrow> returns (ef_exec (Op_open path fl) s)"
  using ef_open_fails [of s path fl] ef_open_ok [of s path fl _ _ "ef_brk s"]
  by (cases "open_args_ok path fl"; cases "sg_fd_queue s") (auto simp: returns_def keeps_def)

lemma returns_open_status:
  assumes inv: "ef_inv s" and h: "handle fd"
  shows "returns (ef_exec (Op_open_status fd) s)"
proof (rule handle_slot [OF assms])
  assume "slot s fd = Done None"
  with inv show ?thesis by (simp add: returns_def ef_open_status_def Let_def)
next
  fix a f assume f: "slot s fd = Done (Some a)" "ef_heap s a = Some f"
  note o = ef_open_status_keeps [OF inv f]
  show ?thesis
    using o inv by (cases "f_status f") (auto simp: returns_def keeps_def)
qed

lemma returns_read:
  assumes inv: "ef_inv s" and h: "handle fd"
  shows "returns (ef_exec (Op_read fd null n) s)"
proof (rule handle_slot [OF assms])
  assume "slot s fd = Done None"
  with inv init_done [OF inv] show ?thesis by (simp add: returns_def ef_read_def low_ef_read_def chk_read_conditions_def Let_def)
next
  fix a f assume f: "slot s fd = Done (Some a)" "ef_heap s a = Some f"
  show ?thesis
  proof (cases "null \<or> n = 0 \<or> sg_page_size s < n \<or> f_status f \<noteq> FILE_OPEN \<or> f_curr_size f \<le> f_offset f \<or> \<not> read_access (f_oflag f)")
    case True
    with f inv init_done [OF inv] show ?thesis
      by (auto simp: returns_def ef_read_def low_ef_read_def chk_read_conditions_def Let_def)
  next
    case False
    then have g: "f_status f = FILE_OPEN" "read_access (f_oflag f)" "0 < n" "n \<le> sg_page_size s" "f_offset f < f_curr_size f" "\<not> null" by auto
    note o = ef_read_bytes [OF inv f g(1-5)] ef_read_fires [OF inv f g(1-5)] ef_read_busy [OF inv f g(1-5)]
    consider "\<not> idle_now f" | "idle_now f" "f_buffer f = None" | "idle_now f" "f_buffer f \<noteq> None" by blast
    then show ?thesis
      by cases (use o g(6) in \<open>auto simp: returns_def keeps_def reads_def\<close>)
  qed
qed

lemma returns_ready:
  assumes inv: "ef_inv s" and h: "handle fd"
  shows "returns (ef_exec (Op_ready fd) s)"
proof (rule handle_slot [OF assms])
  assume "slot s fd = Done None"
  with inv init_done [OF inv] show ?thesis
    by (simp add: returns_def ef_file_ready_for_read_def chk_fd_read_conditions_def Let_def)
next
  fix a f assume f: "slot s fd = Done (Some a)" "ef_heap s a = Some f"
  with inv init_done [OF inv] show ?thesis
    by (auto simp: returns_def ef_file_ready_for_read_def chk_fd_read_conditions_def ef_analyse_readahead_action_status_def
        ef_analyse_read_action_status_def Let_def)
qed

lemma ef_write_busy:
  assumes inv: "ef_inv s" and sl: "slot s fd = Done (Some a)" and f: "ef_heap s a = Some f" "f_status f = FILE_OPEN"
    "can_write (f_oflag f)" "\<not> writable_now f" and n: "0 < n"
  shows "ef_write fd (Some buf) n s = Done (-1, set_err EBUSY s)"
proof -
  note fo = inv_file [OF inv f(1)]
  have locks: "f_write_suspended f = 0" using fo by (simp add: file_ok_def)
  have ac: "action_complete (f\<lparr>f_write_suspended := i\<rparr>) = action_complete f"
    "has_action oper (f\<lparr>f_write_suspended := i\<rparr>) = has_action oper f" for i oper
    by (simp_all add: action_complete_def has_action_def)
  have fl: "any_flag (O_RDWR OR O_WRONLY) (f_oflag f)" using f(3) by (subst any_flag_or) (auto simp: can_write_bits)
  have nb: "\<not> action_complete f" "f_action f \<noteq> None" "\<not> has_action oper_write f" using f(2-4) by (auto simp: writable_now_def)
  have same: "put_file a (f\<lparr>f_write_suspended := 0\<rparr>) t = t" if "ef_heap t a = Some f" for t
    using that locks by (cases f) (simp add: put_file_def fun_upd_idem)
  have "low_ef_write a buf n (set_err 0 s) = Done (-1, set_err EBUSY s)"
    using f(1) locks nb ac same [of "set_err EBUSY s"]
    by (simp add: low_ef_write_def Let_def set_write_suspended_def) (simp add: set_err_def put_file_def set_errno_def)
  with sl f n fl show ?thesis by (simp add: ef_write_def Let_def)
qed

lemma returns_write:
  assumes inv: "ef_inv s" and h: "op_ok (Op_write fd buf n) s"
  shows "returns (ef_exec (Op_write fd buf n) s)"
proof -
  from h have hd: "handle fd" and b: "\<And>d. buf = Some d \<Longrightarrow> n \<le> length d \<and> n < 2147483648" by auto
  show ?thesis
  proof (rule handle_slot [OF inv hd])
    assume "slot s fd = Done None"
    with inv show ?thesis by (simp add: returns_def ef_write_def Let_def)
  next
    fix a f assume f: "slot s fd = Done (Some a)" "ef_heap s a = Some f"
    have cw: "any_flag (O_RDWR OR O_WRONLY) (f_oflag f) = can_write (f_oflag f)" if "f_status f = FILE_OPEN"
      using inv_file [OF inv f(2)] that by (subst any_flag_or) (auto simp: file_ok_def io_ok_def can_write_bits)
    consider "buf = None \<or> n = 0 \<or> f_status f \<noteq> FILE_OPEN \<or> f_status f = FILE_OPEN \<and> \<not> can_write (f_oflag f)"
      | d where "buf = Some d" "0 < n" "f_status f = FILE_OPEN" "can_write (f_oflag f)" by (cases buf) auto
    then show ?thesis
    proof cases
      case 1
      with f inv cw show ?thesis by (auto simp: returns_def ef_write_def Let_def)
    next
      case 2
      with b ef_write_ok [OF inv f, of n d] ef_write_busy [OF inv f, of n d] inv show ?thesis
        by (cases "writable_now f") (auto simp: returns_def writes_def)
    qed
  qed
qed

lemma returns_sync:
  assumes inv: "ef_inv s" and h: "handle fd"
  shows "returns (ef_exec (Op_sync fd) s)"
  by (rule handle_slot [OF assms]) (use ef_sync_keeps [OF inv, of fd] in \<open>fastforce simp: returns_def keeps_def\<close>)+

lemma returns_poll:
  assumes inv: "ef_inv s" and h: "handle fd"
  shows "returns (ef_exec (Op_poll fd) s)"
  by (rule handle_slot [OF assms]) (use inv init_done [OF inv] in \<open>auto simp: returns_def ef_poll_def\<close>)

lemma safe_close:
  assumes inv: "ef_inv s" and h: "handle fd" and no: "no_opens s"
  shows "safe (ef_exec (Op_close sched fd) s)" "safe (ef_exec (Op_close_immediate sched fd) s)"
proof -
  have "safe (ef_exec (Op_close sched fd) s) \<and> safe (ef_exec (Op_close_immediate sched fd) s)"
  proof (rule handle_slot [OF inv h])
    assume "slot s fd = Done None"
    with inv init_done [OF inv] show ?thesis
      by (simp add: safe_def returns_def ef_close_def ef_close_immediate_def ef_close_api_def Let_def)
  next
    fix a f assume f: "slot s fd = Done (Some a)" "ef_heap s a = Some f"
    show ?thesis
    proof (cases "f_status f = FILE_OPEN \<and> (idle_now f \<or> has_action oper_write f)")
      case True
      with ef_close_ok(1) [OF inv no f, of sched] ef_close_immediate_ok(1) [OF inv no f, of sched] show ?thesis
        by (auto simp: safe_def returns_def closing_def closed_def others_carried_def)
    next
      case False
      with f inv init_done [OF inv] show ?thesis
        by (auto simp: safe_def returns_def ef_close_def ef_close_immediate_def ef_close_api_def Let_def idle_now_def)
    qed
  qed
  then show "safe (ef_exec (Op_close sched fd) s)" "safe (ef_exec (Op_close_immediate sched fd) s)" by simp_all
qed

lemma returns_close_status:
  assumes inv: "ef_inv s" and h: "handle fd"
  shows "returns (ef_exec (Op_close_status fd) s)"
  by (rule handle_slot [OF assms]) (use ef_close_status_keeps [OF inv, of fd] inv in \<open>fastforce simp: returns_def\<close>)+

lemma returns_cb: "ef_inv s \<Longrightarrow> returns (ef_exec (Op_set_cb cb d) s)" "ef_inv s \<Longrightarrow> returns (ef_exec Op_unset_cb s)"
  by (simp_all add: returns_def ef_set_cb_func_def ef_unset_cb_func_def ef_inv_def slots_ok_def queues_ok_def files_ok_def apart_def
      d_of_def e_of_def)

lemma safe_bg:
  "ef_inv s \<Longrightarrow> next_open_ok s \<Longrightarrow> safe (ef_exec (Op_bg b) s)"
  "ef_inv s \<Longrightarrow> next_open_ok s \<Longrightarrow> b \<noteq> Bg_sync \<Longrightarrow> returns (ef_exec (Op_bg b) s)"
  using bg_step_keeps [of s b] by (auto simp: safe_def returns_def keeps_live_def)

text \<open>The tasks that are queued run to their end, and the files that are open stay as they are.\<close>

lemma drain_disk_keeps:
  "ef_inv s \<Longrightarrow> no_opens s \<Longrightarrow> \<exists>s'. drain_disk n s = Done s' \<and> ef_inv s' \<and> no_opens s'"
proof (induction n arbitrary: s)
  case (Suc n)
  from bg_step_keeps [OF Suc.prems(1) no_opens_next [OF Suc.prems(2)], of Bg_disk] Suc.prems(2)
  obtain s1 where "disk_thread s = Done s1" "ef_inv s1" "no_opens s1" by (auto simp: bg_step_def keeps_live_def)
  with Suc.IH show ?case by simp
qed simp

lemma pool_fields [simp]:
  "ef_inv (s\<lparr>sg_thr_pool_init_done := b\<rparr>) = ef_inv s" "ef_inv (s\<lparr>sg_disk_io_thr_pool := p\<rparr>) = ef_inv s"
  "no_opens (s\<lparr>sg_thr_pool_init_done := b\<rparr>) = no_opens s"
  by (simp_all add: ef_inv_def slots_ok_def queues_ok_def files_ok_def apart_def d_of_def e_of_def no_opens_def)

lemma returns_set_thrpool:
  assumes "ef_inv s" "no_opens s"
  shows "returns (ef_exec (Op_set_thrpool p) s)"
  using assms drain_disk_keeps [of "s\<lparr>sg_thr_pool_init_done := True\<rparr>" "length (sg_disk_io s)"]
  by (auto simp: returns_def ef_set_thrpool_def Let_def)

lemmas returns_ops = returns_set_thrpool returns_open returns_open_status returns_read returns_ready returns_write returns_sync returns_poll
  returns_close_status returns_cb safe_bg(2)

lemma ef_exec_returns:
  assumes "ef_inv s" "op_ok op s" "\<not> may_wait op"
  shows "returns (ef_exec op s)"
  using assms returns_ops by (cases op) (simp_all del: ef_exec.simps)

lemma ef_exec_safe:
  assumes "ef_inv s" "op_ok op s"
  shows "safe (ef_exec op s)"
proof (cases "may_wait op")
  case True
  with assms safe_close safe_bg(1) show ?thesis by (cases op) (simp_all del: ef_exec.simps)
next
  case False
  with ef_exec_returns [OF assms] show ?thesis by (simp add: safe_def)
qed

interpretation ef: guarded_system "ef_start pagesize" op_ok ef_exec next_state ef_inv for pagesize
proof
  show "ef_inv s" if "ef_start pagesize s" for s using that ef_init_inv(1) by (auto simp: ef_start_def)
  show "ef_exec op s = Spins \<or> (\<exists>r. ef_exec op s = Done r \<and> ef_inv (next_state r))" if "ef_inv s" "op_ok op s" for op s
    using ef_exec_safe [OF that] by (auto simp: safe_def returns_def next_state_def)
qed

lemma ef_reach_inv: "ef_reach pagesize s \<Longrightarrow> ef_inv s"
  unfolding ef_reach_def by (rule ef.reach_inv)

lemma ef_reach_step: "ef_reach pagesize s \<Longrightarrow> op_ok op s \<Longrightarrow> ef_exec op s = Done (r, bs, s') \<Longrightarrow> ef_reach pagesize s'"
  unfolding ef_reach_def using reach_step [of "ef_start pagesize" op_ok ef_exec next_state s op "(r, bs, s')"]
  by (simp add: next_state_def)

subsection \<open>Opening a file\<close>

lemma sys_open_errno: "fst (sys_open (set_errno e k) path fl) = fst (sys_open k path fl)"
  by (simp add: sys_open_def set_errno_def k_new_fd_def kset_data_def split: option.splits)

lemma opened_data_errno: "opened_data (set_errno e k) path fl = opened_data k path fl"
  by (cases "k_dir k path") (simp_all add: opened_data_def set_errno_def)

lemma kino_errno: "kino (set_errno e k) fd = kino k fd" "k_dir (set_errno e k) = k_dir k"
  by (simp_all add: kino_def kfd_of_def set_errno_def)

text \<open>\<open>ef_open\<close>, the disk thread that opens the file, and \<open>ef_open_status\<close> when the operating system opens it.\<close>

lemma open_sequence:
  assumes inv: "ef_inv s" and args: "open_args_ok path fl" and q: "sg_fd_queue s = fd # fds" and io: "sg_disk_io s = []"
    and may: "may_open s (the path) fl" and opens: "fst (sys_open (kern s) (the path) (open_flags fl)) \<noteq> -1" and a: "a = ef_brk s"
  shows "\<exists>s1 s2 s3 f. ef_open path fl s = Done (int fd, s1) \<and> next_open_ok s1 \<and> disk_thread s1 = Done s2 \<and>
    ef_open_status (int fd) s2 = Done (int fd, s3) \<and> keeps s s3 \<and> sg_disk_io s3 = [] \<and> slot s3 (int fd) = Done (Some a) \<and>
    ef_heap s3 a = Some f \<and> f_status f = FILE_OPEN \<and> f_action f = None \<and> f_oflag f = open_flags fl \<and>
    content s3 a = (opened_data (kern s) (the path) fl,
      if bit fl 10 \<and> bit fl 0 then length (opened_data (kern s) (the path) fl) else 0)"
proof -
  from ef_open_ok [OF inv args q a] io obtain s1 f1 act where
    s1: "ef_open path fl s = Done (int fd, s1)" "keeps s s1" "sg_disk_io s1 = [T_open a]" "slot s1 (int fd) = Done (Some a)"
      "ef_heap s1 = (ef_heap s)(a \<mapsto> f1)" "f_status f1 = FILE_OPEN_ATTEMPTED" "f_action f1 = Some act"
      "a_inp act = Open_inp (the path) fl" "kern s1 = set_errno 0 (kern s)"
    by auto
  have i1: "ef_inv s1" by (rule keeps_inv [OF s1(2)])
  have nx: "next_open_ok s1"
    using s1(3,5-9) may
    by (auto simp: next_open_ok_def may_open_def opened_data_errno kino_errno)
  obtain s2 f act' path' fl' where s2: "ef_file_open a (s1\<lparr>sg_disk_io := []\<rparr>) = Done s2" "keeps s1 s2" "ef_heap s1 a = Some f"
      "f_action f = Some act'" "a_inp act' = Open_inp path' fl'" "open_result s1 path' fl' a s2" "sg_disk_io s2 = []"
      "sg_open_files s2 = sg_open_files s1"
    by (rule ef_file_open_keeps [OF i1 s1(3) nx])
  have pf: "path' = the path" "fl' = fl" using s1(5,7,8) s2(3-5) by auto
  have d2: "disk_thread s1 = Done s2" using s1(3) s2(1) by (simp add: disk_thread_def)
  have "fst (sys_open (set_errno 0 (kern s1)) (the path) (open_flags fl)) \<noteq> -1"
    using opens unfolding s1(9) by (simp add: sys_open_errno)
  with s2(6) pf obtain f2 where f2: "ef_heap s2 a = Some f2" "f_status f2 = FILE_OPEN" "f_oflag f2 = open_flags fl"
      "has_action oper_open f2" "content s2 a = (opened_data (kern s) (the path) fl,
        if bit fl 10 \<and> bit fl 0 then length (opened_data (kern s) (the path) fl) else 0)"
    unfolding open_result_def s1(9) by (auto simp: opened_data_errno)
  have i2: "ef_inv s2" by (rule keeps_inv [OF s2(2)])
  have sl2: "slot s2 (int fd) = Done (Some a)" using s1(4) s2(8) by (auto simp: slot_def split: if_splits)
  from ef_open_status_keeps(3) [OF i2 sl2 f2(1,2)] f2(4) obtain s3 where
    s3: "ef_open_status (int fd) s2 = Done (int fd, s3)" "keeps s2 s3" "sg_disk_io s3 = []" "ef_heap s3 a = Some (f2\<lparr>f_action := None\<rparr>)"
    using s2(7) by auto
  obtain g where "ef_heap s2 a = Some g" "f_ef_fd g = nat (int fd)" by (rule slot_file [OF i2 sl2])
  then have "f_ef_fd f2 = fd" using f2(1) by simp
  then have "slot s3 (int fd) = Done (Some a)" using heap_slot [OF keeps_inv [OF s3(2)] s3(4)] by simp
  moreover have "content s3 a = content s2 a" using s3(2) f2(1,2) by (simp add: keeps_def carried_def)
  moreover have "keeps s s3" by (rule keeps_trans [OF keeps_trans [OF s1(2) s2(2)] s3(2)])
  ultimately show ?thesis using s1(1) nx d2 s3 f2 by (intro exI [of _ s1] exI [of _ s2] exI [of _ s3]) simp
qed

subsection \<open>A run\<close>

text \<open>A machine whose file system is empty, or holds the file \<open>log\<close>, on which that file is opened.\<close>

definition demo_kernel :: "byte list option \<Rightarrow> kernel" where
  "demo_kernel d = \<lparr>k_dir = (\<lambda>p. if p = ''log'' \<and> d \<noteq> None then Some 0 else None), k_data = (\<lambda>_. case d of None \<Rightarrow> [] | Some x \<Rightarrow> x),
     k_next_ino = 1, k_fds = (\<lambda>_. None), k_next_fd = 3, k_block = 512,
     k_denied = (\<lambda>_. False), k_read_fails = (\<lambda>_. False), k_write_fails = (\<lambda>_. False), errno = 0\<rparr>"

definition demo_state :: "byte list option \<Rightarrow> ef_state" where
  "demo_state d = \<lparr>sg_open_files = [], sg_handle_to_file_action = [], sg_fd_queue = [], sg_disk_io = [], sg_file_writer_queue = [],
     sg_writer_shutdown = False, sg_page_size = 0, sg_cb_func = None, sg_cb_data = 0, sg_cb_log = [], sg_ef_init_done = False,
     sg_thr_pool_init_done = False, sg_disk_io_thr_pool = None,
     ef_heap = (\<lambda>_. None), ef_brk = 0, kern = demo_kernel d, mem_junk = (\<lambda>_. 0), mem_garbage = 7\<rparr>"

fun run_ops :: "ef_op list \<Rightarrow> ef_state \<Rightarrow> ef_state outcome" where
  "run_ops [] s = Done s"
| "run_ops (op # ops) s = obind (ef_exec op s) (\<lambda>(r, bs, s'). run_ops ops s')"

definition demo_after :: "byte list option \<Rightarrow> ef_op list \<Rightarrow> ef_state" where
  "demo_after d ops = (case run_ops ops (ef_init 4096 (demo_state d)) of Done s \<Rightarrow> s | _ \<Rightarrow> demo_state d)"

definition demo_open :: "flags \<Rightarrow> ef_op list" where
  "demo_open fl = [Op_open (Some ''log'') fl, Op_bg Bg_disk, Op_open_status 0]"

lemma demo_fresh: "fresh_state 4096 (demo_state d)"
  by (simp add: fresh_state_def demo_state_def demo_kernel_def kernel_ok_def)

lemma demo_start: "ef_reach 4096 (ef_init 4096 (demo_state d))" "ef_inv (ef_init 4096 (demo_state d))"
  "sg_fd_queue (ef_init 4096 (demo_state d)) = 0 # [1..<EF_MAX_FILES]" "ef_brk (ef_init 4096 (demo_state d)) = 0"
  "sg_disk_io (ef_init 4096 (demo_state d)) = []" "kern (ef_init 4096 (demo_state d)) = demo_kernel d"
  "sg_page_size (ef_init 4096 (demo_state d)) = 1048576" "ef_heap (ef_init 4096 (demo_state d)) = (\<lambda>_. None)"
proof -
  show "ef_reach 4096 (ef_init 4096 (demo_state d))"
    unfolding ef_reach_def by (rule reach_start) (use demo_fresh in \<open>auto simp: ef_start_def\<close>)
  then show "ef_inv (ef_init 4096 (demo_state d))" by (rule ef_reach_inv)
  show "sg_fd_queue (ef_init 4096 (demo_state d)) = 0 # [1..<EF_MAX_FILES]" "ef_brk (ef_init 4096 (demo_state d)) = 0"
    "kern (ef_init 4096 (demo_state d)) = demo_kernel d"
    by (simp_all add: ef_init_def Let_def setup_fd_slots_eq demo_state_def demo_kernel_def upt_conv_Cons)
       (simp_all add: set_err_def set_errno_def demo_state_def demo_kernel_def)
  show "sg_disk_io (ef_init 4096 (demo_state d)) = []" "sg_page_size (ef_init 4096 (demo_state d)) = 1048576"
    "ef_heap (ef_init 4096 (demo_state d)) = (\<lambda>_. None)"
    using ef_init_inv [OF demo_fresh] by simp_all
qed

lemma demo_opened:
  assumes fl: "open_args_ok (Some ''log'') fl" "mode_ok (open_flags fl) (opened_data (demo_kernel d) ''log'' fl)" "bit fl 6 \<or> d \<noteq> None"
  shows "ef_reach 4096 (demo_after d (demo_open fl))" "no_opens (demo_after d (demo_open fl))" "sg_disk_io (demo_after d (demo_open fl)) = []"
    "slot (demo_after d (demo_open fl)) 0 = Done (Some 0)"
    "content (demo_after d (demo_open fl)) 0 = (opened_data (demo_kernel d) ''log'' fl,
       if bit fl 10 \<and> bit fl 0 then length (opened_data (demo_kernel d) ''log'' fl) else 0)"
    "sg_page_size (demo_after d (demo_open fl)) = 1048576"
    "\<exists>f. ef_heap (demo_after d (demo_open fl)) 0 = Some f \<and> f_status f = FILE_OPEN \<and> f_action f = None \<and> f_oflag f = open_flags fl"
proof -
  let ?s0 = "ef_init 4096 (demo_state d)"
  note s0 = demo_start [of d]
  have may: "may_open ?s0 (the (Some ''log'')) fl" using fl(2) s0 by (simp add: may_open_def)
  have "bit (open_flags fl) 6 \<or> d \<noteq> None" using fl(3) by (simp add: open_flags_bits)
  then have opens: "fst (sys_open (kern ?s0) (the (Some ''log'')) (open_flags fl)) \<noteq> -1"
    using s0(6) by (auto simp: sys_open_def k_new_fd_def demo_kernel_def kset_data_def)
  from open_sequence [OF s0(2) fl(1) s0(3) s0(5) may opens refl] s0(4,6,7) obtain s1 s2 s3 f where
    r: "ef_open (Some ''log'') fl ?s0 = Done (0, s1)" "next_open_ok s1" "disk_thread s1 = Done s2" "ef_open_status 0 s2 = Done (0, s3)"
      "sg_disk_io s3 = []" "keeps ?s0 s3"
    and f: "slot s3 0 = Done (Some 0)" "ef_heap s3 0 = Some f" "f_status f = FILE_OPEN" "f_action f = None" "f_oflag f = open_flags fl"
      "content s3 0 = (opened_data (demo_kernel d) ''log'' fl,
         if bit fl 10 \<and> bit fl 0 then length (opened_data (demo_kernel d) ''log'' fl) else 0)" by auto
  have run: "demo_after d (demo_open fl) = s3" by (simp add: demo_after_def demo_open_def r(1,3,4) bg_step_def)
  have r1: "ef_reach 4096 s1" by (rule ef_reach_step [OF s0(1), of "Op_open (Some ''log'') fl" 0 "[]"]) (simp_all add: r(1))
  have r2: "ef_reach 4096 s2" by (rule ef_reach_step [OF r1, of "Op_bg Bg_disk" 0 "[]"]) (simp_all add: r(2,3) bg_step_def)
  have "ef_reach 4096 s3" by (rule ef_reach_step [OF r2, of "Op_open_status 0" 0 "[]"]) (simp_all add: handle_def r(4))
  moreover have "sg_page_size s3 = 1048576" using r(6) s0(7) by (simp add: keeps_def)
  ultimately show "ef_reach 4096 (demo_after d (demo_open fl))" "no_opens (demo_after d (demo_open fl))"
    "sg_disk_io (demo_after d (demo_open fl)) = []"
    "slot (demo_after d (demo_open fl)) 0 = Done (Some 0)"
    "content (demo_after d (demo_open fl)) 0 = (opened_data (demo_kernel d) ''log'' fl,
       if bit fl 10 \<and> bit fl 0 then length (opened_data (demo_kernel d) ''log'' fl) else 0)"
    "sg_page_size (demo_after d (demo_open fl)) = 1048576"
    "\<exists>f. ef_heap (demo_after d (demo_open fl)) 0 = Some f \<and> f_status f = FILE_OPEN \<and> f_action f = None \<and> f_oflag f = open_flags fl"
    unfolding run using r f by (simp_all add: no_opens_def)
qed

end
