(* ===== verification/EfProps.thy ===== *)
theory EfProps
  imports EfSystem
begin

text \<open>
  The properties of the file layer, over the states a program reaches from \<open>ef_init\<close> by calls and steps
  of the other threads in any order.
\<close>

subsection \<open>A client that reads a file to its end\<close>

text \<open>
  The loop a caller of \<open>ef_read\<close> runs: on -1 it lets a disk thread take a turn and tries again, at 0 it
  stops. A page costs a turn of the disk thread, so two passes for every byte left and one more are enough.
\<close>

fun read_all :: "nat \<Rightarrow> int \<Rightarrow> nat \<Rightarrow> ef_state \<Rightarrow> (byte list \<times> ef_state) outcome" where
  "read_all 0 fd n s = Spins"
| "read_all (Suc k) fd n s =
     obind (ef_read fd False n s) (\<lambda>(r, bs, s1).
       if r = 0 then Done ([], s1)
       else if r < 0 then obind (disk_thread s1) (read_all k fd n)
       else obind (read_all k fd n s1) (\<lambda>(bs', s2). Done (bs @ bs', s2)))"

text \<open>An idle file open for reading holds what the disk holds.\<close>

lemma idle_content:
  assumes inv: "ef_inv s" and f: "ef_heap s a = Some f" "f_status f = FILE_OPEN" "idle_now f" "read_access (f_oflag f)"
  shows "content s a = (kdata (kern s) (f_fd f), f_offset f)" "f_curr_size f = length (kdata (kern s) (f_fd f))"
proof -
  have io: "io_ok (sg_page_size s) f (kern s)"
    and oa: "open_action_ok (sg_page_size s) a f (length (kdata (kern s) (f_fd f))) (d_of s a) (e_of s a)"
    using inv_file [OF inv f(1)] f(2) by (simp_all add: file_ok_def)
  have nw: "\<not> has_action oper_write f"
    using f(3) oa by (auto simp: idle_now_def action_complete_def has_action_def open_action_ok_def split: option.splits)
  then have "\<not> f_dirty f" using io by (simp add: io_ok_def)
  with nw f(1) show "content s a = (kdata (kern s) (f_fd f), f_offset f)"
    by (auto simp: content_def logical_def f_abs_def f_view_def has_action_def split: option.splits)
  show "f_curr_size f = length (kdata (kern s) (f_fd f))" by (rule read_access_can_read(3) [OF io f(4)])
qed

lemma read_all_ok:
  assumes "ef_inv s" "slot s fd = Done (Some a)" "ef_heap s a = Some f" "f_status f = FILE_OPEN" "read_access (f_oflag f)"
    "idle_now f" "sg_disk_io s = []" "0 < n" "n \<le> sg_page_size s"
    and "2 * (f_curr_size f - f_offset f) + (if f_buffer f = None then 1 else 0) < k"
  shows "\<exists>s'. read_all k fd n s = Done (drop (f_offset f) (kdata (kern s) (f_fd f)), s') \<and> ef_inv s'"
  using assms
proof (induction k arbitrary: s f)
  case (Suc k)
  note inv = Suc.prems(1) and sl = Suc.prems(2) and f = Suc.prems(3-5) and n = Suc.prems(8,9)
  note ic = idle_content [OF inv f(1,2) Suc.prems(6) f(3)]
  obtain g where g: "ef_heap s a = Some g" "f_ef_fd g = nat fd" "0 \<le> fd" by (rule slot_file [OF inv sl])
  consider "f_curr_size f \<le> f_offset f" | "f_offset f < f_curr_size f" "f_buffer f = None" | "f_offset f < f_curr_size f" "f_buffer f \<noteq> None"
    by linarith
  then show ?case
  proof cases
    case 1
    with ef_read_end [OF inv sl f n] ic(2) inv show ?thesis by simp
  next
    case 2
    from ef_read_fires [OF inv sl f n 2(1) Suc.prems(6) 2(2)] Suc.prems(7) obtain s1 where
      s1: "ef_read fd False n s = Done (-1, [], set_err EAGAIN s1)" "keeps s s1" "sg_disk_io s1 = [T_read a (f_index f)]" by auto
    let ?s1 = "set_err EAGAIN s1"
    have inv1: "ef_inv ?s1" using keeps_inv [OF s1(2)] by simp
    from ef_file_read_keeps [OF inv1, of a "f_index f" "[]"] s1(3) obtain s2 f2 where
      s2: "ef_file_read a (f_index f) (?s1\<lparr>sg_disk_io := []\<rparr>) = Done s2" "keeps ?s1 s2" "sg_disk_io s2 = []"
        "ef_heap s2 a = Some f2" "action_complete f2" "f_buffer f2 \<noteq> None" by auto
    have k: "keeps s s2" using keeps_trans [OF s1(2)] s2(2) by (simp add: keeps_set_err)
    then have "carried s s2 a f" using f by (simp add: keeps_def)
    then have f2: "f_status f2 = FILE_OPEN" "f_oflag f2 = f_oflag f" "f_fd f2 = f_fd f" "f_ef_fd f2 = f_ef_fd f"
      "content s2 a = content s a" using s2(4) by (auto simp: carried_def)
    have inv2: "ef_inv s2" by (rule keeps_inv [OF k])
    have id2: "idle_now f2" using s2(5) by (simp add: idle_now_def)
    have ic2: "kdata (kern s2) (f_fd f) = kdata (kern s) (f_fd f)" "f_offset f2 = f_offset f" "f_curr_size f2 = f_curr_size f"
      using idle_content [OF inv2 s2(4) f2(1) id2] f2 f(3) ic by simp_all
    have P2: "sg_page_size s2 = sg_page_size s" using k by (simp add: keeps_def)
    have sl2: "slot s2 fd = Done (Some a)" using heap_slot [OF inv2 s2(4)] f2(4) g f(1) by simp
    have d: "disk_thread ?s1 = Done s2" using s1(3) s2(1) by (simp add: disk_thread_def)
    have "\<exists>s'. read_all k fd n s2 = Done (drop (f_offset f2) (kdata (kern s2) (f_fd f2)), s') \<and> ef_inv s'"
      by (rule Suc.IH [OF inv2 sl2 s2(4) f2(1) _ id2 s2(3) n(1)]) (use f2 f(3) n P2 s2(6) ic2 Suc.prems(10) 2 in auto)
    with s1(1) d ic2 f2(3) show ?thesis by simp
  next
    case 3
    let ?m = "read_len (sg_page_size s) f n"
    from ef_read_bytes [OF inv sl f n 3(1) Suc.prems(6) 3(2)] obtain s1 where
      s1: "ef_read fd False n s = Done (int ?m, take ?m (drop (f_offset f) (kdata (kern s) (f_fd f))), s1)" "reads s a ?m s1"
        "0 < ?m" "sg_disk_io s1 = []" using Suc.prems(7) by auto
    from s1(2) f(1,2) obtain f1 where f1: "ef_heap s1 a = Some f1" "f_status f1 = FILE_OPEN" "f_oflag f1 = f_oflag f" "f_fd f1 = f_fd f"
      "f_action f1 = None" "f_ef_fd f1 = f_ef_fd f" and c1: "content s1 a = (fst (content s a), snd (content s a) + ?m)"
      and inv1: "ef_inv s1" "sg_page_size s1 = sg_page_size s" by (auto simp: reads_def)
    have id1: "idle_now f1" using f1(5) by (simp add: idle_now_def)
    have ic1: "kdata (kern s1) (f_fd f) = kdata (kern s) (f_fd f)" "f_offset f1 = f_offset f + ?m" "f_curr_size f1 = f_curr_size f"
      using idle_content [OF inv1(1) f1(1,2) id1] f1 f(3) ic c1 by simp_all
    have sl1: "slot s1 fd = Done (Some a)" using heap_slot [OF inv1(1) f1(1)] f1(6) g f(1) by simp
    have "\<exists>s'. read_all k fd n s1 = Done (drop (f_offset f1) (kdata (kern s1) (f_fd f1)), s') \<and> ef_inv s'"
      by (rule Suc.IH [OF inv1(1) sl1 f1(1,2) _ id1 s1(4) n(1)]) (use f1 f(3) n inv1 ic1 Suc.prems(10) 3 s1(3) in auto)
    moreover have "take ?m (drop (f_offset f) d) @ drop (f_offset f + ?m) d = drop (f_offset f) d" for d :: "byte list"
      by (metis append_take_drop_id drop_drop add.commute)
    ultimately show ?thesis using s1(1,3) ic1 f1(4) by auto
  qed
qed simp

subsection \<open>A client that writes\<close>

text \<open>
  A run in which the client only writes to \<open>fd\<close>, and the disk threads and the writer thread take turns
  at any time; what the writes mean for the contents of the file.
\<close>

fun client_op :: "int \<Rightarrow> ef_op \<Rightarrow> bool" where
  "client_op fd (Op_write fd' (Some d) n) = (fd' = fd \<and> 0 < n \<and> n \<le> length d \<and> n < 2147483648)"
| "client_op fd (Op_bg b) = (b \<noteq> Bg_sync)"
| "client_op fd _ = False"

fun spec_op :: "bool \<Rightarrow> ef_op \<Rightarrow> byte list \<times> nat \<Rightarrow> byte list \<times> nat" where
  "spec_op app (Op_write fd (Some d) n) c = spec_write app (take n d) c"
| "spec_op app _ c = c"

definition busy_writing :: "ef_state \<Rightarrow> int \<Rightarrow> nat \<Rightarrow> ef_file \<Rightarrow> ef_state \<Rightarrow> bool" where
  "busy_writing s fd a f s' \<longleftrightarrow>
     ef_inv s' \<and> no_opens s' \<and> slot s' fd = Done (Some a) \<and>
     (\<exists>f'. ef_heap s' a = Some f' \<and> f_status f' = FILE_OPEN \<and> has_action oper_write f' \<and> f_oflag f' = f_oflag f \<and> f_fd f' = f_fd f) \<and>
     kino (kern s') (f_fd f) = kino (kern s) (f_fd f)"

lemma write_starts:
  assumes inv: "ef_inv s" and no: "no_opens s" and sl: "slot s fd = Done (Some a)" and f: "ef_heap s a = Some f" "writable_now f"
    and op: "client_op fd (Op_write fd' d n)"
  shows "\<exists>r s'. ef_exec (Op_write fd' d n) s = Done (r, [], s') \<and> busy_writing s fd a f s' \<and>
    content s' a = spec_op (f_append f) (Op_write fd' d n) (content s a)"
proof -
  from op obtain e where e: "fd' = fd" "d = Some e" "0 < n" "n \<le> length e" "n < 2147483648" by (cases d) auto
  from ef_write_ok [OF inv sl f e(3-5)] obtain s' where
    s': "ef_write fd (Some e) n s = Done (int n, s')" "writes s a (take n e) s'" by blast
  have op': "f_status f = FILE_OPEN" using f(2) by (simp add: writable_now_def)
  from s'(2) f(1) op' obtain g where g: "ef_heap s' a = Some g" "f_status g = FILE_OPEN" "f_oflag g = f_oflag f" "f_fd g = f_fd f"
      "f_ef_fd g = f_ef_fd f" "has_action oper_write g" "kino (kern s') (f_fd f) = kino (kern s) (f_fd f)"
      "content s' a = spec_write (f_append f) (take n e) (content s a)"
    and i: "ef_inv s'" "sg_disk_io s' = sg_disk_io s" by (auto simp: writes_def)
  obtain h where "ef_heap s a = Some h" "f_ef_fd h = nat fd" "0 \<le> fd" by (rule slot_file [OF inv sl])
  then have "slot s' fd = Done (Some a)" using heap_slot [OF i(1) g(1)] g(5) f(1) by simp
  with g i no e(1,2) s'(1) show ?thesis by (simp add: busy_writing_def no_opens_def)
qed

lemma bg_keeps_writing:
  assumes inv: "ef_inv s" and no: "no_opens s" and sl: "slot s fd = Done (Some a)"
    and f: "ef_heap s a = Some f" "f_status f = FILE_OPEN" "has_action oper_write f" and b: "b \<noteq> Bg_sync"
  shows "\<exists>s'. ef_exec (Op_bg b) s = Done (0, [], s') \<and> busy_writing s fd a f s' \<and> content s' a = content s a"
proof -
  from bg_step_keeps [OF inv no_opens_next [OF no], of b] b no obtain s' where
    s': "bg_step b s = Done s'" "keeps_live s s'" "no_opens s'" by auto
  have "live s a f" using f by (auto simp: live_def has_action_def split: option.splits)
  with s'(2) have i: "ef_inv s'" and c: "carried s s' a f" by (simp_all add: keeps_live_def)
  from c f(3) obtain g where g: "ef_heap s' a = Some g" "f_status g = FILE_OPEN" "f_oflag g = f_oflag f" "f_fd g = f_fd f"
      "f_ef_fd g = f_ef_fd f" "has_action oper_write g" "kino (kern s') (f_fd f) = kino (kern s) (f_fd f)" "content s' a = content s a"
    by (auto simp: carried_def)
  obtain h where "ef_heap s a = Some h" "f_ef_fd h = nat fd" "0 \<le> fd" by (rule slot_file [OF inv sl])
  then have "slot s' fd = Done (Some a)" using heap_slot [OF i g(1)] g(5) f(1) by simp
  with g i s'(1,3) show ?thesis by (simp add: busy_writing_def)
qed

lemma client_op_cases:
  assumes "client_op fd op"
  obtains fd' d n where "op = Op_write fd' d n" | b where "op = Op_bg b" "b \<noteq> Bg_sync"
  using assms by (cases op) auto

lemma client_run:
  assumes "busy_writing s0 fd a f s" "list_all (client_op fd) ops"
  shows "\<exists>s'. run_ops ops s = Done s' \<and> busy_writing s0 fd a f s' \<and>
    content s' a = fold (spec_op (f_append f)) ops (content s a)"
  using assms
proof (induction ops arbitrary: s)
  case (Cons op ops)
  from Cons.prems obtain g where
    g: "ef_inv s" "no_opens s" "slot s fd = Done (Some a)" "ef_heap s a = Some g" "f_status g = FILE_OPEN" "has_action oper_write g"
      "f_oflag g = f_oflag f" "f_fd g = f_fd f" "kino (kern s) (f_fd f) = kino (kern s0) (f_fd f)"
    by (auto simp: busy_writing_def)
  from inv_file [OF g(1,4)] g(5,6) have "writable_now g"
    by (auto simp: writable_now_def file_ok_def open_action_ok_def has_action_def split: option.splits)
  note w = write_starts [OF g(1-4) this] and b = bg_keeps_writing [OF g(1-6)]
  have c: "client_op fd op" using Cons.prems(2) by simp
  have "\<exists>r s1. ef_exec op s = Done (r, [], s1) \<and> busy_writing s fd a g s1 \<and> content s1 a = spec_op (f_append g) op (content s a)"
  proof (rule client_op_cases [OF c])
    fix fd' d n assume op: "op = Op_write fd' d n"
    show ?thesis using w c unfolding op by blast
  next
    fix b' assume op: "op = Op_bg b'" "b' \<noteq> Bg_sync"
    from b [OF op(2)] show ?thesis unfolding op(1) by (metis spec_op.simps)
  qed
  then obtain r s1 where s1: "ef_exec op s = Done (r, [], s1)" "busy_writing s fd a g s1" "content s1 a = spec_op (f_append f) op (content s a)"
    using g(7) by auto
  have "busy_writing s0 fd a f s1" using s1(2) g(7-9) by (simp add: busy_writing_def)
  from Cons.IH [OF this] Cons.prems(2) s1(1,3) show ?case by (simp del: ef_exec.simps)
qed simp

subsection \<open>The background threads on their own\<close>

fun run_bg :: "bg list \<Rightarrow> ef_state \<Rightarrow> ef_state outcome" where
  "run_bg [] s = Done s"
| "run_bg (b # bs) s = obind (bg_step b s) (run_bg bs)"

lemma run_bg_quiet:
  "sg_disk_io s = [] \<Longrightarrow> sg_file_writer_queue s = [] \<Longrightarrow> run_bg (alternate n) s = Done s"
  by (induction n) (simp_all add: bg_step_def disk_thread_def file_writer_def)

lemma run_bg_settles:
  assumes "ef_inv s" "no_opens s" "load s \<le> n"
  shows "\<exists>s'. run_bg (alternate n) s = Done s' \<and> keeps_live s s' \<and> sg_disk_io s' = [] \<and> sg_file_writer_queue s' = []"
  using assms
proof (induction n arbitrary: s)
  case 0
  then show ?case by (intro exI [of _ s]) (simp add: load_def keeps_keeps_live)
next
  case (Suc n)
  from file_writer_keeps [OF Suc.prems(1)] obtain s1 where
    s1: "file_writer s = Done s1" "keeps s s1" "s1 = s \<and> sg_file_writer_queue s = [] \<or> progress s s1" by blast
  have no1: "no_opens s1" using s1(3) Suc.prems(2) by (auto simp: progress_def)
  from disk_thread_keeps [OF keeps_inv [OF s1(2)] no_opens_next [OF no1]] no1 obtain s2 where
    s2: "disk_thread s1 = Done s2" "keeps_live s1 s2" "s2 = s1 \<and> sg_disk_io s1 = [] \<or> progress s1 s2" by blast
  have no2: "no_opens s2" using s2(3) no1 by (auto simp: progress_def)
  have i2: "ef_inv s2" and k2: "keeps_live s s2"
    using s2(2) keeps_live_trans [OF keeps_keeps_live [OF s1(2)] s2(2)] by (simp_all add: keeps_live_def)
  have run: "run_bg (alternate (Suc n)) s = run_bg (alternate n) s2" using s1(1) s2(1) by (simp add: bg_step_def)
  show ?case
  proof (cases "load s2 \<le> n")
    case True
    from Suc.IH [OF i2 no2 True] run keeps_live_trans [OF k2] show ?thesis by auto
  next
    case False
    then have "s2 = s" "sg_disk_io s = []" "sg_file_writer_queue s = []"
      using s1(3) s2(3) Suc.prems(3) by (auto simp: progress_def)
    with run run_bg_quiet [of s n] k2 show ?thesis by (intro exI [of _ s]) simp
  qed
qed

text \<open>When the threads have nothing left to do, a file whose last request was a flush is on the disk.\<close>

lemma quiet_synced:
  assumes inv: "ef_inv s" and f: "ef_heap s a = Some f" "f_status f = FILE_OPEN" "has_action oper_write f" and y: "synced s a"
    and q: "sg_disk_io s = []" "sg_file_writer_queue s = []"
  shows "kdata (kern s) (f_fd f) = fst (content s a)"
proof -
  obtain act w where w: "writing f act w" "pipe_ok (sg_page_size s) a w (d_of s a) (e_of s a)" by (rule writing_file [OF inv f])
  then have "write_totreq_count w = write_cmpl_count w" using pending_work q by blast
  then have "settled s a f act w" using inv f w(1) y by (simp add: settled_def)
  then show ?thesis by (simp add: settled_facts(5))
qed

lemma sync_makes_synced:
  assumes inv: "ef_inv s" and fd: "fd < EF_MAX_FILES" "sg_open_files s ! fd = Some a"
    and f: "ef_heap s a = Some f" "f_status f = FILE_OPEN" "has_action oper_write f"
  shows "\<exists>s'. sync_file_writes fd s = Done s' \<and> keeps s s' \<and> sg_disk_io s' = sg_disk_io s \<and> synced s' a"
proof -
  have nw: "\<not> sync_waits f" using f(3) by (simp add: sync_waits_def)
  from sync_file_writes_eq [OF inv fd f(1) nw] f(2,3) obtain act w act' w' m ts where
    r: "sync_file_writes fd s = Done (act_upd a f act' m s)" "writing (f\<lparr>f_action := Some act'\<rparr>) act' w'" "accum_data w' = None"
      "w_queue w' = ts @ [\<lparr>w_cmd = file_fsync_evt, w_buf = None, w_nbyte = 0\<rparr>]" by blast
  from sync_file_writes_keeps [OF inv fd f(1) nw] r(1) have k: "keeps s (act_upd a f act' m s)" "sg_disk_io (act_upd a f act' m s) = sg_disk_io s"
    by auto
  have "synced (act_upd a f act' m s) a"
    using r(2-4) by (auto simp: synced_def flushed_def flushes_def writing_def act_upd_def pend_tasks_def ends_flushed_def)
  with r(1) k show ?thesis by blast
qed

end
