(* ===== verification/EfCorrect.thy ===== *)
theory EfCorrect
  imports EfProps
begin

text \<open>
  What a program that uses \<open>src/evio/ef_file.c\<close> can rely on, in every state it reaches from \<open>ef_init\<close> by
  calls and by turns of the disk threads, of the writer thread and of the periodic flush, in any order.
\<close>

subsection \<open>Two concrete runs\<close>

text \<open>A log that is created and open for appending, and a file of three bytes that is open for reading.\<close>

abbreviation demo_w :: ef_state where "demo_w \<equiv> demo_after None (demo_open 0x441)"
abbreviation demo_r :: ef_state where "demo_r \<equiv> demo_after (Some [1, 2, 3]) (demo_open 0)"

lemma demo_w_args: "open_args_ok (Some ''log'') 0x441" "open_flags 0x441 = 0x441" "mode_ok 0x441 []"
  "opened_data (demo_kernel None) ''log'' 0x441 = []"
  by (simp_all add: open_args_ok_def any_flag_def open_flags_def mode_ok_def opened_data_def demo_kernel_def)

lemma demo_w_facts: "ef_reach 4096 demo_w" "no_opens demo_w" "slot demo_w 0 = Done (Some 0)" "content demo_w 0 = ([], 0)"
  "\<exists>f. ef_heap demo_w 0 = Some f \<and> f_status f = FILE_OPEN \<and> writable_now f \<and> f_append f \<and> f_action f = None"
proof -
  note d = demo_opened [where fl = "0x441" and d = None, unfolded demo_w_args, OF demo_w_args(1) demo_w_args(3)]
  show "ef_reach 4096 demo_w" "no_opens demo_w" "slot demo_w 0 = Done (Some 0)" "content demo_w 0 = ([], 0)"
    using d by simp_all
  show "\<exists>f. ef_heap demo_w 0 = Some f \<and> f_status f = FILE_OPEN \<and> writable_now f \<and> f_append f \<and> f_action f = None"
    using d(7) by (auto simp: writable_now_def can_write_def)
qed

lemma demo_r_args: "open_args_ok (Some ''log'') 0" "open_flags 0 = 0x4000" "mode_ok 0x4000 [1, 2, 3]"
  "opened_data (demo_kernel (Some [1, 2, 3])) ''log'' 0 = [1, 2, 3]"
  by (simp_all add: open_args_ok_def any_flag_def open_flags_def mode_ok_def opened_data_def demo_kernel_def)

lemma demo_r_facts: "ef_reach 4096 demo_r" "no_opens demo_r" "slot demo_r 0 = Done (Some 0)" "content demo_r 0 = ([1, 2, 3], 0)"
  "sg_disk_io demo_r = []" "sg_page_size demo_r = 1048576"
  "\<exists>f. ef_heap demo_r 0 = Some f \<and> f_status f = FILE_OPEN \<and> f_action f = None \<and> read_access (f_oflag f)"
proof -
  note d = demo_opened [where fl = "0" and d = "Some [1, 2, 3]", unfolded demo_r_args, OF demo_r_args(1) demo_r_args(3)]
  show "ef_reach 4096 demo_r" "no_opens demo_r" "slot demo_r 0 = Done (Some 0)" "content demo_r 0 = ([1, 2, 3], 0)"
    "sg_disk_io demo_r = []" "sg_page_size demo_r = 1048576"
    using d by simp_all
  show "\<exists>f. ef_heap demo_r 0 = Some f \<and> f_status f = FILE_OPEN \<and> f_action f = None \<and> read_access (f_oflag f)"
    using d(7) by (auto simp: read_access_def any_flag_def)
qed




lemma written_reach:
  assumes r: "ef_reach pagesize s" and no: "no_opens s" and sl: "slot s fd = Done (Some a)" and h: "handle fd"
    and f: "ef_heap s a = Some f" "writable_now f" and n: "0 < n" "n \<le> length d" "n < 2147483648"
  shows "\<exists>s' f'. ef_write fd (Some d) n s = Done (int n, s') \<and> ef_reach pagesize s' \<and> no_opens s' \<and> slot s' fd = Done (Some a) \<and>
     ef_heap s' a = Some f' \<and> f_status f' = FILE_OPEN \<and> has_action oper_write f' \<and>
     content s' a = spec_write (f_append f) (take n d) (content s a)"
proof -
  from write_starts [OF ef_reach_inv [OF r] no sl f, of fd "Some d" n] n
  obtain x s' where s: "ef_exec (Op_write fd (Some d) n) s = Done (x, [], s')" "busy_writing s fd a f s'"
      "content s' a = spec_write (f_append f) (take n d) (content s a)" by (auto simp del: ef_exec.simps)
  have "ef_reach pagesize s'" by (rule ef_reach_step [OF r _ s(1)]) (use h n in simp)
  moreover have "x = int n" using ef_write_ok [OF ef_reach_inv [OF r] sl f n] s(1) by auto
  ultimately show ?thesis using s by (auto simp: busy_writing_def)
qed

lemma demo_written:
  "\<exists>s f. ef_write 0 (Some [65, 66, 67]) 3 demo_w = Done (3, s) \<and> ef_reach 4096 s \<and> no_opens s \<and> slot s 0 = Done (Some 0) \<and>
     ef_heap s 0 = Some f \<and> f_status f = FILE_OPEN \<and> has_action oper_write f \<and> content s 0 = ([65, 66, 67], 3)"
proof -
  from demo_w_facts(5) obtain f where f: "ef_heap demo_w 0 = Some f" "writable_now f" "f_append f" by blast
  from written_reach [OF demo_w_facts(1,2,3) _ f(1,2), of 3 "[65, 66, 67]"] show ?thesis
    using f(3) by (auto simp: handle_def demo_w_facts(4) spec_write_def splice_at_def)
qed

subsection \<open>Safety\<close>

text \<open>
  C3. In every reachable state the invariant of the file layer holds: the table of handles and the queue
  of free slots agree, every queued task names a file that exists, and every file is in one of the states
  that its action, its pages, its counters and the two queues allow.
\<close>

theorem file_layer_invariant:
  assumes "ef_reach pagesize s"
  shows "ef_inv s"
  using assms by (rule ef_reach_inv)

theorem file_layer_invariant_witness: "ef_inv demo_w"
  by (rule file_layer_invariant [OF demo_w_facts(1)])



text \<open>
  C12. No slot is lost or given twice: the free slots are exactly the empty entries of the table, each once,
  and free slots and open files add up to \<open>EF_MAX_FILES\<close>.
\<close>

theorem slots_conserved:
  assumes "ef_reach pagesize s"
  shows "distinct (sg_fd_queue s) \<and> set (sg_fd_queue s) = {i. i < EF_MAX_FILES \<and> sg_open_files s ! i = None} \<and>
    length (sg_fd_queue s) + card (dom (ef_heap s)) = EF_MAX_FILES"
proof -
  let ?used = "{i. i < EF_MAX_FILES \<and> sg_open_files s ! i \<noteq> None}"
  have so: "slots_ok s" using ef_reach_inv [OF assms] by (simp add: ef_inv_def)
  have free: "distinct (sg_fd_queue s)" "set (sg_fd_queue s) = {i. i < EF_MAX_FILES \<and> sg_open_files s ! i = None}"
    using so by (simp_all add: slots_ok_def)
  have u: "\<exists>f. ef_heap s a = Some f \<and> f_ef_fd f = i" if "i < EF_MAX_FILES" "sg_open_files s ! i = Some a" for i a
    using so that unfolding slots_ok_def by metis
  have h: "f_ef_fd (the (ef_heap s a)) < EF_MAX_FILES" "sg_open_files s ! f_ef_fd (the (ef_heap s a)) = Some a"
    if a: "a \<in> dom (ef_heap s)" for a
  proof -
    from a obtain f where "ef_heap s a = Some f" by auto
    then show "f_ef_fd (the (ef_heap s a)) < EF_MAX_FILES" "sg_open_files s ! f_ef_fd (the (ef_heap s a)) = Some a"
      using so by (simp_all add: slots_ok_def)
  qed
  have "bij_betw (\<lambda>i. the (sg_open_files s ! i)) ?used (dom (ef_heap s))"
  proof (rule bij_betw_byWitness [where f' = "\<lambda>a. f_ef_fd (the (ef_heap s a))"])
    show "\<forall>i\<in>?used. f_ef_fd (the (ef_heap s (the (sg_open_files s ! i)))) = i"
      "(\<lambda>i. the (sg_open_files s ! i)) ` ?used \<subseteq> dom (ef_heap s)"
      by (auto dest!: u)
    show "\<forall>a\<in>dom (ef_heap s). the (sg_open_files s ! f_ef_fd (the (ef_heap s a))) = a"
      using h(2) by (metis option.sel)
    show "(\<lambda>a. f_ef_fd (the (ef_heap s a))) ` dom (ef_heap s) \<subseteq> ?used"
      by (rule image_subsetI) (use h in blast)
  qed
  then have "card (dom (ef_heap s)) = card ?used" by (rule bij_betw_same_card [symmetric])
  moreover have "card {i. i < EF_MAX_FILES \<and> sg_open_files s ! i = None} + card ?used =
      card ({i. i < EF_MAX_FILES \<and> sg_open_files s ! i = None} \<union> ?used)"
    by (rule card_Un_disjoint [symmetric]) auto
  moreover have "{i. i < EF_MAX_FILES \<and> sg_open_files s ! i = None} \<union> ?used = {..<EF_MAX_FILES}" by auto
  ultimately show ?thesis using free distinct_card [OF free(1)] by simp
qed

theorem slots_conserved_witness: "length (sg_fd_queue demo_w) + card (dom (ef_heap demo_w)) = 128"
  using slots_conserved [OF demo_w_facts(1)] by simp

text \<open>
  The disk threads hold at most one task for a file, so that two of them never write to one file at
  once; and the three counters of a write account for the tasks that are with them and that wait.
\<close>

theorem one_disk_task_per_file:
  assumes r: "ef_reach pagesize s" and f: "ef_heap s a = Some f"
  shows "length (d_of s a) \<le> 1 \<and>
    (\<forall>act w. f_status f = FILE_OPEN \<and> writing f act w \<longrightarrow>
       write_totreq_count w = write_cmpl_count w + length (b_w_list w) + length (w_queue w) \<and>
       (T_write a \<in> set (sg_disk_io s) \<longrightarrow> b_w_list w \<noteq> []))"
proof -
  note fo = inv_file [OF ef_reach_inv [OF r] f]
  have p: "pipe_ok (sg_page_size s) a w (d_of s a) (e_of s a)" if "f_status f = FILE_OPEN" "writing f act w" for act w
    using fo that by (auto simp: file_ok_def open_action_ok_def writing_def)
  have d1: "length (d_of s a) \<le> 1"
  proof (cases "f_status f = FILE_OPEN \<and> has_action oper_write f")
    case True
    then obtain act w where "writing f act w" by (metis writing_file [OF ef_reach_inv [OF r] f])
    with p [of act w] True show ?thesis by (auto simp: pipe_ok_def pipe_queues_def split: if_splits)
  next
    case False
    with fo show ?thesis
      by (auto simp: file_ok_def open_action_ok_def has_action_def split: file_status.splits option.splits file_oper_type.splits)
  qed
  have "write_totreq_count w = write_cmpl_count w + length (b_w_list w) + length (w_queue w) \<and>
      (T_write a \<in> set (sg_disk_io s) \<longrightarrow> b_w_list w \<noteq> [])" if w: "f_status f = FILE_OPEN" "writing f act w" for act w
  proof -
    have "T_write a \<in> set (sg_disk_io s) \<longleftrightarrow> T_write a \<in> set (d_of s a)" by (simp add: d_of_def)
    with p [OF w] show ?thesis by (auto simp: pipe_ok_def pipe_queues_def split: if_splits)
  qed
  with d1 show ?thesis by blast
qed

theorem one_disk_task_per_file_witness: "length (d_of demo_w 0) \<le> 1"
  using demo_w_facts(5) one_disk_task_per_file [OF demo_w_facts(1)] by blast

subsection \<open>Contents\<close>

text \<open>
  C5. \<open>ef_write\<close> of \<open>n\<close> bytes on a file that can be written returns \<open>n\<close>; the file then holds those bytes at its
  position, or at its end when it is open for appending, and no other open file changes.
\<close>

theorem ef_write_contents:
  assumes r: "ef_reach pagesize s" and sl: "slot s fd = Done (Some a)" and f: "ef_heap s a = Some f" "writable_now f"
    and n: "0 < n" "n \<le> length buf" "n < 2147483648"
  shows "\<exists>s'. ef_write fd (Some buf) n s = Done (int n, s') \<and>
    content s' a = spec_write (f_append f) (take n buf) (content s a) \<and>
    (\<forall>b g. b \<noteq> a \<and> ef_heap s b = Some g \<and> f_status g = FILE_OPEN \<longrightarrow> content s' b = content s b)"
proof -
  from ef_write_ok [OF ef_reach_inv [OF r] sl f n] obtain s' where
    s': "ef_write fd (Some buf) n s = Done (int n, s')" "writes s a (take n buf) s'" by blast
  have "f_status f = FILE_OPEN" using f(2) by (simp add: writable_now_def)
  with s' f(1) show ?thesis by (auto simp: writes_def)
qed

theorem ef_write_contents_witness:
  "\<exists>s'. ef_write 0 (Some [65, 66, 67]) 2 demo_w = Done (2, s') \<and> content s' 0 = ([65, 66], 2)"
proof -
  from demo_w_facts(5) obtain f where f: "ef_heap demo_w 0 = Some f" "writable_now f" "f_append f" by blast
  from ef_write_contents [OF demo_w_facts(1,3) f(1,2), of 2 "[65, 66, 67]"] show ?thesis
    using f(3) by (auto simp: demo_w_facts(4) spec_write_def splice_at_def)
qed

text \<open>
  C4. A turn of a disk thread, of the writer thread or of the periodic flush changes the contents of no open
  file, however the bytes move between the caller's page, the batches, the page of the file and the disk.
\<close>

theorem background_keeps_contents:
  assumes r: "ef_reach pagesize s" and nx: "next_open_ok s" and b: "bg_step b s = Done s'"
    and f: "ef_heap s a = Some f" "f_status f = FILE_OPEN" "\<not> has_action oper_close f"
  shows "content s' a = content s a \<and>
    (\<exists>f'. ef_heap s' a = Some f' \<and> f_status f' = FILE_OPEN \<and> f_fd f' = f_fd f \<and> f_oflag f' = f_oflag f)"
proof -
  have "keeps_live s s'" using bg_step_keeps [OF ef_reach_inv [OF r] nx, of b] b by auto
  with f have "carried s s' a f" by (simp add: keeps_live_def live_def)
  then show ?thesis by (auto simp: carried_def)
qed

theorem background_keeps_contents_witness:
  "\<exists>s'. bg_step Bg_writer demo_w = Done s' \<and> content s' 0 = ([], 0)"
proof -
  have nx: "next_open_ok demo_w" by (rule no_opens_next [OF demo_w_facts(2)])
  from bg_step_keeps [OF ef_reach_inv [OF demo_w_facts(1)] nx, of Bg_writer] obtain s' where
    s': "bg_step Bg_writer demo_w = Done s'" by auto
  from demo_w_facts(5) obtain f where f: "ef_heap demo_w 0 = Some f" "f_status f = FILE_OPEN" "\<not> has_action oper_close f"
    by (auto simp: has_action_def)
  from background_keeps_contents [OF demo_w_facts(1) nx s' f] s' demo_w_facts(4) show ?thesis by simp
qed

text \<open>
  C6. A batch of page writes and flushes that \<open>ef_file_write\<close> hands to \<open>ef_one_single_write\<close> and \<open>ef_file_fsync\<close>,
  with partial pages, page boundaries, \<open>O_DIRECT\<close> on and off and the file truncated to its size, has the effect of
  the writes one after the other on an ideal file; when it ends with a flush, the disk holds all of it.
\<close>

theorem write_batch_refines:
  assumes w: "winv P f k" "list_all task_ok ws"
  shows "\<exists>n' f' k'. write_tasks P junk ws n f k = Done (n', f', k') \<and> winv P f' k' \<and>
    f_abs P f' k' = fold (spec_task (f_append f)) ws (f_abs P f k) \<and>
    (ends_flushed ws \<longrightarrow> kdata k' (f_fd f) = fst (fold (spec_task (f_append f)) ws (f_abs P f k)))"
proof -
  from write_tasks_ok [OF w, of junk n] obtain n' f' k' where
    r: "write_tasks P junk ws n f k = Done (n', f', k')" "winv P f' k'" "w_same f f'"
      "f_abs P f' k' = fold (spec_task (f_append f)) ws (f_abs P f k)" "ends_flushed ws \<longrightarrow> \<not> f_dirty f'" by blast
  have "fst (f_abs P f' k') = kdata k' (f_fd f)" if "\<not> f_dirty f'"
    using that r(3) by (simp add: f_abs_def f_view_def w_same_def)
  with r show ?thesis by auto
qed

theorem write_batch_refines_witness:
  "let f = the (ef_heap demo_w 0); k = kern demo_w;
     ws = [\<lparr>w_cmd = file_write_evt, w_buf = Some [65, 66], w_nbyte = 2\<rparr>, \<lparr>w_cmd = file_fsync_evt, w_buf = None, w_nbyte = 0\<rparr>]
   in \<exists>n' f' k'. write_tasks 1048576 (\<lambda>_. 0) ws 0 f k = Done (n', f', k') \<and>
        kdata k' (f_fd f) = fst (fold (spec_task (f_append f)) ws (f_abs 1048576 f k))"
proof -
  from demo_w_facts(5) obtain f where f: "ef_heap demo_w 0 = Some f" "f_status f = FILE_OPEN" "writable_now f" by blast
  have "sg_page_size demo_w = 1048576"
    using demo_opened(6) [where fl = "0x441" and d = None, unfolded demo_w_args, OF demo_w_args(1) demo_w_args(3)] by simp
  then have "winv 1048576 f (kern demo_w)"
    using inv_file [OF ef_reach_inv [OF demo_w_facts(1)] f(1)] f(2,3) by (simp add: file_ok_def io_ok_def writable_now_def)
  from write_batch_refines [OF this, of "[\<lparr>w_cmd = file_write_evt, w_buf = Some [65, 66], w_nbyte = 2\<rparr>,
      \<lparr>w_cmd = file_fsync_evt, w_buf = None, w_nbyte = 0\<rparr>]" "\<lambda>_. 0" 0]
  show ?thesis using f(1) by (auto simp: Let_def task_ok_def task_data_def ends_flushed_def)
qed

text \<open>
  C10. Once the writes of an open file are flushed by \<open>sync_file_writes\<close>, the turns that the threads have work
  for bring the disk to exactly the contents of the file.
\<close>

theorem sync_reaches_disk:
  assumes r: "ef_reach pagesize s" and no: "no_opens s" and sl: "slot s (int fd) = Done (Some a)"
    and f: "ef_heap s a = Some f" "f_status f = FILE_OPEN" "has_action oper_write f"
  shows "\<exists>s1. sync_file_writes fd s = Done s1 \<and>
    (\<forall>n\<ge>load s1. \<exists>s2. run_bg (alternate n) s1 = Done s2 \<and> kdata (kern s2) (f_fd f) = fst (content s a))"
proof -
  note inv = ef_reach_inv [OF r]
  have fd: "fd < EF_MAX_FILES" "sg_open_files s ! fd = Some a"
    using sl inv by (auto simp: slot_def ef_inv_def slots_ok_def split: if_splits)
  from sync_makes_synced [OF inv fd f] obtain s1 where
    s1: "sync_file_writes fd s = Done s1" "keeps s s1" "sg_disk_io s1 = sg_disk_io s" "synced s1 a" by blast
  from s1(2) f obtain f1 where f1: "ef_heap s1 a = Some f1" "f_status f1 = FILE_OPEN" "has_action oper_write f1" "f_fd f1 = f_fd f"
      "content s1 a = content s a" by (fastforce simp: keeps_def carried_def)
  have "\<exists>s2. run_bg (alternate n) s1 = Done s2 \<and> kdata (kern s2) (f_fd f) = fst (content s a)" if n: "load s1 \<le> n" for n
  proof -
    from run_bg_settles [OF keeps_inv [OF s1(2)] _ n] no s1(3) obtain s2 where
      s2: "run_bg (alternate n) s1 = Done s2" "keeps_live s1 s2" "sg_disk_io s2 = []" "sg_file_writer_queue s2 = []"
      by (auto simp: no_opens_def)
    have "live s1 a f1" using f1(1-3) by (auto simp: live_def has_action_def split: option.splits)
    with s2(2) have c: "carried s1 s2 a f1" and i2: "ef_inv s2" by (simp_all add: keeps_live_def)
    from c f1(3) obtain f2 where f2: "ef_heap s2 a = Some f2" "f_status f2 = FILE_OPEN" "has_action oper_write f2" "f_fd f2 = f_fd f1"
        "content s2 a = content s1 a" "synced s2 a" using s1(4) by (auto simp: carried_def)
    from quiet_synced [OF i2 f2(1-3,6) s2(3,4)] f2 f1 s2(1) show ?thesis by simp
  qed
  with s1(1) show ?thesis by blast
qed

theorem sync_reaches_disk_witness:
  "\<exists>s s1 s2 n f. ef_write 0 (Some [65, 66, 67]) 3 demo_w = Done (3, s) \<and> sync_file_writes 0 s = Done s1 \<and>
     run_bg (alternate n) s1 = Done s2 \<and> ef_heap s 0 = Some f \<and> kdata (kern s2) (f_fd f) = [65, 66, 67]"
proof -
  from demo_written obtain s f where s: "ef_write 0 (Some [65, 66, 67]) 3 demo_w = Done (3, s)" "ef_reach 4096 s" "no_opens s"
      "slot s (int 0) = Done (Some 0)" "ef_heap s 0 = Some f" "f_status f = FILE_OPEN" "has_action oper_write f"
      "content s 0 = ([65, 66, 67], 3)" by auto
  from sync_reaches_disk [OF s(2-7)] s(8) obtain s1 where
    s1: "sync_file_writes 0 s = Done s1" "\<exists>s2. run_bg (alternate (load s1)) s1 = Done s2 \<and> kdata (kern s2) (f_fd f) = [65, 66, 67]"
    by auto
  with s(1,5) show ?thesis by blast
qed

subsection \<open>Closing\<close>

text \<open>
  C8. \<open>ef_close\<close> on an open file that is idle or being written waits or returns 0, and when it returns the disk
  holds exactly the contents of the file, a disk thread has the task to close it, and the other files are as they were.
\<close>

theorem ef_close_flushes:
  assumes r: "ef_reach pagesize s" and no: "no_opens s" and sl: "slot s fd = Done (Some a)"
    and f: "ef_heap s a = Some f" "f_status f = FILE_OPEN" "idle_now f \<or> has_action oper_write f"
  shows "ef_close sched fd s = Spins \<or>
    (\<exists>s'. ef_close sched fd s = Done (0, s') \<and> T_close a (nat fd) \<in> set (sg_disk_io s') \<and>
       kdata (kern s') (f_fd f) = fst (content s a) \<and>
       (\<forall>b g. b \<noteq> a \<and> live s b g \<longrightarrow> content s' b = content s b))"
  using ef_close_ok(1) [OF ef_reach_inv [OF r] no sl f, of sched]
  by (auto simp: closing_def others_carried_def carried_def)

theorem ef_close_flushes_witness:
  "\<exists>s f sched s'. ef_write 0 (Some [65, 66, 67]) 3 demo_w = Done (3, s) \<and> ef_heap s 0 = Some f \<and>
     ef_close sched 0 s = Done (0, s') \<and> kdata (kern s') (f_fd f) = [65, 66, 67]"
proof -
  from demo_written obtain s f where s: "ef_write 0 (Some [65, 66, 67]) 3 demo_w = Done (3, s)" "ef_reach 4096 s" "no_opens s"
      "slot s 0 = Done (Some 0)" "ef_heap s 0 = Some f" "f_status f = FILE_OPEN" "has_action oper_write f"
      "content s 0 = ([65, 66, 67], 3)" by auto
  from ef_close_ok(2) [OF ef_reach_inv [OF s(2)] s(3-6)] s(7) obtain n where "ef_close (alternate n) 0 s \<noteq> Spins" by auto
  with ef_close_flushes [OF s(2-6), of "alternate n"] s(1,5,7,8) show ?thesis by auto
qed

text \<open>
  C9. \<open>ef_close\<close> and \<open>ef_close_immediate\<close> return: whatever is queued, a bounded number of turns of the writer and of
  a disk thread while they wait is enough.
\<close>

theorem ef_close_returns:
  assumes r: "ef_reach pagesize s" and no: "no_opens s" and sl: "slot s fd = Done (Some a)"
    and f: "ef_heap s a = Some f" "f_status f = FILE_OPEN" "idle_now f \<or> has_action oper_write f"
  shows "\<exists>N. \<forall>n\<ge>N. (\<exists>s'. ef_close (alternate n) fd s = Done (0, s')) \<and> (\<exists>s'. ef_close_immediate (alternate n) fd s = Done (0, s'))"
proof -
  note h = ef_reach_inv [OF r] no sl f
  from ef_close_ok(2) [OF h] ef_close_immediate_ok(2) [OF h] obtain N M where
    "\<forall>n\<ge>N. ef_close (alternate n) fd s \<noteq> Spins" "\<forall>n\<ge>M. ef_close_immediate (alternate n) fd s \<noteq> Spins" by blast
  with ef_close_ok(1) [OF h] ef_close_immediate_ok(1) [OF h] show ?thesis by (intro exI [of _ "max N M"]) (metis max.bounded_iff)
qed

theorem ef_close_returns_witness: "\<exists>n s'. ef_close_immediate (alternate n) 0 demo_w = Done (0, s')"
proof -
  from demo_w_facts(5) obtain f where "ef_heap demo_w 0 = Some f" "f_status f = FILE_OPEN" "idle_now f \<or> has_action oper_write f"
    by (auto simp: idle_now_def)
  from ef_close_returns [OF demo_w_facts(1,2,3) this] show ?thesis by blast
qed



subsection \<open>Reading\<close>

text \<open>
  C13. \<open>ef_read\<close> of at most a page on a file that is open for reading and idle: at the end of the file it returns
  0; with the page at hand it returns the next bytes of the file, at least one and at most \<open>n\<close>, and moves the
  position past them; otherwise it asks a disk thread for the page and returns -1 with \<open>EAGAIN\<close>.
\<close>

theorem ef_read_next_bytes:
  assumes r: "ef_reach pagesize s" and sl: "slot s fd = Done (Some a)"
    and f: "ef_heap s a = Some f" "f_status f = FILE_OPEN" "read_access (f_oflag f)" "idle_now f"
    and n: "0 < n" "n \<le> sg_page_size s" and c: "content s a = (d, off)"
  shows "if length d \<le> off then ef_read fd False n s = Done (0, [], set_err 0 s)
    else if f_buffer f = None then
      \<exists>s'. ef_read fd False n s = Done (-1, [], set_err EAGAIN s') \<and> content s' a = (d, off) \<and>
        T_read a (f_index f) \<in> set (sg_disk_io s')
    else \<exists>m s'. ef_read fd False n s = Done (int m, take m (drop off d), s') \<and> 0 < m \<and> m \<le> n \<and> off + m \<le> length d \<and>
        content s' a = (d, off + m)"
proof -
  note inv = ef_reach_inv [OF r]
  note ic = idle_content [OF inv f(1,2,4,3)]
  have d: "kdata (kern s) (f_fd f) = d" "f_offset f = off" "f_curr_size f = length d" using ic c by auto
  let ?m = "read_len (sg_page_size s) f n"
  have m: "?m \<le> n" "off + ?m \<le> length d" if "off < length d" using that d by (auto simp: read_len_def)
  consider "length d \<le> off" | "off < length d" "f_buffer f = None" | "off < length d" "f_buffer f \<noteq> None" by linarith
  then show ?thesis
  proof cases
    case 1
    with ef_read_end [OF inv sl f(1-3) n] d show ?thesis by simp
  next
    case 2
    with ef_read_fires [OF inv sl f(1-3) n _ f(4)] d obtain s' where
      s': "ef_read fd False n s = Done (-1, [], set_err EAGAIN s')" "keeps s s'" "sg_disk_io s' = sg_disk_io s @ [T_read a (f_index f)]"
      by auto
    have "content s' a = (d, off)" using s'(2) f(1,2) c by (simp add: keeps_def carried_def)
    with 2 s' show ?thesis by (auto intro: exI [of _ s'])
  next
    case 3
    with ef_read_bytes [OF inv sl f(1-3) n _ f(4)] d obtain s' where
      s': "ef_read fd False n s = Done (int ?m, take ?m (drop off d), s')" "reads s a ?m s'" "0 < ?m" by auto
    have "content s' a = (d, off + ?m)" using s'(2) f(1,2) c by (auto simp: reads_def)
    with 3 s'(1,3) m show ?thesis by auto
  qed
qed

theorem ef_read_next_bytes_witness:
  "(\<exists>s'. ef_read 0 False 2 demo_r = Done (-1, [], set_err EAGAIN s') \<and> content s' 0 = ([1, 2, 3], 0)) \<or>
   (\<exists>m s'. ef_read 0 False 2 demo_r = Done (int m, take m [1, 2, 3], s') \<and> 0 < m \<and> m \<le> 2)"
proof -
  from demo_r_facts(7) obtain f where f: "ef_heap demo_r 0 = Some f" "f_status f = FILE_OPEN" "read_access (f_oflag f)" "idle_now f"
    by (auto simp: idle_now_def)
  have "(0::nat) < 2" "2 \<le> sg_page_size demo_r" by (simp_all add: demo_r_facts(6))
  from ef_read_next_bytes [OF demo_r_facts(1,3) f this demo_r_facts(4)] show ?thesis by (auto split: if_splits)
qed

text \<open>
  C7. Read to the end: a client that repeats \<open>ef_read\<close> with a turn of a disk thread after every \<open>EAGAIN\<close> gets the
  rest of the file, whole and in order, after at most two calls for a byte and two more.
\<close>

theorem read_all_returns_file:
  assumes r: "ef_reach pagesize s" and sl: "slot s fd = Done (Some a)"
    and f: "ef_heap s a = Some f" "f_status f = FILE_OPEN" "read_access (f_oflag f)" "idle_now f" and q: "sg_disk_io s = []"
    and n: "0 < n" "n \<le> sg_page_size s" and c: "content s a = (d, off)" and k: "2 * (length d - off) + 1 < k"
  shows "\<exists>s'. read_all k fd n s = Done (drop off d, s')"
proof -
  note inv = ef_reach_inv [OF r]
  have d: "kdata (kern s) (f_fd f) = d" "f_offset f = off" "f_curr_size f = length d"
    using idle_content [OF inv f(1,2,4,3)] c by auto
  have "2 * (f_curr_size f - f_offset f) + (if f_buffer f = None then 1 else 0) < k" using k d by auto
  from read_all_ok [OF inv sl f q n this] d show ?thesis by auto
qed

theorem read_all_returns_file_witness: "\<exists>s'. read_all 8 0 2 demo_r = Done ([1, 2, 3], s')"
proof -
  from demo_r_facts(7) obtain f where f: "ef_heap demo_r 0 = Some f" "f_status f = FILE_OPEN" "read_access (f_oflag f)" "idle_now f"
    by (auto simp: idle_now_def)
  have "(0::nat) < 2" "2 \<le> sg_page_size demo_r" by (simp_all add: demo_r_facts(6))
  from read_all_returns_file [OF demo_r_facts(1,3) f demo_r_facts(5) this demo_r_facts(4), of 8] show ?thesis by simp
qed

subsection \<open>Opening\<close>

text \<open>
  C14. \<open>ef_open\<close>, a turn of a disk thread and \<open>ef_open_status\<close>: the handle is the first free slot, and the file is
  open with the contents the disk has, empty when it is new or truncated, at its start or, for appending, at its end.
\<close>

theorem open_gives_contents:
  assumes r: "ef_reach pagesize s" and args: "open_args_ok path fl" and q: "sg_fd_queue s = fd # fds" "sg_disk_io s = []"
    and may: "may_open s (the path) fl" "fst (sys_open (kern s) (the path) (open_flags fl)) \<noteq> -1"
  shows "\<exists>s1 s2 s3 a f. ef_open path fl s = Done (int fd, s1) \<and> disk_thread s1 = Done s2 \<and>
    ef_open_status (int fd) s2 = Done (int fd, s3) \<and> slot s3 (int fd) = Done (Some a) \<and> ef_heap s3 a = Some f \<and>
    f_status f = FILE_OPEN \<and> f_oflag f = open_flags fl \<and>
    content s3 a = (opened_data (kern s) (the path) fl,
      if bit fl 10 \<and> bit fl 0 then length (opened_data (kern s) (the path) fl) else 0)"
  using open_sequence [OF ef_reach_inv [OF r] args q may refl] by blast

theorem open_gives_contents_witness:
  "\<exists>s1 s2 s3 a. ef_open (Some ''log'') 0 (ef_init 4096 (demo_state (Some [1, 2, 3]))) = Done (0, s1) \<and> disk_thread s1 = Done s2 \<and>
     ef_open_status 0 s2 = Done (0, s3) \<and> content s3 a = ([1, 2, 3], 0)"
proof -
  let ?s = "ef_init 4096 (demo_state (Some [1, 2, 3]))"
  note s0 = demo_start [of "Some [1, 2, 3]"]
  have may: "may_open ?s (the (Some ''log'')) 0" using s0 demo_r_args by (simp add: may_open_def)
  have opens: "fst (sys_open (kern ?s) (the (Some ''log'')) (open_flags 0)) \<noteq> -1"
    using s0(6) by (auto simp: sys_open_def k_new_fd_def demo_kernel_def kset_data_def)
  from open_gives_contents [OF s0(1) demo_r_args(1) s0(3,5) may opens] s0(6) demo_r_args(4) show ?thesis by auto
qed

text \<open>
  C15. The errors of \<open>ef_open\<close>: -1 with \<open>EINVAL\<close> for a missing or empty path, for \<open>O_APPEND\<close> alone and for flags that
  name no supported mode; -1 with \<open>EMFILE\<close> when all slots are in use. Nothing but \<open>errno\<close> changes.
\<close>

theorem ef_open_errors:
  assumes "ef_reach pagesize s"
  shows "(\<not> open_args_ok path fl \<longrightarrow> ef_open path fl s = Done (-1, set_err EINVAL s)) \<and>
    (open_args_ok path fl \<and> sg_fd_queue s = [] \<longrightarrow> ef_open path fl s = Done (-1, set_err EMFILE s))"
  using ef_open_fails [OF ef_reach_inv [OF assms], of path fl] by simp

theorem ef_open_errors_witness: "ef_open None 2 demo_w = Done (-1, set_err EINVAL demo_w)"
  using ef_open_errors [OF demo_w_facts(1), of None 2] by (simp add: open_args_ok_def)

text \<open>
  When the operating system refuses to open the file, \<open>ef_open_status\<close> returns -1, gives the error of \<open>open\<close> to
  the caller and the slot back to the free slots; every open file stays as it is.
\<close>

theorem failed_open_frees_slot:
  assumes r: "ef_reach pagesize s" and sl: "slot s fd = Done (Some a)" and f: "ef_heap s a = Some f" "f_status f = FILE_NOT_OPEN"
  shows "\<exists>s'. ef_open_status fd s = Done (-1, s') \<and> slot s' fd = Done None \<and> errno (kern s') = a_err (the (f_action f)) \<and>
    nat fd \<in> set (sg_fd_queue s') \<and>
    (\<forall>b g. ef_heap s b = Some g \<and> f_status g = FILE_OPEN \<longrightarrow> content s' b = content s b)"
proof -
  from ef_open_status_keeps(2) [OF ef_reach_inv [OF r] sl f] obtain s' where
    s': "ef_open_status fd s = Done (-1, s')" "keeps s s'" "slot s' fd = Done None" "errno (kern s') = a_err (the (f_action f))" by blast
  have "slots_ok s'" using keeps_inv [OF s'(2)] by (simp add: ef_inv_def)
  moreover have "0 \<le> fd" "nat fd < length (sg_open_files s')" "sg_open_files s' ! nat fd = None"
    using s'(3) by (auto simp: slot_def split: if_splits)
  ultimately have "nat fd \<in> set (sg_fd_queue s')" by (simp add: slots_ok_def)
  with s' show ?thesis by (auto simp: keeps_def carried_def)
qed

theorem failed_open_frees_slot_witness:
  "\<exists>s1 s2 s3. ef_open (Some ''log'') 2 (ef_init 4096 (demo_state None)) = Done (0, s1) \<and> disk_thread s1 = Done s2 \<and>
     ef_open_status 0 s2 = Done (-1, s3) \<and> slot s3 0 = Done None"
proof -
  let ?s = "ef_init 4096 (demo_state None)"
  note s0 = demo_start [of None]
  have args: "open_args_ok (Some ''log'') 2" by (simp add: open_args_ok_def any_flag_def)
  from ef_open_ok [OF s0(2) args s0(3) refl] s0(4,5) obtain s1 f1 act where
    s1: "ef_open (Some ''log'') 2 ?s = Done (0, s1)" "sg_disk_io s1 = [T_open 0]" "slot s1 0 = Done (Some 0)"
      "ef_heap s1 = (ef_heap ?s)(0 \<mapsto> f1)" "f_status f1 = FILE_OPEN_ATTEMPTED" "f_action f1 = Some act"
      "a_inp act = Open_inp ''log'' 2" "kern s1 = set_errno 0 (kern ?s)" by auto
  have r1: "ef_reach 4096 s1" by (rule ef_reach_step [OF s0(1), of "Op_open (Some ''log'') 2" 0 "[]"]) (simp_all add: s1(1))
  have fl: "open_flags 2 = 2" by (simp add: open_flags_def any_flag_def)
  have nx: "next_open_ok s1"
    using s1 s0(8) by (auto simp: next_open_ok_def may_open_def fl mode_ok_def)
  obtain s2 f act' path fl' where s2: "ef_file_open 0 (s1\<lparr>sg_disk_io := []\<rparr>) = Done s2" "ef_heap s1 0 = Some f"
      "f_action f = Some act'" "a_inp act' = Open_inp path fl'" "open_result s1 path fl' 0 s2" "sg_open_files s2 = sg_open_files s1"
    by (rule ef_file_open_keeps [OF ef_reach_inv [OF r1] s1(2) nx])
  have d2: "disk_thread s1 = Done s2" using s1(2) s2(1) by (simp add: disk_thread_def)
  have r2: "ef_reach 4096 s2" by (rule ef_reach_step [OF r1, of "Op_bg Bg_disk" 0 "[]"]) (simp_all add: nx d2 bg_step_def)
  have "fst (sys_open (set_errno 0 (kern s1)) ''log'' (open_flags 2)) = -1"
    unfolding s1(8) s0(6) by (simp add: sys_open_def fl any_flag_def demo_kernel_def set_errno_def)
  then obtain f2 where f2: "ef_heap s2 0 = Some f2" "f_status f2 = FILE_NOT_OPEN"
    using s2(2-5) s1(4,6,7) by (auto simp: open_result_def)
  have "slot s2 0 = Done (Some 0)" using s1(3) s2(6) by (auto simp: slot_def split: if_splits)
  from failed_open_frees_slot [OF r2 this f2] s1(1) d2 show ?thesis by blast
qed

subsection \<open>Refused calls\<close>

text \<open>
  C16. The errors of \<open>ef_write\<close>: \<open>EINVAL\<close> for a handle that is free, a null buffer or no bytes; \<open>EBADF\<close> for a file that
  is not open or not open for writing; \<open>EBUSY\<close> while another action of the file is under way. Nothing but
  \<open>errno\<close> changes.
\<close>

theorem ef_write_errors:
  assumes r: "ef_reach pagesize s" and h: "handle fd"
  shows "(slot s fd = Done None \<longrightarrow> ef_write fd buf n s = Done (-1, set_err EINVAL s)) \<and>
    (\<forall>a f. slot s fd = Done (Some a) \<and> ef_heap s a = Some f \<longrightarrow>
       (buf = None \<or> n = 0 \<longrightarrow> ef_write fd buf n s = Done (-1, set_err EINVAL s)) \<and>
       (buf \<noteq> None \<and> 0 < n \<and> (f_status f \<noteq> FILE_OPEN \<or> \<not> can_write (f_oflag f)) \<longrightarrow> ef_write fd buf n s = Done (-1, set_err EBADF s)) \<and>
       (buf \<noteq> None \<and> 0 < n \<and> f_status f = FILE_OPEN \<and> can_write (f_oflag f) \<and> \<not> writable_now f \<longrightarrow>
          ef_write fd buf n s = Done (-1, set_err EBUSY s)))"
proof -
  note inv = ef_reach_inv [OF r]
  have "(buf = None \<or> n = 0 \<longrightarrow> ef_write fd buf n s = Done (-1, set_err EINVAL s)) \<and>
       (buf \<noteq> None \<and> 0 < n \<and> (f_status f \<noteq> FILE_OPEN \<or> \<not> can_write (f_oflag f)) \<longrightarrow> ef_write fd buf n s = Done (-1, set_err EBADF s)) \<and>
       (buf \<noteq> None \<and> 0 < n \<and> f_status f = FILE_OPEN \<and> can_write (f_oflag f) \<and> \<not> writable_now f \<longrightarrow>
          ef_write fd buf n s = Done (-1, set_err EBUSY s))"
    if f: "slot s fd = Done (Some a)" "ef_heap s a = Some f" for a f
  proof -
    have cw: "any_flag (O_RDWR OR O_WRONLY) (f_oflag f) = can_write (f_oflag f)" if "f_status f = FILE_OPEN"
      using inv_file [OF inv f(2)] that by (subst any_flag_or) (auto simp: file_ok_def io_ok_def can_write_bits)
    show ?thesis using f cw ef_write_busy [OF inv f, of n "the buf"] by (auto simp: ef_write_def Let_def)
  qed
  moreover have "slot s fd = Done None \<longrightarrow> ef_write fd buf n s = Done (-1, set_err EINVAL s)" by (simp add: ef_write_def Let_def)
  ultimately show ?thesis by blast
qed

theorem ef_write_errors_witness: "ef_write 0 (Some [1]) 1 demo_r = Done (-1, set_err EBADF demo_r)"
proof -
  from demo_opened(7) [where fl = "0" and d = "Some [1, 2, 3]", unfolded demo_r_args, OF demo_r_args(1) demo_r_args(3)]
  obtain f where "ef_heap demo_r 0 = Some f" "f_oflag f = 0x4000" by auto
  with ef_write_errors [OF demo_r_facts(1), of 0 "Some [1]" 1] demo_r_facts(3) show ?thesis by (auto simp: handle_def can_write_def)
qed








text \<open>
  \<open>ef_poll\<close> never reports a file opened with \<open>O_RDONLY\<close> as readable, even with its page at hand: \<open>ef_file_open\<close>
  has added \<open>O_DIRECT\<close> to the flags that \<open>ef_poll\<close> compares with \<open>O_RDONLY\<close>.
\<close>

theorem ef_poll_misses_readers:
  assumes "ef_reach pagesize s" "slot s fd = Done (Some a)" "ef_heap s a = Some f" "f_status f = FILE_OPEN"
    "f_oflag f = open_flags O_RDONLY"
  shows "ef_poll fd s = Done (0, s)"
  using assms init_done [OF ef_reach_inv [OF assms(1)]] by (simp add: ef_poll_def open_flags_def any_flag_def)

theorem ef_poll_misses_readers_witness: "ef_poll 0 demo_r = Done (0, demo_r)"
proof -
  from demo_opened(7) [where fl = "0" and d = "Some [1, 2, 3]", unfolded demo_r_args, OF demo_r_args(1) demo_r_args(3)]
  obtain f where "ef_heap demo_r 0 = Some f" "f_status f = FILE_OPEN" "f_oflag f = open_flags O_RDONLY"
    by (auto simp: demo_r_args(2))
  from ef_poll_misses_readers [OF demo_r_facts(1,3) this] show ?thesis .
qed



end
