(* ===== verification/ThreadPool.thy ===== *)
theory ThreadPool
  imports Kernel "HOL-Library.Multiset"
begin

text \<open>
  \<open>src/evthrpool/thread_pool.c\<close> as it is built by default, with a mutex and a condition variable: the threads
  of the pool, the callers of \<open>enqueue_task\<close> and the caller of \<open>destroy_thread_pool\<close> as a state machine. A
  step is one access to what the threads share; the queue of tasks is a list, what \<open>ev_queue_refines_fifo\<close>
  makes of an \<open>ev_queue\<close>. The fields that no code reads (\<open>_enq_index\<close>, \<open>_free_thr_queue\<close>, \<open>_subscribed\<close>, the
  sleep times) are left out, and so is a failing \<open>malloc\<close>, which the code does not look at.
\<close>

subsection \<open>State\<close>

text \<open>
  A task is a function and its argument, or the envelope that \<open>enqueue_task_function\<close> makes of a function, its
  input, the function to notify and the data for it. An element of the queue without a task function (\<open>None\<close>)
  tells a thread to end.
\<close>

datatype task =
    Task nat nat
  | Envelope nat nat nat nat

datatype thr_pc =
    L_load
  | L_dequeue
  | L_lock
  | L_check
  | L_dequeue_locked
  | L_wait
  | L_asleep
  | L_relock
  | L_unlock
  | L_dequeue_woken
  | L_reload
  | L_drain
  | L_run task
  | L_called
  | L_exit

datatype thr_state = THREAD_FREE | THREAD_BUSY

record thr =
  t_pc :: thr_pc
  t_state :: thr_state
  t_task_count :: "32 word"

datatype destroy_pc = D_idle | D_nulls nat | D_broadcast | D_join nat | D_done

text \<open>
  \<open>p_signals\<close> counts the callers of \<open>enqueue_task\<close> that have put their task in the queue and not yet
  woken a thread. \<open>p_accepted\<close> and \<open>p_called\<close> are the history: the tasks given to the pool and the tasks whose
  function has been called.
\<close>

record thread_pool =
  p_threads :: "thr list"
  p_task_queue :: "task option list"
  p_shutdown :: bool
  p_cond_count :: "32 word"
  p_mutex :: "nat option"
  p_signals :: nat
  p_destroy :: destroy_pc
  p_freed :: bool
  p_accepted :: "task list"
  p_called :: "task list"

definition goto :: "nat \<Rightarrow> thr_pc \<Rightarrow> thread_pool \<Rightarrow> thread_pool" where
  "goto i pc p = p\<lparr>p_threads := (p_threads p)[i := (p_threads p ! i)\<lparr>t_pc := pc\<rparr>]\<rparr>"

subsection \<open>Operations\<close>

text \<open>
  The decision after the inner loop: \<open>s\<close> is the value of \<open>_shutdown\<close> the thread has seen, \<open>qe\<close> the element it
  has taken.
\<close>

definition dispatch :: "bool \<Rightarrow> task option option \<Rightarrow> thr_pc outcome" where
  "dispatch s qe =
     (if s then
        (case qe of
           Some (Some t) \<Rightarrow> Done (L_run t)
         | Some None \<Rightarrow> Done L_exit
         | None \<Rightarrow> Done L_drain)
      else
        (case qe of
           Some (Some t) \<Rightarrow> Done (L_run t)
         | Some None \<Rightarrow> Done L_exit
         | None \<Rightarrow> Aborted))"

text \<open>\<open>dequeue\<close> by thread \<open>i\<close>, which goes on at \<open>pc\<close> when the queue is empty;
  \<open>s\<close> is the value of \<open>_shutdown\<close> it has seen.\<close>

definition take_task :: "bool \<Rightarrow> nat \<Rightarrow> thr_pc \<Rightarrow> thread_pool \<Rightarrow> thread_pool outcome" where
  "take_task s i pc p =
     (case p_task_queue p of
        [] \<Rightarrow> Done (goto i pc p)
      | qe # q \<Rightarrow> obind (dispatch s (Some qe)) (\<lambda>pc'. Done (goto i pc' (p\<lparr>p_task_queue := q\<rparr>))))"

text \<open>The function of the task is called; \<open>envelope_function\<close> then notifies. The call is recorded.\<close>

definition run_task :: "nat \<Rightarrow> task \<Rightarrow> thread_pool \<Rightarrow> thread_pool" where
  "run_task i t p =
     p\<lparr>p_threads := (p_threads p)[i := (p_threads p ! i)\<lparr>t_pc := L_called, t_state := THREAD_BUSY\<rparr>],
       p_called := p_called p @ [t]\<rparr>"

definition task_done :: "nat \<Rightarrow> thread_pool \<Rightarrow> thread_pool" where
  "task_done i p =
     p\<lparr>p_threads := (p_threads p)[i := (p_threads p ! i)\<lparr>t_pc := L_load, t_state := THREAD_FREE,
         t_task_count := t_task_count (p_threads p ! i) + 1\<rparr>]\<rparr>"

text \<open>
  A step of \<open>thread_loop\<close> by thread \<open>i\<close>: \<open>Spins\<close> where it waits for the mutex, sleeps on the condition
  variable or has ended. The dequeue under the mutex and the unlock that follows it are one step.
\<close>

definition thread_loop :: "nat \<Rightarrow> thread_pool \<Rightarrow> thread_pool outcome" where
  "thread_loop i p =
     (if p_freed p \<and> t_pc (p_threads p ! i) \<noteq> L_exit then Bad_access
      else case t_pc (p_threads p ! i) of
        L_load \<Rightarrow>
          if p_shutdown p then obind (dispatch True None) (\<lambda>pc. Done (goto i pc p)) else Done (goto i L_dequeue p)
      | L_dequeue \<Rightarrow> take_task False i L_lock p
      | L_lock \<Rightarrow> if p_mutex p \<noteq> None then Spins else Done (goto i L_check (p\<lparr>p_mutex := Some i\<rparr>))
      | L_check \<Rightarrow>
          if p_shutdown p then obind (dispatch True None) (\<lambda>pc. Done (goto i pc (p\<lparr>p_mutex := None\<rparr>)))
          else Done (goto i L_dequeue_locked p)
      | L_dequeue_locked \<Rightarrow>
          if p_task_queue p = [] then Done (goto i L_wait p) else take_task False i L_wait (p\<lparr>p_mutex := None\<rparr>)
      | L_wait \<Rightarrow> Done (goto i L_asleep (p\<lparr>p_mutex := None\<rparr>))
      | L_asleep \<Rightarrow> Spins
      | L_relock \<Rightarrow> if p_mutex p \<noteq> None then Spins else Done (goto i L_unlock (p\<lparr>p_mutex := Some i\<rparr>))
      | L_unlock \<Rightarrow> Done (goto i L_dequeue_woken (p\<lparr>p_mutex := None\<rparr>))
      | L_dequeue_woken \<Rightarrow> take_task False i L_reload p
      | L_reload \<Rightarrow>
          if p_shutdown p then obind (dispatch True None) (\<lambda>pc. Done (goto i pc p)) else Done (goto i L_dequeue p)
      | L_drain \<Rightarrow> take_task True i L_exit p
      | L_run t \<Rightarrow> Done (run_task i t p)
      | L_called \<Rightarrow> Done (task_done i p)
      | L_exit \<Rightarrow> Spins)"

text \<open>\<open>enqueue_task\<close> up to the wake-up, and the wake-up: the signal reaches \<open>i\<close>, a sleeping thread if there is one.\<close>

definition enqueue_task :: "task \<Rightarrow> thread_pool \<Rightarrow> thread_pool" where
  "enqueue_task t p =
     p\<lparr>p_task_queue := p_task_queue p @ [Some t], p_cond_count := p_cond_count p + 1, p_signals := p_signals p + 1,
       p_accepted := p_accepted p @ [t]\<rparr>"

definition enqueue_task_function :: "nat \<Rightarrow> nat \<Rightarrow> nat \<Rightarrow> nat \<Rightarrow> thread_pool \<Rightarrow> thread_pool" where
  "enqueue_task_function func input_data ref_data notification_func p =
     enqueue_task (Envelope func input_data notification_func ref_data) p"

definition asleep :: "thread_pool \<Rightarrow> nat \<Rightarrow> bool" where
  "asleep p i \<longleftrightarrow> i < length (p_threads p) \<and> t_pc (p_threads p ! i) = L_asleep"

definition wake_any_one_thread :: "nat \<Rightarrow> thread_pool \<Rightarrow> thread_pool outcome" where
  "wake_any_one_thread i p =
     (if p_mutex p \<noteq> None then Spins
      else Done ((if asleep p i then goto i L_relock p else p)\<lparr>p_signals := p_signals p - 1\<rparr>))"

definition create_thread_pool :: "int \<Rightarrow> int + thread_pool" where
  "create_thread_pool num_threads =
     (if 0 \<ge> num_threads then Inl EINVAL
      else Inr \<lparr>p_threads = replicate (nat num_threads) \<lparr>t_pc = L_load, t_state = THREAD_FREE, t_task_count = 0\<rparr>,
                p_task_queue = [], p_shutdown = False, p_cond_count = 0, p_mutex = None, p_signals = 0,
                p_destroy = D_idle, p_freed = False, p_accepted = [], p_called = []\<rparr>)"

definition free_thread_pool :: "thread_pool \<Rightarrow> thread_pool" where
  "free_thread_pool p = p\<lparr>p_task_queue := [], p_freed := True, p_destroy := D_done\<rparr>"

text \<open>One element without a function for every thread, and then the broadcast.\<close>

definition wake_all_threads :: "thread_pool \<Rightarrow> thread_pool outcome" where
  "wake_all_threads p =
     (case p_destroy p of
        D_nulls (Suc k) \<Rightarrow> Done (p\<lparr>p_task_queue := p_task_queue p @ [None], p_destroy := D_nulls k\<rparr>)
      | D_nulls 0 \<Rightarrow> Done (p\<lparr>p_destroy := D_broadcast\<rparr>)
      | _ \<Rightarrow>
          if p_mutex p \<noteq> None then Spins
          else Done (p\<lparr>p_threads := map (\<lambda>t. if t_pc t = L_asleep then t\<lparr>t_pc := L_relock\<rparr> else t) (p_threads p),
                       p_destroy := D_join 0\<rparr>))"

text \<open>\<open>destroy_thread_pool\<close>: the checks at its start, and then its steps.\<close>

definition destroy_enter :: "thread_pool option \<Rightarrow> int + thread_pool" where
  "destroy_enter pool =
     (case pool of
        None \<Rightarrow> Inl EINVAL
      | Some p \<Rightarrow>
          if p_shutdown p then Inl EBUSY
          else Inr (p\<lparr>p_shutdown := True, p_destroy := D_nulls (length (p_threads p))\<rparr>))"

definition destroy_thread_pool :: "thread_pool \<Rightarrow> thread_pool outcome" where
  "destroy_thread_pool p =
     (case p_destroy p of
        D_idle \<Rightarrow> (case destroy_enter (Some p) of Inl e \<Rightarrow> Done p | Inr p' \<Rightarrow> Done p')
      | D_nulls k \<Rightarrow> wake_all_threads p
      | D_broadcast \<Rightarrow> wake_all_threads p
      | D_join i \<Rightarrow>
          if i < length (p_threads p) then
            (if t_pc (p_threads p ! i) = L_exit then Done (p\<lparr>p_destroy := D_join (i + 1)\<rparr>) else Spins)
          else Done (free_thread_pool p)
      | D_done \<Rightarrow> Spins)"

definition thrpool_get_task_count :: "thread_pool \<Rightarrow> 32 word" where
  "thrpool_get_task_count p = sum_list (map t_task_count (p_threads p))"

subsection \<open>Steps in any order\<close>

datatype pool_op = P_thread nat | P_wakeup nat | P_enqueue task | P_signal nat | P_destroy

fun pool_exec :: "pool_op \<Rightarrow> thread_pool \<Rightarrow> thread_pool outcome" where
  "pool_exec (P_thread i) p = thread_loop i p"
| "pool_exec (P_wakeup i) p = Done (goto i L_relock p)"
| "pool_exec (P_enqueue t) p = Done (enqueue_task t p)"
| "pool_exec (P_signal i) p = wake_any_one_thread i p"
| "pool_exec P_destroy p = destroy_thread_pool p"

text \<open>
  What the callers have to observe: no call of \<open>enqueue_task\<close> runs during or after \<open>destroy_thread_pool\<close>. A
  signal reaches one of the sleeping threads, if there are any; \<open>P_wakeup\<close> is a spurious wake-up, which
  \<open>pthread_cond_wait\<close> allows.
\<close>

fun pool_ok :: "pool_op \<Rightarrow> thread_pool \<Rightarrow> bool" where
  "pool_ok (P_thread i) p = (i < length (p_threads p))"
| "pool_ok (P_wakeup i) p = asleep p i"
| "pool_ok (P_enqueue t) p = (\<not> p_shutdown p)"
| "pool_ok (P_signal i) p = (0 < p_signals p \<and> (list_ex (\<lambda>t. t_pc t = L_asleep) (p_threads p) \<longrightarrow> asleep p i))"
| "pool_ok P_destroy p = (p_destroy p = D_idle \<longrightarrow> p_signals p = 0)"

definition pool_start :: "int \<Rightarrow> thread_pool \<Rightarrow> bool" where
  "pool_start n p \<longleftrightarrow> create_thread_pool n = Inr p"

definition pool_reach :: "int \<Rightarrow> thread_pool \<Rightarrow> bool" where
  "pool_reach n = reach (pool_start n) pool_ok pool_exec id"

subsection \<open>The invariant\<close>

text \<open>\<open>pc p i\<close> is where thread \<open>i\<close> is.\<close>

definition pc :: "thread_pool \<Rightarrow> nat \<Rightarrow> thr_pc" where
  "pc p i = t_pc (p_threads p ! i)"

definition holds_mutex :: "thr_pc \<Rightarrow> bool" where
  "holds_mutex x \<longleftrightarrow> x = L_check \<or> x = L_dequeue_locked \<or> x = L_wait \<or> x = L_unlock"

text \<open>A thread that looks at the queue again before it sleeps.\<close>

definition attentive :: "thr_pc \<Rightarrow> bool" where
  "attentive x \<longleftrightarrow> x \<noteq> L_wait \<and> x \<noteq> L_asleep \<and> x \<noteq> L_exit"

fun hand :: "thr_pc \<Rightarrow> task multiset" where
  "hand (L_run t) = {#t#}"
| "hand _ = {#}"

definition uncounted :: "thr_pc \<Rightarrow> nat" where
  "uncounted x = (if x = L_called then 1 else 0)"

definition tasks_in :: "task option list \<Rightarrow> task list" where
  "tasks_in q = map the (filter (\<lambda>x. x \<noteq> None) q)"

abbreviation queued :: "thread_pool \<Rightarrow> task list" where
  "queued p \<equiv> tasks_in (p_task_queue p)"

definition mutex_inv :: "thread_pool \<Rightarrow> bool" where
  "mutex_inv p \<longleftrightarrow>
     0 < length (p_threads p) \<and> (\<forall>i<length (p_threads p). holds_mutex (pc p i) \<longleftrightarrow> p_mutex p = Some i) \<and>
     (\<forall>i. p_mutex p = Some i \<longrightarrow> i < length (p_threads p))"

text \<open>Tasks stand before the elements without one; a thread ends only when no task is left.\<close>

definition queue_inv :: "thread_pool \<Rightarrow> bool" where
  "queue_inv p \<longleftrightarrow>
     (\<exists>ts k. p_task_queue p = map Some ts @ replicate k None \<and> (k = 0 \<or> p_shutdown p) \<and>
        (\<forall>i<length (p_threads p). pc p i = L_exit \<longrightarrow> ts = [] \<and> p_shutdown p)) \<and>
     (\<forall>i<length (p_threads p). pc p i = L_drain \<longrightarrow> p_shutdown p)"

text \<open>Nobody sleeps while there is work, unless a wake-up is still to come.\<close>

definition wake_inv :: "thread_pool \<Rightarrow> bool" where
  "wake_inv p \<longleftrightarrow>
     (p_shutdown p \<longrightarrow> p_signals p = 0) \<and>
     (\<not> p_shutdown p \<and> p_task_queue p \<noteq> [] \<longrightarrow> 0 < p_signals p \<or> (\<exists>i<length (p_threads p). attentive (pc p i)))"

fun broadcast_done :: "destroy_pc \<Rightarrow> bool" where
  "broadcast_done (D_join i) = True"
| "broadcast_done D_done = True"
| "broadcast_done _ = False"

fun joined :: "destroy_pc \<Rightarrow> nat \<Rightarrow> nat" where
  "joined (D_join i) n = i"
| "joined D_done n = n"
| "joined _ n = 0"

definition destroy_inv :: "thread_pool \<Rightarrow> bool" where
  "destroy_inv p \<longleftrightarrow>
     (p_shutdown p \<longleftrightarrow> p_destroy p \<noteq> D_idle) \<and> (p_freed p \<longleftrightarrow> p_destroy p = D_done) \<and>
     (broadcast_done (p_destroy p) \<longrightarrow>
        (\<forall>i<length (p_threads p). pc p i \<noteq> L_dequeue_locked \<and> pc p i \<noteq> L_wait \<and> pc p i \<noteq> L_asleep)) \<and>
     joined (p_destroy p) (length (p_threads p)) \<le> length (p_threads p) \<and>
     (\<forall>i<joined (p_destroy p) (length (p_threads p)). pc p i = L_exit)"

definition history_inv :: "thread_pool \<Rightarrow> bool" where
  "history_inv p \<longleftrightarrow>
     (\<exists>taken. p_accepted p = taken @ queued p) \<and>
     mset (p_accepted p) = mset (p_called p) + sum_list (map (\<lambda>t. hand (t_pc t)) (p_threads p)) + mset (queued p) \<and>
     thrpool_get_task_count p + of_nat (sum_list (map (\<lambda>t. uncounted (t_pc t)) (p_threads p))) = of_nat (length (p_called p))"

definition pool_inv :: "thread_pool \<Rightarrow> bool" where
  "pool_inv p \<longleftrightarrow> mutex_inv p \<and> queue_inv p \<and> wake_inv p \<and> destroy_inv p \<and> history_inv p"

subsection \<open>Effects of a step\<close>

lemma goto_simps [simp]:
  "length (p_threads (goto i x p)) = length (p_threads p)" "p_task_queue (goto i x p) = p_task_queue p"
  "p_shutdown (goto i x p) = p_shutdown p" "p_mutex (goto i x p) = p_mutex p" "p_signals (goto i x p) = p_signals p"
  "p_destroy (goto i x p) = p_destroy p" "p_freed (goto i x p) = p_freed p" "p_accepted (goto i x p) = p_accepted p"
  "p_called (goto i x p) = p_called p"
  by (simp_all add: goto_def)

lemma pc_goto: "i < length (p_threads p) \<Longrightarrow> pc (goto i x p) j = (if j = i then x else pc p j)"
  by (auto simp: pc_def goto_def)

lemma pc_upd [simp]:
  "pc (p\<lparr>p_task_queue := q\<rparr>) = pc p" "pc (p\<lparr>p_mutex := m\<rparr>) = pc p" "pc (p\<lparr>p_signals := n\<rparr>) = pc p"
  "pc (p\<lparr>p_called := c\<rparr>) = pc p" "pc (p\<lparr>p_shutdown := b\<rparr>) = pc p" "pc (p\<lparr>p_destroy := d\<rparr>) = pc p"
  by (simp_all add: fun_eq_iff pc_def)

lemma goto_same [simp]: "i < length (p_threads p) \<Longrightarrow> p_threads p ! i = t \<Longrightarrow> p_threads (goto i x p) = (p_threads p)[i := t\<lparr>t_pc := x\<rparr>]"
  by (simp add: goto_def)

lemma dispatch_simps [simp]:
  "dispatch s (Some x) = Done (case x of Some t \<Rightarrow> L_run t | None \<Rightarrow> L_exit)" "dispatch True None = Done L_drain"
  by (simp_all add: dispatch_def split: option.splits)

text \<open>
  The control of a thread as a step relation: \<open>sh\<close> is \<open>_shutdown\<close>, and a step takes the place of the thread, the owner of
  the mutex and the queue to the next ones.
\<close>

inductive thr_rel ::
  "nat \<Rightarrow> bool \<Rightarrow> thr_pc \<Rightarrow> nat option \<Rightarrow> task option list \<Rightarrow> thr_pc \<Rightarrow> nat option \<Rightarrow> task option list \<Rightarrow> bool"
  for i sh where
  stop: "sh \<Longrightarrow> x = L_load \<or> x = L_reload \<Longrightarrow> thr_rel i sh x m q L_drain m q"
| go: "\<not> sh \<Longrightarrow> x = L_load \<or> x = L_reload \<Longrightarrow> thr_rel i sh x m q L_dequeue m q"
| empty: "x = L_dequeue \<and> x' = L_lock \<or> x = L_dequeue_woken \<and> x' = L_reload \<or> x = L_drain \<and> x' = L_exit \<Longrightarrow>
    thr_rel i sh x m [] x' m []"
| take_run: "x = L_dequeue \<or> x = L_dequeue_woken \<or> x = L_drain \<Longrightarrow> thr_rel i sh x m (Some t # q) (L_run t) m q"
| take_stop: "x = L_dequeue \<or> x = L_dequeue_woken \<or> x = L_drain \<Longrightarrow> thr_rel i sh x m (None # q) L_exit m q"
| lock: "x = L_lock \<and> x' = L_check \<or> x = L_relock \<and> x' = L_unlock \<Longrightarrow> thr_rel i sh x None q x' (Some i) q"
| check_stop: "sh \<Longrightarrow> thr_rel i sh L_check m q L_drain None q"
| check: "\<not> sh \<Longrightarrow> thr_rel i sh L_check m q L_dequeue_locked m q"
| locked_empty: "thr_rel i sh L_dequeue_locked m [] L_wait m []"
| locked_run: "thr_rel i sh L_dequeue_locked m (Some t # q) (L_run t) None q"
| locked_stop: "thr_rel i sh L_dequeue_locked m (None # q) L_exit None q"
| wait: "thr_rel i sh L_wait m q L_asleep None q"
| unlock: "thr_rel i sh L_unlock m q L_dequeue_woken None q"
| run: "thr_rel i sh (L_run t) m q L_called m q"
| called: "thr_rel i sh L_called m q L_load m q"

inductive_simps thr_rel_stuck: "thr_rel i sh L_exit m q x' m' q'" "thr_rel i sh L_asleep m q x' m' q'"

text \<open>What a step of \<open>thread_loop\<close> leaves alone.\<close>

definition moves :: "nat \<Rightarrow> thread_pool \<Rightarrow> thread_pool \<Rightarrow> bool" where
  "moves i p p' \<longleftrightarrow>
     p_threads p' = (p_threads p)[i := p_threads p' ! i] \<and> p_shutdown p' = p_shutdown p \<and> p_signals p' = p_signals p \<and>
     p_destroy p' = p_destroy p \<and> p_freed p' = p_freed p \<and> p_accepted p' = p_accepted p \<and>
     p_called p' = p_called p @ (case pc p i of L_run t \<Rightarrow> [t] | _ \<Rightarrow> []) \<and>
     t_task_count (p_threads p' ! i) = t_task_count (p_threads p ! i) + (if pc p i = L_called then 1 else 0)"

lemma goto_moves:
  assumes "i < length (p_threads p)" "\<And>t. pc p i \<noteq> L_run t" "pc p i \<noteq> L_called"
  shows "moves i p (goto i x (p\<lparr>p_task_queue := q, p_mutex := m\<rparr>))" "moves i p (goto i x (p\<lparr>p_mutex := m\<rparr>))"
    "moves i p (goto i x (p\<lparr>p_task_queue := q\<rparr>))" "moves i p (goto i x p)" "moves i p (goto i x (p\<lparr>p_mutex := m, p_task_queue := q\<rparr>))"
  using assms by (simp_all add: moves_def goto_def pc_def split: thr_pc.split)

lemma thread_loop_rel:
  assumes "thread_loop i p = Done p'" "i < length (p_threads p)"
  shows "thr_rel i (p_shutdown p) (pc p i) (p_mutex p) (p_task_queue p) (pc p' i) (p_mutex p') (p_task_queue p') \<and> moves i p p'"
proof (cases "pc p i")
  case (L_run t)
  with assms show ?thesis
    by (auto simp: thread_loop_def pc_def run_task_def moves_def intro: thr_rel.intros split: if_splits)
next
  case L_called
  with assms show ?thesis
    by (auto simp: thread_loop_def pc_def task_done_def moves_def intro: thr_rel.intros split: if_splits)
qed (use assms goto_moves [of i p] pc_goto in \<open>auto simp: thread_loop_def pc_def [of p i, symmetric] take_task_def pc_goto
    intro: thr_rel.intros split: if_splits list.splits option.splits\<close>)

lemma tasks_in_simps [simp]:
  "tasks_in [] = []" "tasks_in (Some t # q) = t # tasks_in q" "tasks_in (None # q) = tasks_in q" "tasks_in (q @ r) = tasks_in q @ tasks_in r"
  "tasks_in (map Some ts) = ts" "tasks_in (replicate k None) = []"
  by (simp_all add: tasks_in_def comp_def)

subsection \<open>Steps of a thread keep the invariant\<close>

lemma moves_pc: "moves i p p' \<Longrightarrow> pc p' = (pc p)(i := pc p' i)"
  unfolding moves_def pc_def fun_eq_iff fun_upd_apply by (metis nth_list_update_neq)

lemma moves_length: "moves i p p' \<Longrightarrow> length (p_threads p') = length (p_threads p)"
  unfolding moves_def by (metis length_list_update)

lemma thr_rel_mutex:
  "thr_rel i sh x m q x' m' q' \<Longrightarrow> holds_mutex x \<longleftrightarrow> m = Some i \<Longrightarrow>
     (holds_mutex x' \<longleftrightarrow> m' = Some i) \<and> (m' = m \<or> m' = None \<and> m = Some i \<or> m' = Some i \<and> m = None)"
  by (induction rule: thr_rel.induct) (auto simp: holds_mutex_def)

lemma thr_rel_queue:
  assumes "thr_rel i sh x m q x' m' q'" "q = map Some ts @ replicate k None" "k = 0 \<or> sh" "x = L_drain \<longrightarrow> sh"
  shows "(\<exists>ts' k'. q' = map Some ts' @ replicate k' None \<and> k' \<le> k \<and> (ts = [] \<longrightarrow> ts' = []) \<and> (x' = L_exit \<longrightarrow> ts = [] \<and> sh)) \<and>
    (x' = L_drain \<longrightarrow> sh)"
  using assms
proof (induction rule: thr_rel.induct)
  case (empty x x' m)
  then show ?case by auto
next
  case (take_run x m t q)
  then obtain ts' where "ts = t # ts'" "q = map Some ts' @ replicate k None" by (cases ts; cases k) auto
  then show ?case by auto
next
  case (take_stop x m q)
  then obtain k' where "ts = []" "q = replicate k' None" "k = Suc k'" by (cases ts; cases k) auto
  then show ?case using take_stop by (auto intro: exI [of _ "[]"])
next
  case (locked_run m t q)
  then obtain ts' where "ts = t # ts'" "q = map Some ts' @ replicate k None" by (cases ts; cases k) auto
  then show ?case by auto
next
  case (locked_stop m q)
  then obtain k' where "ts = []" "q = replicate k' None" "k = Suc k'" by (cases ts; cases k) auto
  then show ?case using locked_stop by (auto intro: exI [of _ "[]"])
qed auto

lemma thr_rel_wake:
  "thr_rel i sh x m q x' m' q' \<Longrightarrow> \<not> sh \<Longrightarrow> None \<notin> set q \<Longrightarrow> q' \<noteq> [] \<Longrightarrow> x \<noteq> L_drain \<Longrightarrow>
     q \<noteq> [] \<and> (attentive x \<longrightarrow> attentive x')"
  by (induction rule: thr_rel.induct) (auto simp: attentive_def)

lemma thr_rel_down:
  "thr_rel i sh x m q x' m' q' \<Longrightarrow> sh \<Longrightarrow> x \<noteq> L_dequeue_locked \<and> x \<noteq> L_wait \<and> x \<noteq> L_asleep \<Longrightarrow>
     x \<noteq> L_exit \<and> x' \<noteq> L_dequeue_locked \<and> x' \<noteq> L_wait \<and> x' \<noteq> L_asleep"
  by (induction rule: thr_rel.induct) auto

lemma thr_rel_tasks:
  "thr_rel i sh x m q x' m' q' \<Longrightarrow>
     (\<exists>d. tasks_in q = d @ tasks_in q') \<and>
     mset (tasks_in q) + hand x = mset (case x of L_run t \<Rightarrow> [t] | _ \<Rightarrow> []) + hand x' + mset (tasks_in q') \<and>
     uncounted x + length (case x of L_run t \<Rightarrow> [t] | _ \<Rightarrow> []) = uncounted x' + (if x = L_called then 1 else 0)"
  by (induction rule: thr_rel.induct) (auto simp: uncounted_def)

lemma mutex_step:
  assumes inv: "mutex_inv p" and i: "i < length (p_threads p)" and m: "moves i p p'"
    and r: "thr_rel i sh (pc p i) (p_mutex p) q (pc p' i) (p_mutex p') q'"
  shows "mutex_inv p'"
proof -
  have "(holds_mutex (pc p' i) \<longleftrightarrow> p_mutex p' = Some i) \<and>
      (p_mutex p' = p_mutex p \<or> p_mutex p' = None \<and> p_mutex p = Some i \<or> p_mutex p' = Some i \<and> p_mutex p = None)"
    by (rule thr_rel_mutex [OF r]) (use inv i in \<open>auto simp: mutex_inv_def\<close>)
  with inv i moves_length [OF m] show ?thesis
    unfolding mutex_inv_def by (subst moves_pc [OF m]) auto
qed

lemma queue_step:
  assumes inv: "queue_inv p" and i: "i < length (p_threads p)" and m: "moves i p p'"
    and r: "thr_rel i (p_shutdown p) (pc p i) (p_mutex p) (p_task_queue p) (pc p' i) (p_mutex p') (p_task_queue p')"
  shows "queue_inv p'"
proof -
  from inv obtain ts k where q: "p_task_queue p = map Some ts @ replicate k None" "k = 0 \<or> p_shutdown p"
      "\<forall>i<length (p_threads p). pc p i = L_exit \<longrightarrow> ts = [] \<and> p_shutdown p" "\<forall>i<length (p_threads p). pc p i = L_drain \<longrightarrow> p_shutdown p"
    unfolding queue_inv_def by blast
  from thr_rel_queue [OF r q(1,2)] q(4) i obtain ts' k' where
    q': "p_task_queue p' = map Some ts' @ replicate k' None" "k' \<le> k" "ts = [] \<longrightarrow> ts' = []" "pc p' i = L_exit \<longrightarrow> ts = [] \<and> p_shutdown p"
      "pc p' i = L_drain \<longrightarrow> p_shutdown p" by blast
  have s: "p_shutdown p' = p_shutdown p" using m by (simp add: moves_def)
  have "pc p' j = L_exit \<longrightarrow> ts' = [] \<and> p_shutdown p'" "pc p' j = L_drain \<longrightarrow> p_shutdown p'" if "j < length (p_threads p')" for j
    using that q(3,4) q' s moves_length [OF m] moves_pc [OF m] by (metis fun_upd_apply)+
  moreover have "k' = 0 \<or> p_shutdown p'" using q(2) q'(2) s by auto
  ultimately show ?thesis using q'(1) unfolding queue_inv_def by blast
qed

lemma wake_step:
  assumes inv: "wake_inv p" "queue_inv p" and i: "i < length (p_threads p)" and m: "moves i p p'"
    and r: "thr_rel i (p_shutdown p) (pc p i) (p_mutex p) (p_task_queue p) (pc p' i) (p_mutex p') (p_task_queue p')"
  shows "wake_inv p'"
proof -
  have s: "p_shutdown p' = p_shutdown p" "p_signals p' = p_signals p" using m by (simp_all add: moves_def)
  have "0 < p_signals p \<or> (\<exists>j<length (p_threads p). attentive (pc p' j))" if n: "\<not> p_shutdown p" "p_task_queue p' \<noteq> []"
  proof -
    have "None \<notin> set (p_task_queue p)" "pc p i \<noteq> L_drain" using inv(2) n(1) i by (auto simp: queue_inv_def)
    then have w: "p_task_queue p \<noteq> []" "attentive (pc p i) \<longrightarrow> attentive (pc p' i)" using thr_rel_wake [OF r n(1) _ n(2)] by auto
    then have "0 < p_signals p \<or> (\<exists>j<length (p_threads p). attentive (pc p j))" using inv(1) n(1) by (auto simp: wake_inv_def)
    moreover have "attentive (pc p' j)" if "attentive (pc p j)" for j using that w(2) moves_pc [OF m] by (metis fun_upd_apply)
    ultimately show ?thesis by blast
  qed
  with inv(1) s moves_length [OF m] show ?thesis by (simp add: wake_inv_def)
qed

lemma destroy_step:
  assumes inv: "destroy_inv p" and i: "i < length (p_threads p)" and m: "moves i p p'"
    and r: "thr_rel i (p_shutdown p) (pc p i) (p_mutex p) (p_task_queue p) (pc p' i) (p_mutex p') (p_task_queue p')"
  shows "destroy_inv p'"
proof -
  have s: "p_shutdown p' = p_shutdown p" "p_destroy p' = p_destroy p" "p_freed p' = p_freed p" using m by (simp_all add: moves_def)
  have sh: "p_shutdown p" if "broadcast_done (p_destroy p)" using that inv by (cases "p_destroy p") (auto simp: destroy_inv_def)
  have ne: "pc p i \<noteq> L_exit" using r by (metis thr_rel_stuck(1))
  have "pc p' j \<noteq> L_dequeue_locked \<and> pc p' j \<noteq> L_wait \<and> pc p' j \<noteq> L_asleep"
    if b: "broadcast_done (p_destroy p)" "j < length (p_threads p)" for j
  proof (cases "j = i")
    case True
    have "pc p i \<noteq> L_dequeue_locked \<and> pc p i \<noteq> L_wait \<and> pc p i \<noteq> L_asleep" using inv b(1) i by (simp add: destroy_inv_def)
    with thr_rel_down [OF r sh [OF b(1)]] True show ?thesis by blast
  next
    case False
    then have "pc p' j = pc p j" using moves_pc [OF m] by (metis fun_upd_apply)
    with inv b show ?thesis by (simp add: destroy_inv_def)
  qed
  moreover have "pc p' j = L_exit" if "j < joined (p_destroy p) (length (p_threads p))" for j
  proof -
    have "pc p j = L_exit" using that inv by (simp add: destroy_inv_def)
    then show ?thesis using ne moves_pc [OF m] by (metis fun_upd_apply)
  qed
  ultimately show ?thesis using inv s moves_length [OF m] by (simp add: destroy_inv_def)
qed

lemma history_step:
  assumes inv: "history_inv p" and i: "i < length (p_threads p)" and m: "moves i p p'"
    and r: "thr_rel i (p_shutdown p) (pc p i) (p_mutex p) (p_task_queue p) (pc p' i) (p_mutex p') (p_task_queue p')"
  shows "history_inv p'"
proof -
  let ?d = "case pc p i of L_run t \<Rightarrow> [t] | _ \<Rightarrow> []" and ?t = "p_threads p' ! i"
  let ?hand = "\<lambda>p. sum_list (map (\<lambda>t. hand (t_pc t)) (p_threads p))" and ?unc = "\<lambda>p. sum_list (map (\<lambda>t. uncounted (t_pc t)) (p_threads p))"
  have mm: "p_threads p' = (p_threads p)[i := ?t]" "p_accepted p' = p_accepted p" "p_called p' = p_called p @ ?d"
      "t_task_count ?t = t_task_count (p_threads p ! i) + (if pc p i = L_called then 1 else 0)" using m by (simp_all add: moves_def)
  note upd = sum_list_upd [OF i, where x = ?t, folded mm(1)]
  have h: "?hand p' + hand (pc p i) = ?hand p + hand (pc p' i)" using upd [of "\<lambda>t. hand (t_pc t)"] by (simp add: pc_def)
  have u: "?unc p' + uncounted (pc p i) = ?unc p + uncounted (pc p' i)" using upd [of "\<lambda>t. uncounted (t_pc t)"] by (simp add: pc_def)
  have c: "thrpool_get_task_count p' = thrpool_get_task_count p + (if pc p i = L_called then 1 else 0)"
    using upd [of t_task_count] mm(4) by (simp add: thrpool_get_task_count_def algebra_simps)
  note t = thr_rel_tasks [OF r]
  from inv obtain taken where tk: "p_accepted p = taken @ queued p" by (auto simp: history_inv_def)
  from t obtain d where "queued p = d @ queued p'" by blast
  with tk mm(2) have "\<exists>taken. p_accepted p' = taken @ queued p'" by (metis append.assoc)
  moreover have "mset (p_accepted p') = mset (p_called p') + ?hand p' + mset (queued p')"
  proof -
    have "mset (p_accepted p) + hand (pc p i) = mset (p_called p) + ?hand p + (mset (queued p) + hand (pc p i))"
      using inv by (simp add: history_inv_def ac_simps)
    also have "\<dots> = mset (p_called p) + mset ?d + (?hand p + hand (pc p' i)) + mset (queued p')" using t by (simp add: ac_simps)
    also have "\<dots> = mset (p_called p') + ?hand p' + mset (queued p') + hand (pc p i)" using h mm(3) by (simp add: ac_simps)
    finally show ?thesis using mm(2) by simp
  qed
  moreover have "thrpool_get_task_count p' + of_nat (?unc p') = of_nat (length (p_called p'))"
  proof -
    have "of_nat (?unc p') + of_nat (uncounted (pc p i)) = of_nat (?unc p) + (of_nat (uncounted (pc p' i)) :: 32 word)"
      using arg_cong [OF u, of of_nat] by simp
    then have "thrpool_get_task_count p' + of_nat (?unc p') + of_nat (uncounted (pc p i)) =
        thrpool_get_task_count p + of_nat (?unc p) + of_nat (uncounted (pc p' i) + (if pc p i = L_called then 1 else 0))"
      unfolding c by (cases "pc p i = L_called") (simp_all add: algebra_simps)
    also have "\<dots> = of_nat (length (p_called p)) + of_nat (uncounted (pc p i) + length ?d)"
      using inv t by (simp add: history_inv_def)
    finally show ?thesis using mm(3) by (simp add: algebra_simps)
  qed
  ultimately show ?thesis by (simp add: history_inv_def)
qed

lemmas thread_step_inv = mutex_step queue_step wake_step destroy_step history_step

lemma thread_loop_inv:
  assumes inv: "pool_inv p" and i: "i < length (p_threads p)"
  shows "thread_loop i p = Spins \<or> (\<exists>p'. thread_loop i p = Done p' \<and> pool_inv p')"
proof -
  have "\<not> (p_freed p \<and> t_pc (p_threads p ! i) \<noteq> L_exit)"
    using inv i by (auto simp: pool_inv_def destroy_inv_def pc_def)
  then have "thread_loop i p = Spins \<or> (\<exists>p'. thread_loop i p = Done p')"
    unfolding thread_loop_def if_not_P
    by (cases "t_pc (p_threads p ! i)") (simp_all add: if_not_P take_task_def split: list.split)
  moreover have "pool_inv p'" if "thread_loop i p = Done p'" for p'
    using thread_loop_rel [OF that i] inv i thread_step_inv unfolding pool_inv_def by blast
  ultimately show ?thesis by blast
qed

subsection \<open>The other steps keep the invariant\<close>

lemma queue_invI:
  "p_task_queue p = map Some ts @ replicate k None \<Longrightarrow> k = 0 \<or> p_shutdown p \<Longrightarrow>
   (\<And>j. j < length (p_threads p) \<Longrightarrow> pc p j = L_exit \<Longrightarrow> ts = [] \<and> p_shutdown p) \<Longrightarrow>
   (\<And>j. j < length (p_threads p) \<Longrightarrow> pc p j = L_drain \<Longrightarrow> p_shutdown p) \<Longrightarrow> queue_inv p"
  unfolding queue_inv_def by blast

lemma queue_invE:
  assumes "queue_inv p"
  obtains ts k where "p_task_queue p = map Some ts @ replicate k None" "k = 0 \<or> p_shutdown p"
    "\<And>j. j < length (p_threads p) \<Longrightarrow> pc p j = L_exit \<Longrightarrow> ts = [] \<and> p_shutdown p"
    "\<And>j. j < length (p_threads p) \<Longrightarrow> pc p j = L_drain \<Longrightarrow> p_shutdown p"
  using assms unfolding queue_inv_def by blast

lemma wakeup_inv:
  assumes inv: "pool_inv p" and a: "asleep p i"
  shows "pool_inv (goto i L_relock p)"
proof -
  let ?p = "goto i L_relock p" and ?t = "(p_threads p ! i)\<lparr>t_pc := L_relock\<rparr>"
  from a have i: "i < length (p_threads p)" "pc p i = L_asleep" by (simp_all add: asleep_def pc_def)
  have th: "p_threads ?p = (p_threads p)[i := ?t]" by (simp add: goto_def)
  note upd = sum_list_upd [OF i(1), where x = ?t, folded th]
  have "sum_list (map (\<lambda>t. hand (t_pc t)) (p_threads ?p)) = sum_list (map (\<lambda>t. hand (t_pc t)) (p_threads p))"
    "sum_list (map (\<lambda>t. uncounted (t_pc t)) (p_threads ?p)) = sum_list (map (\<lambda>t. uncounted (t_pc t)) (p_threads p))"
    "sum_list (map t_task_count (p_threads ?p)) = sum_list (map t_task_count (p_threads p))"
    using upd [of "\<lambda>t. hand (t_pc t)"] upd [of "\<lambda>t. uncounted (t_pc t)"] upd [of t_task_count] i(2) by (simp_all add: pc_def uncounted_def)
  then have "history_inv ?p" using inv by (simp add: pool_inv_def history_inv_def thrpool_get_task_count_def)
  moreover have "mutex_inv ?p" using inv i by (auto simp: pool_inv_def mutex_inv_def pc_goto holds_mutex_def)
  moreover have "queue_inv ?p"
  proof -
    have "pc ?p j = L_exit \<longrightarrow> pc p j = L_exit" "pc ?p j = L_drain \<longrightarrow> pc p j = L_drain" for j using i by (simp_all add: pc_goto)
    moreover obtain ts k where "p_task_queue p = map Some ts @ replicate k None" "k = 0 \<or> p_shutdown p"
        "\<And>j. j < length (p_threads p) \<Longrightarrow> pc p j = L_exit \<Longrightarrow> ts = [] \<and> p_shutdown p"
        "\<And>j. j < length (p_threads p) \<Longrightarrow> pc p j = L_drain \<Longrightarrow> p_shutdown p"
      using inv unfolding pool_inv_def by (blast elim: queue_invE)
    ultimately show ?thesis by (intro queue_invI [of _ ts k]) simp_all
  qed
  moreover have "wake_inv ?p" using inv i by (auto simp: pool_inv_def wake_inv_def pc_goto attentive_def)
  moreover have "destroy_inv ?p"
  proof -
    have "\<not> broadcast_done (p_destroy p)" using inv i by (auto simp: pool_inv_def destroy_inv_def)
    then have "joined (p_destroy p) n = 0" for n by (cases "p_destroy p") simp_all
    with inv \<open>\<not> broadcast_done (p_destroy p)\<close> show ?thesis by (simp add: pool_inv_def destroy_inv_def)
  qed
  ultimately show ?thesis by (simp add: pool_inv_def)
qed

lemma enqueue_inv:
  assumes inv: "pool_inv p" and n: "\<not> p_shutdown p"
  shows "pool_inv (enqueue_task t p)"
proof -
  let ?p = "enqueue_task t p"
  have g: "p_threads ?p = p_threads p" "p_task_queue ?p = p_task_queue p @ [Some t]" "p_shutdown ?p = p_shutdown p" "p_mutex ?p = p_mutex p"
    "p_signals ?p = p_signals p + 1" "p_destroy ?p = p_destroy p" "p_freed ?p = p_freed p" "p_accepted ?p = p_accepted p @ [t]"
    "p_called ?p = p_called p" "pc ?p = pc p"
    by (simp_all add: enqueue_task_def pc_def fun_eq_iff)
  from inv n obtain ts where q: "p_task_queue p = map Some ts" "\<forall>i<length (p_threads p). pc p i \<noteq> L_exit \<and> pc p i \<noteq> L_drain"
    by (fastforce simp: pool_inv_def queue_inv_def)
  have "queue_inv ?p"
    unfolding queue_inv_def g using q n by (intro conjI exI [of _ "ts @ [t]"] exI [of _ 0]) auto
  moreover have "history_inv ?p"
    using inv by (auto simp: pool_inv_def history_inv_def g thrpool_get_task_count_def)
  ultimately show ?thesis
    using inv n unfolding pool_inv_def by (simp add: mutex_inv_def wake_inv_def destroy_inv_def g)
qed

lemma signals_inv:
  "mutex_inv (p\<lparr>p_signals := n\<rparr>) = mutex_inv p" "queue_inv (p\<lparr>p_signals := n\<rparr>) = queue_inv p"
  "destroy_inv (p\<lparr>p_signals := n\<rparr>) = destroy_inv p" "history_inv (p\<lparr>p_signals := n\<rparr>) = history_inv p"
  by (simp_all add: mutex_inv_def queue_inv_def destroy_inv_def history_inv_def thrpool_get_task_count_def)

lemma signal_inv:
  assumes inv: "pool_inv p" and ok: "pool_ok (P_signal i) p"
  shows "wake_any_one_thread i p = Spins \<or> (\<exists>p'. wake_any_one_thread i p = Done p' \<and> pool_inv p')"
proof (cases "p_mutex p = None")
  case True
  let ?w = "if asleep p i then goto i L_relock p else p"
  have w: "pool_inv ?w" using inv wakeup_inv by simp
  have sg: "0 < p_signals p" using ok by simp
  then have n: "\<not> p_shutdown p" using inv by (auto simp: pool_inv_def wake_inv_def)
  have "\<exists>j<length (p_threads p). attentive (pc ?w j)"
  proof (cases "asleep p i")
    case True
    then show ?thesis by (intro exI [of _ i]) (simp add: asleep_def pc_goto attentive_def)
  next
    case False
    have pos: "0 < length (p_threads p)" using inv by (simp add: pool_inv_def mutex_inv_def)
    have "pc p 0 \<noteq> L_asleep" using False ok pos by (auto simp: list_ex_iff pc_def)
    moreover have "pc p 0 \<noteq> L_wait" using inv pos \<open>p_mutex p = None\<close> by (auto simp: pool_inv_def mutex_inv_def holds_mutex_def)
    moreover have "pc p 0 \<noteq> L_exit" using inv pos n by (auto simp: pool_inv_def queue_inv_def)
    ultimately show ?thesis using False pos by (auto simp: attentive_def)
  qed
  then have "wake_inv (?w\<lparr>p_signals := p_signals p - 1\<rparr>)"
    using n by (cases "asleep p i") (simp_all add: wake_inv_def)
  then have "pool_inv (?w\<lparr>p_signals := p_signals p - 1\<rparr>)" using w by (simp add: pool_inv_def signals_inv)
  with True show ?thesis by (simp add: wake_any_one_thread_def)
qed (simp add: wake_any_one_thread_def)

lemma broadcast_pc:
  assumes "i < length (p_threads p)"
  shows "pc (p\<lparr>p_threads := map (\<lambda>t. if t_pc t = L_asleep then t\<lparr>t_pc := L_relock\<rparr> else t) (p_threads p), p_destroy := d\<rparr>) i =
    (if pc p i = L_asleep then L_relock else pc p i)"
  using assms by (simp add: pc_def)

lemma broadcast_inv:
  assumes inv: "pool_inv p" and d: "p_destroy p = D_broadcast" and m: "p_mutex p = None"
    and p': "p' = p\<lparr>p_threads := map (\<lambda>t. if t_pc t = L_asleep then t\<lparr>t_pc := L_relock\<rparr> else t) (p_threads p), p_destroy := D_join 0\<rparr>"
  shows "pool_inv p'"
proof -
  have g: "length (p_threads p') = length (p_threads p)" "p_task_queue p' = p_task_queue p" "p_shutdown p' = p_shutdown p" "p_mutex p' = None"
    "p_signals p' = p_signals p" "p_destroy p' = D_join 0" "p_freed p' = p_freed p" "p_accepted p' = p_accepted p" "p_called p' = p_called p"
    using m by (simp_all add: p')
  have pc': "pc p' i = (if pc p i = L_asleep then L_relock else pc p i)" if "i < length (p_threads p)" for i
    using that broadcast_pc [of i p "D_join 0"] by (simp add: p')
  have sh: "p_shutdown p" "\<not> p_freed p" using inv d by (simp_all add: pool_inv_def destroy_inv_def)
  have nh: "\<not> holds_mutex (pc p i)" if "i < length (p_threads p)" for i using inv m that by (simp add: pool_inv_def mutex_inv_def)
  have "mutex_inv p'" using inv m pc' nh by (auto simp: pool_inv_def mutex_inv_def g holds_mutex_def)
  moreover have "queue_inv p'"
  proof -
    obtain ts k where "p_task_queue p = map Some ts @ replicate k None" "k = 0 \<or> p_shutdown p"
        "\<And>j. j < length (p_threads p) \<Longrightarrow> pc p j = L_exit \<Longrightarrow> ts = [] \<and> p_shutdown p"
        "\<And>j. j < length (p_threads p) \<Longrightarrow> pc p j = L_drain \<Longrightarrow> p_shutdown p"
      using inv unfolding pool_inv_def by (blast elim: queue_invE)
    then show ?thesis by (intro queue_invI [of _ ts k]) (auto simp: g pc' split: if_splits)
  qed
  moreover have "wake_inv p'" using inv sh by (simp add: pool_inv_def wake_inv_def g)
  moreover have "destroy_inv p'" using nh sh by (auto simp: destroy_inv_def g pc' holds_mutex_def)
  moreover have "history_inv p'"
  proof -
    have "map (\<lambda>t. hand (t_pc t)) (p_threads p') = map (\<lambda>t. hand (t_pc t)) (p_threads p)"
      "map (\<lambda>t. uncounted (t_pc t)) (p_threads p') = map (\<lambda>t. uncounted (t_pc t)) (p_threads p)"
      "map t_task_count (p_threads p') = map t_task_count (p_threads p)"
      by (simp_all add: p' uncounted_def)
    with inv show ?thesis by (simp add: pool_inv_def history_inv_def thrpool_get_task_count_def g)
  qed
  ultimately show ?thesis by (simp add: pool_inv_def)
qed

lemma destroy_upd_inv:
  "mutex_inv (p\<lparr>p_destroy := d\<rparr>) = mutex_inv p" "queue_inv (p\<lparr>p_destroy := d\<rparr>) = queue_inv p"
  "wake_inv (p\<lparr>p_destroy := d\<rparr>) = wake_inv p" "history_inv (p\<lparr>p_destroy := d\<rparr>) = history_inv p"
  by (simp_all add: mutex_inv_def queue_inv_def wake_inv_def history_inv_def thrpool_get_task_count_def)

lemma shutdown_inv:
  assumes inv: "pool_inv p" and n: "\<not> p_shutdown p" "p_signals p = 0"
  shows "pool_inv (p\<lparr>p_shutdown := True, p_destroy := D_nulls k\<rparr>)"
proof -
  let ?p = "p\<lparr>p_shutdown := True, p_destroy := D_nulls k\<rparr>"
  obtain ts k where q: "p_task_queue p = map Some ts @ replicate k None"
      "\<And>j. j < length (p_threads p) \<Longrightarrow> pc p j = L_exit \<Longrightarrow> ts = [] \<and> p_shutdown p"
    using inv unfolding pool_inv_def by (blast elim: queue_invE)
  then have "queue_inv ?p" by (intro queue_invI [of _ ts k]) simp_all
  moreover have "destroy_inv ?p" using inv n by (auto simp: pool_inv_def destroy_inv_def)
  ultimately show ?thesis
    using inv n(2) by (simp add: pool_inv_def mutex_inv_def wake_inv_def history_inv_def thrpool_get_task_count_def)
qed

lemma null_inv:
  assumes inv: "pool_inv p" and d: "p_destroy p = D_nulls (Suc k)"
  shows "pool_inv (p\<lparr>p_task_queue := p_task_queue p @ [None], p_destroy := D_nulls k\<rparr>)"
proof -
  let ?p = "p\<lparr>p_task_queue := p_task_queue p @ [None], p_destroy := D_nulls k\<rparr>"
  have sh: "p_shutdown p" using inv d by (simp add: pool_inv_def destroy_inv_def)
  obtain ts n where "p_task_queue p = map Some ts @ replicate n None"
      "\<And>j. j < length (p_threads p) \<Longrightarrow> pc p j = L_exit \<Longrightarrow> ts = [] \<and> p_shutdown p"
    using inv unfolding pool_inv_def by (blast elim: queue_invE)
  with sh have "queue_inv ?p" by (intro queue_invI [of _ ts "Suc n"]) (simp_all add: replicate_append_same)
  moreover have "destroy_inv ?p" using inv d by (auto simp: pool_inv_def destroy_inv_def)
  ultimately show ?thesis
    using inv sh by (simp add: pool_inv_def mutex_inv_def wake_inv_def history_inv_def thrpool_get_task_count_def)
qed

lemma free_inv:
  assumes inv: "pool_inv p" and d: "p_destroy p = D_join i" "length (p_threads p) \<le> i"
  shows "pool_inv (free_thread_pool p)"
proof -
  let ?p = "free_thread_pool p"
  have sh: "p_shutdown p" and ex: "\<forall>j<length (p_threads p). pc p j = L_exit" and pos: "0 < length (p_threads p)"
    using inv d by (auto simp: pool_inv_def destroy_inv_def mutex_inv_def)
  have g: "p_threads ?p = p_threads p" "p_task_queue ?p = []" "p_shutdown ?p = p_shutdown p" "p_mutex ?p = p_mutex p" "p_signals ?p = p_signals p"
    "p_destroy ?p = D_done" "p_freed ?p" "p_accepted ?p = p_accepted p" "p_called ?p = p_called p" "pc ?p = pc p"
    by (simp_all add: free_thread_pool_def pc_def fun_eq_iff)
  obtain ts k where "p_task_queue p = map Some ts @ replicate k None"
      "\<And>j. j < length (p_threads p) \<Longrightarrow> pc p j = L_exit \<Longrightarrow> ts = [] \<and> p_shutdown p"
    using inv unfolding pool_inv_def by (blast elim: queue_invE)
  with ex pos have "queued p = []" by auto
  then have "history_inv ?p" using inv by (simp add: pool_inv_def history_inv_def g thrpool_get_task_count_def)
  moreover have "queue_inv ?p" using sh by (intro queue_invI [of _ "[]" 0]) (simp_all add: g)
  moreover have "destroy_inv ?p" using sh ex by (simp add: destroy_inv_def g)
  ultimately show ?thesis using inv by (simp add: pool_inv_def mutex_inv_def wake_inv_def g sh)
qed

lemma destroy_thread_pool_inv:
  assumes inv: "pool_inv p" and ok: "pool_ok P_destroy p"
  shows "destroy_thread_pool p = Spins \<or> (\<exists>p'. destroy_thread_pool p = Done p' \<and> pool_inv p')"
proof (cases "p_destroy p")
  case D_idle
  then have "\<not> p_shutdown p" using inv by (simp add: pool_inv_def destroy_inv_def)
  with D_idle ok shutdown_inv [OF inv] show ?thesis by (simp add: destroy_thread_pool_def destroy_enter_def)
next
  case (D_nulls k)
  then have sh: "p_shutdown p" "\<not> p_freed p" using inv by (simp_all add: pool_inv_def destroy_inv_def)
  show ?thesis
  proof (cases k)
    case 0
    have "destroy_inv (p\<lparr>p_destroy := D_broadcast\<rparr>)" using sh by (simp add: destroy_inv_def)
    with 0 D_nulls inv show ?thesis by (simp add: destroy_thread_pool_def wake_all_threads_def pool_inv_def destroy_upd_inv)
  next
    case (Suc k')
    with D_nulls null_inv [OF inv, of k'] show ?thesis by (simp add: destroy_thread_pool_def wake_all_threads_def)
  qed
next
  case D_broadcast
  with broadcast_inv [OF inv D_broadcast _ refl] show ?thesis by (simp add: destroy_thread_pool_def wake_all_threads_def)
next
  case (D_join i)
  show ?thesis
  proof (cases "i < length (p_threads p)")
    case True
    have "pool_inv (p\<lparr>p_destroy := D_join (i + 1)\<rparr>)" if e: "t_pc (p_threads p ! i) = L_exit"
    proof -
      have "destroy_inv (p\<lparr>p_destroy := D_join (i + 1)\<rparr>)"
        using inv D_join True e by (auto simp: pool_inv_def destroy_inv_def pc_def less_Suc_eq)
      with inv show ?thesis by (simp add: pool_inv_def destroy_upd_inv)
    qed
    with True D_join show ?thesis by (simp add: destroy_thread_pool_def)
  next
    case False
    with D_join free_inv [OF inv D_join] show ?thesis by (simp add: destroy_thread_pool_def)
  qed
next
  case D_done
  then show ?thesis by (simp add: destroy_thread_pool_def)
qed

subsection \<open>The pool as a guarded system\<close>

lemma create_inv: "create_thread_pool n = Inr p \<Longrightarrow> pool_inv p"
proof -
  assume "create_thread_pool n = Inr p"
  then have n: "0 < nat n" and p: "p = \<lparr>p_threads = replicate (nat n) \<lparr>t_pc = L_load, t_state = THREAD_FREE, t_task_count = 0\<rparr>,
      p_task_queue = [], p_shutdown = False, p_cond_count = 0, p_mutex = None, p_signals = 0, p_destroy = D_idle, p_freed = False,
      p_accepted = [], p_called = []\<rparr>"
    by (auto simp: create_thread_pool_def split: if_splits)
  have pc: "pc p i = L_load" if "i < nat n" for i using that by (simp add: pc_def p)
  have "queue_inv p" by (rule queue_invI [of _ "[]" 0]) (use pc in \<open>auto simp: p\<close>)
  moreover have "mutex_inv p" using n pc by (auto simp: mutex_inv_def holds_mutex_def p)
  moreover have "sum_list (replicate k ({#} :: task multiset)) = {#}" for k by (induction k) simp_all
  then have "sum_list (map (\<lambda>t. hand (t_pc t)) (p_threads p)) = {#}" by (simp add: p)
  then have "history_inv p" by (simp add: history_inv_def thrpool_get_task_count_def p uncounted_def sum_list_replicate)
  ultimately show ?thesis by (simp add: pool_inv_def) (simp add: wake_inv_def destroy_inv_def p)
qed

interpretation pool: guarded_system "pool_start n" pool_ok pool_exec id pool_inv for n
proof
  show "pool_inv p" if "pool_start n p" for p using that by (auto simp: pool_start_def intro: create_inv)
  show "pool_exec op p = Spins \<or> (\<exists>p'. pool_exec op p = Done p' \<and> pool_inv (id p'))" if "pool_inv p" "pool_ok op p" for op p
  proof (cases op)
    case (P_thread i)
    with that thread_loop_inv show ?thesis by simp
  next
    case (P_wakeup i)
    with that wakeup_inv show ?thesis by simp
  next
    case (P_enqueue t)
    with that enqueue_inv show ?thesis by simp
  next
    case (P_signal i)
    with that signal_inv show ?thesis by (simp del: pool_ok.simps)
  next
    case P_destroy
    with that destroy_thread_pool_inv show ?thesis by (simp del: pool_ok.simps)
  qed
qed

lemma pool_reach_inv: "pool_reach n p \<Longrightarrow> pool_inv p"
  unfolding pool_reach_def by (rule pool.reach_inv)

lemma pool_reach_step: "pool_reach n p \<Longrightarrow> pool_ok op p \<Longrightarrow> pool_exec op p = Done p' \<Longrightarrow> pool_reach n p'"
  unfolding pool_reach_def using reach_step [of "pool_start n" pool_ok pool_exec id p op p'] by simp

subsection \<open>Progress\<close>

text \<open>The steps a thread can make before it sleeps or ends, and ten for every element it may still find.\<close>

fun rank :: "thr_pc \<Rightarrow> nat" where
  "rank L_load = 6" | "rank L_dequeue = 5" | "rank L_lock = 4" | "rank L_check = 3" | "rank L_dequeue_locked = 2" | "rank L_wait = 1"
| "rank L_asleep = 0" | "rank L_relock = 9" | "rank L_unlock = 8" | "rank L_dequeue_woken = 7" | "rank L_reload = 6" | "rank L_drain = 1"
| "rank (L_run t) = 8" | "rank L_called = 7" | "rank L_exit = 0"

definition pool_work :: "thread_pool \<Rightarrow> nat" where
  "pool_work p = 10 * length (p_task_queue p) + sum_list (map (\<lambda>t. rank (t_pc t)) (p_threads p))"

lemma thr_rel_work: "thr_rel i sh x m q x' m' q' \<Longrightarrow> 10 * length q' + rank x' < 10 * length q + rank x"
  by (induction rule: thr_rel.induct) auto

lemma thread_loop_work:
  assumes "thread_loop i p = Done p'" "i < length (p_threads p)"
  shows "pool_work p' < pool_work p"
proof -
  note r = thread_loop_rel [OF assms]
  then have th: "p_threads p' = (p_threads p)[i := p_threads p' ! i]" by (simp add: moves_def)
  have "10 * length (p_task_queue p') + rank (pc p' i) < 10 * length (p_task_queue p) + rank (pc p i)" using r thr_rel_work by blast
  moreover have "sum_list (map (\<lambda>t. rank (t_pc t)) (p_threads p')) + rank (pc p i) = sum_list (map (\<lambda>t. rank (t_pc t)) (p_threads p)) + rank (pc p' i)"
    using sum_list_upd [OF assms(2), where x = "p_threads p' ! i" and f = "\<lambda>t. rank (t_pc t)", folded th] by (simp add: pc_def)
  ultimately show ?thesis by (simp add: pool_work_def)
qed

text \<open>The threads take turns; one that cannot move passes.\<close>

definition turn :: "nat \<Rightarrow> thread_pool \<Rightarrow> thread_pool" where
  "turn i p = (case thread_loop i p of Done p' \<Rightarrow> p' | _ \<Rightarrow> p)"

definition round_of :: "thread_pool \<Rightarrow> thread_pool" where
  "round_of p = fold turn [0..<length (p_threads p)] p"

fun rounds :: "nat \<Rightarrow> thread_pool \<Rightarrow> thread_pool" where
  "rounds 0 p = p"
| "rounds (Suc k) p = rounds k (round_of p)"

definition stuck :: "thread_pool \<Rightarrow> bool" where
  "stuck p \<longleftrightarrow> (\<forall>i<length (p_threads p). thread_loop i p = Spins)"

text \<open>What a turn keeps.\<close>

definition same_calls :: "thread_pool \<Rightarrow> thread_pool \<Rightarrow> bool" where
  "same_calls p p' \<longleftrightarrow>
     pool_inv p' \<and> length (p_threads p') = length (p_threads p) \<and> p_shutdown p' = p_shutdown p \<and> p_signals p' = p_signals p \<and>
     p_destroy p' = p_destroy p \<and> p_accepted p' = p_accepted p"

lemma turn_step:
  assumes inv: "pool_inv p" and i: "i < length (p_threads p)"
  shows "same_calls p (turn i p)" "turn i p = p \<and> thread_loop i p = Spins \<or> pool_work (turn i p) < pool_work p"
proof -
  from thread_loop_inv [OF inv i] consider "thread_loop i p = Spins" | p' where "thread_loop i p = Done p'" "pool_inv p'" by blast
  then have "same_calls p (turn i p) \<and> (turn i p = p \<and> thread_loop i p = Spins \<or> pool_work (turn i p) < pool_work p)"
  proof cases
    case 1
    with inv show ?thesis by (simp add: turn_def same_calls_def)
  next
    case 2
    from thread_loop_rel [OF 2(1) i] have m: "moves i p p'" by blast
    with 2 thread_loop_work [OF 2(1) i] moves_length [OF m] show ?thesis by (simp add: turn_def same_calls_def moves_def)
  qed
  then show "same_calls p (turn i p)" "turn i p = p \<and> thread_loop i p = Spins \<or> pool_work (turn i p) < pool_work p" by simp_all
qed

lemma turns_step:
  assumes "pool_inv p" "\<forall>i\<in>set is. i < length (p_threads p)"
  shows "same_calls p (fold turn is p) \<and>
    (fold turn is p = p \<and> (\<forall>i\<in>set is. thread_loop i p = Spins) \<or> pool_work (fold turn is p) < pool_work p)"
  using assms
proof (induction "is" arbitrary: p)
  case Nil
  then show ?case by (simp add: same_calls_def)
next
  case (Cons i "is")
  have i: "i < length (p_threads p)" using Cons.prems(2) by simp
  note t = turn_step [OF Cons.prems(1) i]
  have "same_calls (turn i p) (fold turn is (turn i p)) \<and>
    (fold turn is (turn i p) = turn i p \<and> (\<forall>j\<in>set is. thread_loop j (turn i p) = Spins) \<or>
     pool_work (fold turn is (turn i p)) < pool_work (turn i p))"
    by (rule Cons.IH) (use t(1) Cons.prems(2) in \<open>simp_all add: same_calls_def\<close>)
  with t show ?case by (auto simp: same_calls_def)
qed

lemma rounds_settle:
  assumes "pool_inv p" "pool_work p \<le> k"
  shows "same_calls p (rounds k p) \<and> stuck (rounds k p)"
  using assms
proof (induction k arbitrary: p)
  case 0
  have "stuck p"
    unfolding stuck_def
  proof (intro allI impI)
    fix i assume i: "i < length (p_threads p)"
    show "thread_loop i p = Spins" using turn_step(2) [OF 0(1) i] 0(2) by auto
  qed
  with 0 show ?case by (simp add: same_calls_def)
next
  case (Suc k)
  have all: "\<forall>i\<in>set [0..<length (p_threads p)]. i < length (p_threads p)" by simp
  note r = turns_step [OF Suc.prems(1) all, folded round_of_def]
  have inv': "pool_inv (round_of p)" using r by (simp add: same_calls_def)
  show ?case
  proof (cases "pool_work (round_of p) \<le> k")
    case True
    with Suc.IH [OF inv' True] r show ?thesis by (simp add: same_calls_def)
  next
    case False
    then have st: "round_of p = p" "stuck p" using r Suc.prems(2) by (auto simp: stuck_def)
    then have "rounds j p = p" for j by (induction j) simp_all
    with st Suc.prems(1) show ?thesis by (simp add: same_calls_def)
  qed
qed

text \<open>Threads that cannot move sleep or have ended: nobody waits for the mutex for ever.\<close>

lemma stuck_pcs:
  assumes inv: "pool_inv p" and st: "stuck p" and i: "i < length (p_threads p)"
  shows "pc p i = L_asleep \<or> pc p i = L_exit"
proof -
  have sp: "thread_loop j p = Spins" if "j < length (p_threads p)" for j using st that by (simp add: stuck_def)
  have fr: "\<not> (p_freed p \<and> t_pc (p_threads p ! j) \<noteq> L_exit)" if "j < length (p_threads p)" for j
    using inv that by (auto simp: pool_inv_def destroy_inv_def pc_def)
  have m: "p_mutex p = None"
  proof (rule ccontr)
    assume "p_mutex p \<noteq> None"
    then obtain j where j: "p_mutex p = Some j" by auto
    then have "j < length (p_threads p)" "holds_mutex (pc p j)" using inv by (auto simp: pool_inv_def mutex_inv_def)
    then show False
      using sp [of j] fr [of j] by (auto simp: thread_loop_def pc_def holds_mutex_def take_task_def split: list.splits if_splits)
  qed
  show ?thesis
    using sp [OF i] fr [OF i] m
    by (cases "t_pc (p_threads p ! i)") (auto simp: thread_loop_def pc_def take_task_def split: list.splits if_splits)
qed

lemma stuck_done:
  assumes inv: "pool_inv p" and st: "stuck p" and sg: "p_signals p = 0" "p_destroy p = D_idle \<or> broadcast_done (p_destroy p)"
  shows "mset (p_called p) = mset (p_accepted p)" "thrpool_get_task_count p = of_nat (length (p_accepted p))"
    "p_shutdown p \<Longrightarrow> \<forall>i<length (p_threads p). pc p i = L_exit"
proof -
  note s = stuck_pcs [OF inv st]
  show down: "\<forall>i<length (p_threads p). pc p i = L_exit" if "p_shutdown p"
    using that s inv sg(2) by (auto simp: pool_inv_def destroy_inv_def)
  have q: "queued p = []"
  proof (cases "p_shutdown p")
    case True
    obtain ts k where "p_task_queue p = map Some ts @ replicate k None"
        "\<And>j. j < length (p_threads p) \<Longrightarrow> pc p j = L_exit \<Longrightarrow> ts = [] \<and> p_shutdown p"
      using inv unfolding pool_inv_def by (blast elim: queue_invE)
    moreover have "0 < length (p_threads p)" using inv by (simp add: pool_inv_def mutex_inv_def)
    ultimately show ?thesis using down [OF True] by auto
  next
    case False
    have "\<not> (\<exists>i<length (p_threads p). attentive (pc p i))" using s by (auto simp: attentive_def)
    with False sg(1) inv have "p_task_queue p = []" by (auto simp: pool_inv_def wake_inv_def)
    then show ?thesis by simp
  qed
  have sp: "t_pc t = L_asleep \<or> t_pc t = L_exit" if "t \<in> set (p_threads p)" for t
    using that s by (auto simp: in_set_conv_nth pc_def)
  have "sum_list (map (\<lambda>t. hand (t_pc t)) xs) = {#}" "sum_list (map (\<lambda>t. uncounted (t_pc t)) xs) = 0"
    if "set xs \<subseteq> set (p_threads p)" for xs
    using that by (induction xs) (auto simp: uncounted_def dest!: sp)
  then have z: "sum_list (map (\<lambda>t. hand (t_pc t)) (p_threads p)) = {#}" "sum_list (map (\<lambda>t. uncounted (t_pc t)) (p_threads p)) = 0" by blast+
  show m: "mset (p_called p) = mset (p_accepted p)" using inv q z by (simp add: pool_inv_def history_inv_def)
  then have "length (p_called p) = length (p_accepted p)" by (metis size_mset)
  then show "thrpool_get_task_count p = of_nat (length (p_accepted p))"
    using inv z by (simp add: pool_inv_def history_inv_def)
qed

fun destroy_steps :: "nat \<Rightarrow> thread_pool \<Rightarrow> thread_pool outcome" where
  "destroy_steps 0 p = Done p"
| "destroy_steps (Suc k) p = obind (destroy_thread_pool p) (destroy_steps k)"

lemma joins_finish:
  assumes "\<forall>i<length (p_threads p). pc p i = L_exit" "p_destroy p = D_join j" "j + k = length (p_threads p)"
  shows "\<exists>p'. destroy_steps (Suc k) p = Done p' \<and> p_freed p' \<and> p_called p' = p_called p \<and> p_accepted p' = p_accepted p"
  using assms
proof (induction k arbitrary: p j)
  case 0
  then show ?case by (simp add: destroy_thread_pool_def free_thread_pool_def)
next
  case (Suc k)
  let ?p = "p\<lparr>p_destroy := D_join (j + 1)\<rparr>"
  have "destroy_thread_pool p = Done ?p" using Suc.prems by (simp add: destroy_thread_pool_def pc_def)
  moreover have "\<exists>p'. destroy_steps (Suc k) ?p = Done p' \<and> p_freed p' \<and> p_called p' = p_called ?p \<and> p_accepted p' = p_accepted ?p"
    by (rule Suc.IH [of _ "j + 1"]) (use Suc.prems in simp_all)
  ultimately show ?case by simp
qed

subsection \<open>A concrete pool\<close>

text \<open>Two threads and one task, its caller done; and the same pool when its destruction has begun.\<close>

definition demo_pool :: "pool_op list \<Rightarrow> thread_pool" where
  "demo_pool ops = fold (\<lambda>op p. case pool_exec op p of Done p' \<Rightarrow> p' | _ \<Rightarrow> p) ops (projr (create_thread_pool 2))"

lemma demo_reach:
  assumes "pool_reach 2 (demo_pool ops)" "pool_ok op (demo_pool ops)" "pool_exec op (demo_pool ops) = Done p'"
  shows "pool_reach 2 (demo_pool (ops @ [op]))" "demo_pool (ops @ [op]) = p'"
proof -
  show "demo_pool (ops @ [op]) = p'" using assms(3) by (simp add: demo_pool_def)
  with pool_reach_step [OF assms] show "pool_reach 2 (demo_pool (ops @ [op]))" by simp
qed

lemma demo_task: "pool_reach 2 (demo_pool [P_enqueue (Task 7 5), P_signal 0])"
  "p_signals (demo_pool [P_enqueue (Task 7 5), P_signal 0]) = 0" "p_destroy (demo_pool [P_enqueue (Task 7 5), P_signal 0]) = D_idle"
  "p_accepted (demo_pool [P_enqueue (Task 7 5), P_signal 0]) = [Task 7 5]"
proof -
  have 0: "pool_reach 2 (demo_pool [])"
    unfolding pool_reach_def by (rule reach_start) (simp add: pool_start_def create_thread_pool_def demo_pool_def)
  have 1: "pool_reach 2 (demo_pool ([] @ [P_enqueue (Task 7 5)]))"
    by (rule demo_reach(1) [OF 0]) (simp_all add: demo_pool_def create_thread_pool_def)
  have "pool_reach 2 (demo_pool ([P_enqueue (Task 7 5)] @ [P_signal 0]))"
    by (rule demo_reach(1)) (use 1 in \<open>simp_all add: demo_pool_def create_thread_pool_def wake_any_one_thread_def
        enqueue_task_def asleep_def numeral_2_eq_2\<close>)
  then show "pool_reach 2 (demo_pool [P_enqueue (Task 7 5), P_signal 0])" by simp
  show "p_signals (demo_pool [P_enqueue (Task 7 5), P_signal 0]) = 0" "p_destroy (demo_pool [P_enqueue (Task 7 5), P_signal 0]) = D_idle"
    "p_accepted (demo_pool [P_enqueue (Task 7 5), P_signal 0]) = [Task 7 5]"
    by (simp_all add: demo_pool_def create_thread_pool_def wake_any_one_thread_def enqueue_task_def asleep_def numeral_2_eq_2)
qed

subsection \<open>What the pool promises\<close>



text \<open>
  C20. No task is lost or run twice, and tasks are taken in the order they came: at any moment the tasks given to the
  pool are those that were called, those in the hands of a thread and those in the queue, which are the latest ones.
\<close>

theorem tasks_conserved:
  assumes "pool_reach n p"
  shows "mset (p_accepted p) = mset (p_called p) + sum_list (map (\<lambda>t. hand (t_pc t)) (p_threads p)) + mset (queued p) \<and>
    (\<exists>taken. p_accepted p = taken @ queued p)"
  using pool_reach_inv [OF assms] by (simp add: pool_inv_def history_inv_def)

theorem tasks_conserved_witness: "\<exists>taken. [Task 7 5] = taken @ queued (demo_pool [P_enqueue (Task 7 5), P_signal 0])"
  using tasks_conserved [OF demo_task(1)] by (simp add: demo_task(4))

text \<open>
  C19. No wake-up is lost: while the queue holds a task, a caller is still about to wake a thread, or some thread will
  look at the queue again before it sleeps.
\<close>

theorem no_lost_wakeup:
  assumes "pool_reach n p" "\<not> p_shutdown p" "p_task_queue p \<noteq> []"
  shows "0 < p_signals p \<or> (\<exists>i<length (p_threads p). attentive (pc p i))"
  using pool_reach_inv [OF assms(1)] assms(2,3) by (simp add: pool_inv_def wake_inv_def)

theorem no_lost_wakeup_witness:
  "\<exists>i<length (p_threads (demo_pool [P_enqueue (Task 7 5), P_signal 0])). attentive (pc (demo_pool [P_enqueue (Task 7 5), P_signal 0]) i)"
proof -
  have "\<not> p_shutdown (demo_pool [P_enqueue (Task 7 5), P_signal 0])" "p_task_queue (demo_pool [P_enqueue (Task 7 5), P_signal 0]) \<noteq> []"
    by (simp_all add: demo_pool_def create_thread_pool_def wake_any_one_thread_def enqueue_task_def asleep_def numeral_2_eq_2)
  from no_lost_wakeup [OF demo_task(1) this] demo_task(2) show ?thesis by simp
qed

text \<open>
  C18. Every task is run: once the callers of \<open>enqueue_task\<close> have returned, as many rounds of the threads as the work left
  weighs bring the pool to rest with every task called exactly once and counted by \<open>thrpool_get_task_count\<close>; and if
  the pool is being destroyed and its threads are told, all of them have ended.
\<close>

theorem pool_runs_all_tasks:
  assumes r: "pool_reach n p" and sg: "p_signals p = 0" "p_destroy p = D_idle \<or> broadcast_done (p_destroy p)" and k: "pool_work p \<le> k"
  shows "mset (p_called (rounds k p)) = mset (p_accepted p) \<and>
    thrpool_get_task_count (rounds k p) = of_nat (length (p_accepted p)) \<and>
    (p_shutdown p \<longrightarrow> (\<forall>i<length (p_threads p). pc (rounds k p) i = L_exit))"
proof -
  from rounds_settle [OF pool_reach_inv [OF r] k] have s: "same_calls p (rounds k p)" "stuck (rounds k p)" by simp_all
  then show ?thesis using stuck_done [of "rounds k p"] sg by (auto simp: same_calls_def)
qed

theorem pool_runs_all_tasks_witness: "p_called (rounds 40 (demo_pool [P_enqueue (Task 7 5), P_signal 0])) = [Task 7 5]"
proof -
  have "pool_work (demo_pool [P_enqueue (Task 7 5), P_signal 0]) \<le> 40"
    by (simp add: pool_work_def demo_pool_def create_thread_pool_def wake_any_one_thread_def enqueue_task_def asleep_def numeral_2_eq_2)
  from pool_runs_all_tasks [OF demo_task(1,2) _ this] demo_task(3,4)
  have "mset (p_called (rounds 40 (demo_pool [P_enqueue (Task 7 5), P_signal 0]))) = {#Task 7 5#}" by simp
  then show ?thesis by (metis mset_single_iff_right)
qed

text \<open>
  C22. \<open>destroy_thread_pool\<close> returns: once its broadcast is made, enough rounds of the threads let it join all of them and
  free the pool, and every task the pool was given has been called.
\<close>

theorem destroy_returns:
  assumes r: "pool_reach n p" and d: "p_destroy p = D_join 0" and k: "pool_work p \<le> k"
  shows "\<exists>p'. destroy_steps (Suc (length (p_threads p))) (rounds k p) = Done p' \<and> p_freed p' \<and> mset (p_called p') = mset (p_accepted p)"
proof -
  note inv = pool_reach_inv [OF r]
  have sh: "p_shutdown p" "p_signals p = 0" using inv d by (auto simp: pool_inv_def destroy_inv_def wake_inv_def)
  have s: "same_calls p (rounds k p)" "stuck (rounds k p)" using rounds_settle [OF inv k] by simp_all
  then have e: "\<forall>i<length (p_threads (rounds k p)). pc (rounds k p) i = L_exit" "mset (p_called (rounds k p)) = mset (p_accepted p)"
    using stuck_done [of "rounds k p"] sh d by (auto simp: same_calls_def)
  have "p_destroy (rounds k p) = D_join 0" "length (p_threads (rounds k p)) = length (p_threads p)"
    using s(1) d by (simp_all add: same_calls_def)
  from joins_finish [OF e(1) this(1), of "length (p_threads p)"] this(2) e(2) show ?thesis by auto
qed

theorem destroy_returns_witness:
  "\<exists>p'. destroy_steps 3 (rounds 100 (demo_pool [P_enqueue (Task 7 5), P_signal 0, P_destroy, P_destroy, P_destroy, P_destroy, P_destroy])) = Done p' \<and>
     p_freed p' \<and> p_called p' = [Task 7 5]"
proof -
  let ?o = "[P_enqueue (Task 7 5), P_signal 0]"
  note eval = demo_pool_def create_thread_pool_def wake_any_one_thread_def enqueue_task_def asleep_def numeral_2_eq_2
    destroy_thread_pool_def destroy_enter_def wake_all_threads_def
  have 1: "pool_reach 2 (demo_pool (?o @ [P_destroy]))" by (rule demo_reach(1) [OF demo_task(1)]) (simp_all add: eval)
  have 2: "pool_reach 2 (demo_pool ((?o @ [P_destroy]) @ [P_destroy]))" by (rule demo_reach(1) [OF 1]) (simp_all add: eval)
  have 3: "pool_reach 2 (demo_pool (((?o @ [P_destroy]) @ [P_destroy]) @ [P_destroy]))" by (rule demo_reach(1) [OF 2]) (simp_all add: eval)
  have 4: "pool_reach 2 (demo_pool ((((?o @ [P_destroy]) @ [P_destroy]) @ [P_destroy]) @ [P_destroy]))"
    by (rule demo_reach(1) [OF 3]) (simp_all add: eval)
  have 5: "pool_reach 2 (demo_pool (((((?o @ [P_destroy]) @ [P_destroy]) @ [P_destroy]) @ [P_destroy]) @ [P_destroy]))"
    by (rule demo_reach(1) [OF 4]) (simp_all add: eval)
  let ?p = "demo_pool [P_enqueue (Task 7 5), P_signal 0, P_destroy, P_destroy, P_destroy, P_destroy, P_destroy]"
  have r: "pool_reach 2 ?p" using 5 by simp
  have f: "p_destroy ?p = D_join 0" "pool_work ?p \<le> 100" "length (p_threads ?p) = 2" "p_accepted ?p = [Task 7 5]"
    by (simp_all add: eval pool_work_def)
  have n: "(3::nat) = Suc 2" by simp
  from destroy_returns [OF r f(1,2)] f(3,4) obtain p' where
    p': "destroy_steps (Suc 2) (rounds 100 ?p) = Done p'" "p_freed p'" "mset (p_called p') = {#Task 7 5#}" by (metis mset_single_iff)
  from p'(3) have "p_called p' = [Task 7 5]" by (metis mset_single_iff_right)
  with p'(1,2) show ?thesis unfolding n by blast
qed

end
