(* ===== verification/EvSync.thy ===== *)
theory EvSync
  imports Prelude
begin

text \<open>
  The locks of \<open>src/evsync\<close>: \<open>ev_spin_lock.c\<close> and \<open>ev_rwlock.c\<close>, as state machines whose steps are the atomic
  accesses of the C code, in any interleaving of a list of threads. The atomic accesses are sequentially consistent
  (the default of \<open>atomic_load\<close> and of the exchanges; the explicit \<open>acquire\<close> loads of the spin lock only narrow
  what the model allows). The counters are integers: \<open>rd_lock\<close> counts threads and never nears the width of an \<open>int\<close>.
\<close>

subsection \<open>The spin lock\<close>

text \<open>
  Where a thread is: outside, in \<open>ev_spin_lock\<close> before its load and before its exchange, in \<open>ev_spin_try_lock\<close>
  the same, holding the lock, and in \<open>ev_spin_unlock\<close> before its load and before its exchange, with the
  expected value \<open>old_val\<close> of the exchange.
\<close>

datatype spin_pc = S_idle | S_load | S_cas | S_try_load | S_try_cas | S_held | S_unlock_load bool | S_unlock_cas bool

record spin_lock =
  sp_lock :: bool
  sp_threads :: "spin_pc list"

definition create_spin_lock :: "nat \<Rightarrow> spin_lock" where
  "create_spin_lock n = \<lparr>sp_lock = False, sp_threads = replicate n S_idle\<rparr>"

definition spin_goto :: "nat \<Rightarrow> spin_pc \<Rightarrow> spin_lock \<Rightarrow> spin_lock" where
  "spin_goto i x s = s\<lparr>sp_threads := (sp_threads s)[i := x]\<rparr>"

definition ev_spin_try_lock :: "nat \<Rightarrow> spin_lock \<Rightarrow> spin_lock" where
  "ev_spin_try_lock i s =
     (if sp_threads s ! i = S_try_load then spin_goto i (if sp_lock s then S_idle else S_try_cas) s
      else if sp_lock s then spin_goto i S_idle s
      else spin_goto i S_held (s\<lparr>sp_lock := True\<rparr>))"

definition ev_spin_lock :: "nat \<Rightarrow> spin_lock \<Rightarrow> spin_lock" where
  "ev_spin_lock i s =
     (if sp_threads s ! i = S_load then spin_goto i (if sp_lock s then S_load else S_cas) s
      else if sp_lock s then spin_goto i S_load s
      else spin_goto i S_held (s\<lparr>sp_lock := True\<rparr>))"

definition ev_spin_unlock :: "nat \<Rightarrow> bool \<Rightarrow> spin_lock \<Rightarrow> spin_lock" where
  "ev_spin_unlock i old_val s =
     (if sp_threads s ! i = S_unlock_load old_val then spin_goto i (if sp_lock s then S_unlock_cas old_val else S_idle) s
      else if sp_lock s = old_val then spin_goto i (S_unlock_load old_val) (s\<lparr>sp_lock := False\<rparr>)
      else spin_goto i (S_unlock_load (sp_lock s)) s)"

datatype spin_op = Spin_call_lock nat | Spin_call_try nat | Spin_call_unlock nat | Spin_step nat

fun spin_ok :: "spin_op \<Rightarrow> spin_lock \<Rightarrow> bool" where
  "spin_ok (Spin_call_lock i) s = (i < length (sp_threads s) \<and> sp_threads s ! i = S_idle)"
| "spin_ok (Spin_call_try i) s = (i < length (sp_threads s) \<and> sp_threads s ! i = S_idle)"
| "spin_ok (Spin_call_unlock i) s = (i < length (sp_threads s) \<and> sp_threads s ! i = S_held)"
| "spin_ok (Spin_step i) s = (i < length (sp_threads s))"

fun spin_exec :: "spin_op \<Rightarrow> spin_lock \<Rightarrow> spin_lock outcome" where
  "spin_exec (Spin_call_lock i) s = Done (spin_goto i S_load s)"
| "spin_exec (Spin_call_try i) s = Done (spin_goto i S_try_load s)"
| "spin_exec (Spin_call_unlock i) s = Done (spin_goto i (S_unlock_load True) s)"
| "spin_exec (Spin_step i) s =
     (case sp_threads s ! i of
        S_load \<Rightarrow> Done (ev_spin_lock i s)
      | S_cas \<Rightarrow> Done (ev_spin_lock i s)
      | S_try_load \<Rightarrow> Done (ev_spin_try_lock i s)
      | S_try_cas \<Rightarrow> Done (ev_spin_try_lock i s)
      | S_unlock_load b \<Rightarrow> Done (ev_spin_unlock i b s)
      | S_unlock_cas b \<Rightarrow> Done (ev_spin_unlock i b s)
      | _ \<Rightarrow> Spins)"

definition spin_reach :: "nat \<Rightarrow> spin_lock \<Rightarrow> bool" where
  "spin_reach n = reach (\<lambda>s. s = create_spin_lock n) spin_ok spin_exec id"

subsection \<open>The reader-writer lock\<close>

text \<open>
  A reader is before the load of \<open>wr_lock\<close>, before the increment of \<open>rd_lock\<close>, before the second load, before the
  decrement that takes the increment back, in possession of the lock, or in \<open>ev_rwlock_rdunlock\<close> before the load and
  before the decrement. A writer is before the exchange, before the load of \<open>rd_lock\<close>, before the store of 1, in
  possession of the lock, or in \<open>ev_rwlock_wrunlock\<close> before the load and before the store of 0.
\<close>

datatype rw_pc =
    Rw_idle
  | R_load | R_add | R_check | R_undo | R_held | R_unlock | R_unlock_dec
  | W_cas | W_load | W_store | W_held | W_unlock | W_unlock_store

record ev_rwlock =
  rd_lock :: int
  wr_lock :: int
  rw_threads :: "rw_pc list"

definition ev_rwlock_init :: "nat \<Rightarrow> ev_rwlock" where
  "ev_rwlock_init n = \<lparr>rd_lock = 0, wr_lock = 0, rw_threads = replicate n Rw_idle\<rparr>"

definition rw_goto :: "nat \<Rightarrow> rw_pc \<Rightarrow> ev_rwlock \<Rightarrow> ev_rwlock" where
  "rw_goto i x s = s\<lparr>rw_threads := (rw_threads s)[i := x]\<rparr>"

text \<open>The steps of the four functions, by where the thread is.\<close>

definition ev_rwlock_rdlock :: "nat \<Rightarrow> ev_rwlock \<Rightarrow> ev_rwlock outcome" where
  "ev_rwlock_rdlock i s =
     (case rw_threads s ! i of
        R_load \<Rightarrow> Done (rw_goto i (if 0 \<noteq> wr_lock s then R_load else R_add) s)
      | R_add \<Rightarrow> Done (rw_goto i R_check (s\<lparr>rd_lock := rd_lock s + 1\<rparr>))
      | R_check \<Rightarrow> Done (rw_goto i (if 0 = wr_lock s then R_held else R_undo) s)
      | R_undo \<Rightarrow> Done (rw_goto i R_load (s\<lparr>rd_lock := rd_lock s - 1\<rparr>))
      | _ \<Rightarrow> Spins)"

definition ev_rwlock_wrlock :: "nat \<Rightarrow> ev_rwlock \<Rightarrow> ev_rwlock outcome" where
  "ev_rwlock_wrlock i s =
     (case rw_threads s ! i of
        W_cas \<Rightarrow> if wr_lock s = 0 then Done (rw_goto i W_load (s\<lparr>wr_lock := -1\<rparr>)) else Done (rw_goto i W_cas s)
      | W_load \<Rightarrow> Done (rw_goto i (if rd_lock s \<noteq> 0 then W_load else W_store) s)
      | W_store \<Rightarrow> Done (rw_goto i W_held (s\<lparr>wr_lock := 1\<rparr>))
      | _ \<Rightarrow> Spins)"

definition ev_rwlock_rdunlock :: "nat \<Rightarrow> ev_rwlock \<Rightarrow> ev_rwlock outcome" where
  "ev_rwlock_rdunlock i s =
     (case rw_threads s ! i of
        R_unlock \<Rightarrow> if rd_lock s > 0 then Done (rw_goto i R_unlock_dec s) else Aborted
      | R_unlock_dec \<Rightarrow> Done (rw_goto i Rw_idle (s\<lparr>rd_lock := rd_lock s - 1\<rparr>))
      | _ \<Rightarrow> Spins)"

definition ev_rwlock_wrunlock :: "nat \<Rightarrow> ev_rwlock \<Rightarrow> ev_rwlock outcome" where
  "ev_rwlock_wrunlock i s =
     (case rw_threads s ! i of
        W_unlock \<Rightarrow> if wr_lock s = 1 then Done (rw_goto i W_unlock_store s) else Aborted
      | W_unlock_store \<Rightarrow> Done (rw_goto i Rw_idle (s\<lparr>wr_lock := 0\<rparr>))
      | _ \<Rightarrow> Spins)"

datatype rw_op = Rw_rdlock nat | Rw_wrlock nat | Rw_rdunlock nat | Rw_wrunlock nat | Rw_step nat

fun rw_ok :: "rw_op \<Rightarrow> ev_rwlock \<Rightarrow> bool" where
  "rw_ok (Rw_rdlock i) s = (i < length (rw_threads s) \<and> rw_threads s ! i = Rw_idle)"
| "rw_ok (Rw_wrlock i) s = (i < length (rw_threads s) \<and> rw_threads s ! i = Rw_idle)"
| "rw_ok (Rw_rdunlock i) s = (i < length (rw_threads s) \<and> rw_threads s ! i = R_held)"
| "rw_ok (Rw_wrunlock i) s = (i < length (rw_threads s) \<and> rw_threads s ! i = W_held)"
| "rw_ok (Rw_step i) s = (i < length (rw_threads s))"

fun rw_exec :: "rw_op \<Rightarrow> ev_rwlock \<Rightarrow> ev_rwlock outcome" where
  "rw_exec (Rw_rdlock i) s = Done (rw_goto i R_load s)"
| "rw_exec (Rw_wrlock i) s = Done (rw_goto i W_cas s)"
| "rw_exec (Rw_rdunlock i) s = Done (rw_goto i R_unlock s)"
| "rw_exec (Rw_wrunlock i) s = Done (rw_goto i W_unlock s)"
| "rw_exec (Rw_step i) s =
     (let x = rw_threads s ! i
      in if x \<in> {R_load, R_add, R_check, R_undo} then ev_rwlock_rdlock i s
         else if x \<in> {W_cas, W_load, W_store} then ev_rwlock_wrlock i s
         else if x \<in> {R_unlock, R_unlock_dec} then ev_rwlock_rdunlock i s
         else ev_rwlock_wrunlock i s)"

definition rw_reach :: "nat \<Rightarrow> ev_rwlock \<Rightarrow> bool" where
  "rw_reach n = reach (\<lambda>s. s = ev_rwlock_init n) rw_ok rw_exec id"

text \<open>
  \<open>rd_lock\<close> counts the readers between their increment and their decrement; \<open>wr_lock\<close> is not 0 exactly while one
  thread is between its exchange and its store of 0; and a writer past its load of \<open>rd_lock\<close> has shut the readers out.
\<close>

definition counts :: "rw_pc \<Rightarrow> int" where
  "counts x = (if x \<in> {R_check, R_undo, R_held, R_unlock, R_unlock_dec} then 1 else 0)"

definition writes_in :: "rw_pc \<Rightarrow> int" where
  "writes_in x = (if x \<in> {W_load, W_store, W_held, W_unlock, W_unlock_store} then 1 else 0)"

definition rd_in :: "rw_pc \<Rightarrow> bool" where
  "rd_in x \<longleftrightarrow> x \<in> {R_held, R_unlock, R_unlock_dec}"

definition wr_in :: "rw_pc \<Rightarrow> bool" where
  "wr_in x \<longleftrightarrow> x \<in> {W_store, W_held, W_unlock, W_unlock_store}"

definition rw_inv :: "ev_rwlock \<Rightarrow> bool" where
  "rw_inv s \<longleftrightarrow>
     rd_lock s = sum_list (map counts (rw_threads s)) \<and>
     sum_list (map writes_in (rw_threads s)) = (if wr_lock s = 0 then 0 else 1) \<and>
     (\<forall>i<length (rw_threads s). rw_threads s ! i \<in> {W_held, W_unlock, W_unlock_store} \<longrightarrow> wr_lock s = 1) \<and>
     (\<forall>i<length (rw_threads s). \<forall>j<length (rw_threads s). wr_in (rw_threads s ! i) \<longrightarrow> \<not> rd_in (rw_threads s ! j))"

lemma counts_bounds [simp]: "0 \<le> counts x" "0 \<le> writes_in x" "writes_in x \<le> 1"
  by (simp_all add: counts_def writes_in_def)

lemma part_le_sum:
  fixes f :: "'a \<Rightarrow> int"
  assumes "\<And>x. 0 \<le> f x" "i < length xs"
  shows "f (xs ! i) \<le> sum_list (map f xs)"
  using member_le_sum_list [of "f (xs ! i)" "map f xs"] assms by auto

lemma one_writer:
  assumes inv: "rw_inv s" and ij: "i < length (rw_threads s)" "j < length (rw_threads s)" "i \<noteq> j"
  shows "writes_in (rw_threads s ! i) + writes_in (rw_threads s ! j) \<le> (if wr_lock s = 0 then 0 else 1)"
proof -
  let ?xs = "(rw_threads s)[i := Rw_idle]"
  have "sum_list (map writes_in ?xs) + writes_in (rw_threads s ! i) = sum_list (map writes_in (rw_threads s)) + writes_in Rw_idle"
    by (rule sum_list_upd [OF ij(1)])
  moreover have "writes_in (?xs ! j) \<le> sum_list (map writes_in ?xs)" by (rule part_le_sum) (use ij in simp_all)
  ultimately show ?thesis using inv ij by (simp add: rw_inv_def writes_in_def)
qed

lemma in_lock:
  assumes "rw_inv s" "i < length (rw_threads s)"
  shows "writes_in (rw_threads s ! i) \<le> (if wr_lock s = 0 then 0 else 1)" "counts (rw_threads s ! i) \<le> rd_lock s"
  using part_le_sum [of writes_in i "rw_threads s"] part_le_sum [of counts i "rw_threads s"] assms by (simp_all add: rw_inv_def)

text \<open>A move of thread \<open>i\<close> to \<open>x\<close> that adjusts the two counters as it should and does not bring a reader and a writer together.\<close>

lemma rw_move:
  assumes inv: "rw_inv s" and i: "i < length (rw_threads s)"
    and rd: "rd_lock s' = rd_lock s + counts x - counts (rw_threads s ! i)"
    and wr: "(if wr_lock s' = 0 then 0 else 1) = (if wr_lock s = 0 then 0 else 1) + writes_in x - writes_in (rw_threads s ! i)"
    and th: "rw_threads s' = (rw_threads s)[i := x]"
    and w1: "x \<in> {W_held, W_unlock, W_unlock_store} \<Longrightarrow> wr_lock s' = 1" "wr_lock s' = wr_lock s \<or> writes_in (rw_threads s ! i) + writes_in x > 0"
    and x: "wr_in x \<Longrightarrow> \<forall>j<length (rw_threads s). j \<noteq> i \<longrightarrow> \<not> rd_in (rw_threads s ! j)"
      "rd_in x \<Longrightarrow> \<forall>j<length (rw_threads s). j \<noteq> i \<longrightarrow> \<not> wr_in (rw_threads s ! j)"
  shows "rw_inv s'"
proof -
  have sums: "sum_list (map counts (rw_threads s')) + counts (rw_threads s ! i) = sum_list (map counts (rw_threads s)) + counts x"
    "sum_list (map writes_in (rw_threads s')) + writes_in (rw_threads s ! i) = sum_list (map writes_in (rw_threads s)) + writes_in x"
    unfolding th by (rule sum_list_upd [OF i])+
  have n: "length (rw_threads s') = length (rw_threads s)" by (simp add: th)
  have at: "rw_threads s' ! j = (if j = i then x else rw_threads s ! j)" for j using i by (simp add: th)
  have "wr_lock s' = 1" if j: "j < length (rw_threads s)" "rw_threads s' ! j \<in> {W_held, W_unlock, W_unlock_store}" for j
  proof (cases "j = i")
    case True
    with j w1(1) show ?thesis by (simp add: at)
  next
    case False
    then have h: "rw_threads s ! j \<in> {W_held, W_unlock, W_unlock_store}" using j by (simp add: at)
    then have w: "writes_in (rw_threads s ! j) = 1" by (auto simp: writes_in_def)
    have "wr_lock s = 1" using inv h j(1) unfolding rw_inv_def by blast
    moreover have "writes_in (rw_threads s ! i) = 0" "writes_in x = 0"
    proof -
      have "(if wr_lock s = 0 then 0 else 1) \<le> (1::int)" by simp
      with one_writer [OF inv i j(1)] False w have "writes_in (rw_threads s ! i) \<le> 0" by linarith
      then show z: "writes_in (rw_threads s ! i) = 0" using counts_bounds(2) [of "rw_threads s ! i"] by linarith
      have "writes_in x \<le> 0" using wr z \<open>wr_lock s = 1\<close> by (auto split: if_splits)
      then show "writes_in x = 0" using counts_bounds(2) [of x] by linarith
    qed
    ultimately show ?thesis using w1(2) by auto
  qed
  moreover have "\<not> rd_in (rw_threads s' ! k)" if "j < length (rw_threads s)" "k < length (rw_threads s)" "wr_in (rw_threads s' ! j)" for j k
    using that inv x by (auto simp: at rw_inv_def rd_in_def wr_in_def split: if_splits)
  ultimately show ?thesis
    using inv rd wr sums unfolding rw_inv_def n by auto
qed

lemmas rw_defs = counts_def writes_in_def rd_in_def wr_in_def rw_goto_def

lemma rw_call:
  assumes "rw_inv s" "i < length (rw_threads s)" "rw_threads s ! i = x" "counts x' = counts x" "writes_in x' = writes_in x"
    "wr_in x' \<Longrightarrow> wr_in x" "rd_in x' \<Longrightarrow> rd_in x" "x' \<in> {W_held, W_unlock, W_unlock_store} \<Longrightarrow> x \<in> {W_held, W_unlock, W_unlock_store}"
  shows "rw_inv (rw_goto i x' s)"
  by (rule rw_move [OF assms(1,2), where x = x']) (use assms in \<open>auto simp: rw_goto_def rw_inv_def\<close>)

lemma rw_step_inv:
  assumes inv: "rw_inv s" and i: "i < length (rw_threads s)"
  shows "rw_exec (Rw_step i) s = Spins \<or> (\<exists>s'. rw_exec (Rw_step i) s = Done s' \<and> rw_inv s')"
proof (cases "rw_threads s ! i")
  case R_load
  have "rw_inv (rw_goto i R_load s)" by (rule rw_call [OF inv i R_load]) (simp_all add: rw_defs)
  moreover have "rw_inv (rw_goto i R_add s)" by (rule rw_call [OF inv i R_load]) (simp_all add: rw_defs)
  ultimately show ?thesis using R_load by (simp add: ev_rwlock_rdlock_def)
next
  case R_add
  have "rw_inv (rw_goto i R_check (s\<lparr>rd_lock := rd_lock s + 1\<rparr>))"
    by (rule rw_move [OF inv i, where x = R_check]) (simp_all add: R_add rw_defs)
  with R_add show ?thesis by (simp add: ev_rwlock_rdlock_def)
next
  case R_check
  have "rw_inv (rw_goto i R_held s)" if z: "wr_lock s = 0"
  proof (rule rw_move [OF inv i, where x = R_held])
    have "\<not> wr_in (rw_threads s ! j)" if "j < length (rw_threads s)" for j
      using in_lock(1) [OF inv that] z by (auto simp: rw_defs split: if_splits)
    then show "\<forall>j<length (rw_threads s). j \<noteq> i \<longrightarrow> \<not> wr_in (rw_threads s ! j)" by blast
  qed (simp_all add: R_check rw_defs)
  moreover have "rw_inv (rw_goto i R_undo s)" by (rule rw_call [OF inv i R_check]) (simp_all add: rw_defs)
  ultimately show ?thesis using R_check by (simp add: ev_rwlock_rdlock_def)
next
  case R_undo
  have "rw_inv (rw_goto i R_load (s\<lparr>rd_lock := rd_lock s - 1\<rparr>))"
    by (rule rw_move [OF inv i, where x = R_load]) (simp_all add: R_undo rw_defs)
  with R_undo show ?thesis by (simp add: ev_rwlock_rdlock_def)
next
  case R_unlock
  have "0 < rd_lock s" using in_lock(2) [OF inv i] R_unlock by (simp add: counts_def)
  moreover have "rw_inv (rw_goto i R_unlock_dec s)" by (rule rw_call [OF inv i R_unlock]) (simp_all add: rw_defs)
  ultimately show ?thesis using R_unlock by (simp add: ev_rwlock_rdunlock_def)
next
  case R_unlock_dec
  have "rw_inv (rw_goto i Rw_idle (s\<lparr>rd_lock := rd_lock s - 1\<rparr>))"
    by (rule rw_move [OF inv i, where x = Rw_idle]) (simp_all add: R_unlock_dec rw_defs)
  with R_unlock_dec show ?thesis by (simp add: ev_rwlock_rdunlock_def)
next
  case W_cas
  have "rw_inv (rw_goto i W_load (s\<lparr>wr_lock := -1\<rparr>))" if "wr_lock s = 0"
    by (rule rw_move [OF inv i, where x = W_load]) (simp_all add: that W_cas rw_defs)
  moreover have "rw_inv (rw_goto i W_cas s)" by (rule rw_call [OF inv i W_cas]) (simp_all add: rw_defs)
  ultimately show ?thesis using W_cas by (simp add: ev_rwlock_wrlock_def)
next
  case W_load
  have "rw_inv (rw_goto i W_store s)" if z: "rd_lock s = 0"
  proof (rule rw_move [OF inv i, where x = W_store])
    have "\<not> rd_in (rw_threads s ! j)" if "j < length (rw_threads s)" for j
      using in_lock(2) [OF inv that] z by (auto simp: rw_defs split: if_splits)
    then show "\<forall>j<length (rw_threads s). j \<noteq> i \<longrightarrow> \<not> rd_in (rw_threads s ! j)" by blast
  qed (simp_all add: W_load rw_defs)
  moreover have "rw_inv (rw_goto i W_load s)" by (rule rw_call [OF inv i W_load]) (simp_all add: rw_defs)
  ultimately show ?thesis using W_load by (simp add: ev_rwlock_wrlock_def)
next
  case W_store
  have nz: "wr_lock s \<noteq> 0" using in_lock(1) [OF inv i] W_store by (auto simp: writes_in_def)
  have "rw_inv (rw_goto i W_held (s\<lparr>wr_lock := 1\<rparr>))"
    by (rule rw_move [OF inv i, where x = W_held]) (use inv i nz W_store in \<open>auto simp: rw_defs rw_inv_def\<close>)
  with W_store show ?thesis by (simp add: ev_rwlock_wrlock_def)
next
  case W_unlock
  have "wr_lock s = 1" using inv i W_unlock by (simp add: rw_inv_def)
  moreover have "rw_inv (rw_goto i W_unlock_store s)" by (rule rw_call [OF inv i W_unlock]) (simp_all add: rw_defs)
  ultimately show ?thesis using W_unlock by (simp add: ev_rwlock_wrunlock_def)
next
  case W_unlock_store
  have nz: "wr_lock s \<noteq> 0" using in_lock(1) [OF inv i] W_unlock_store by (auto simp: writes_in_def)
  have "rw_inv (rw_goto i Rw_idle (s\<lparr>wr_lock := 0\<rparr>))"
    by (rule rw_move [OF inv i, where x = Rw_idle]) (simp_all add: nz W_unlock_store rw_defs)
  with W_unlock_store show ?thesis by (simp add: ev_rwlock_wrunlock_def)
qed (simp_all add: ev_rwlock_wrunlock_def)

interpretation rw: guarded_system "\<lambda>s. s = ev_rwlock_init n" rw_ok rw_exec id rw_inv for n
proof
  show "rw_inv s" if "s = ev_rwlock_init n" for s
    using that by (simp add: rw_inv_def ev_rwlock_init_def rw_defs sum_list_replicate)
  show "rw_exec op s = Spins \<or> (\<exists>s'. rw_exec op s = Done s' \<and> rw_inv (id s'))" if inv: "rw_inv s" and ok: "rw_ok op s" for op s
  proof (cases op)
    case (Rw_step i)
    with rw_step_inv [OF inv, of i] ok show ?thesis by (simp del: rw_exec.simps)
  next
    case (Rw_rdlock i)
    have "rw_inv (rw_goto i R_load s)" by (rule rw_call [OF inv, of i Rw_idle]) (use Rw_rdlock ok in \<open>simp_all add: rw_defs\<close>)
    with Rw_rdlock show ?thesis by simp
  next
    case (Rw_wrlock i)
    have "rw_inv (rw_goto i W_cas s)" by (rule rw_call [OF inv, of i Rw_idle]) (use Rw_wrlock ok in \<open>simp_all add: rw_defs\<close>)
    with Rw_wrlock show ?thesis by simp
  next
    case (Rw_rdunlock i)
    have "rw_inv (rw_goto i R_unlock s)" by (rule rw_call [OF inv, of i R_held]) (use Rw_rdunlock ok in \<open>simp_all add: rw_defs\<close>)
    with Rw_rdunlock show ?thesis by simp
  next
    case (Rw_wrunlock i)
    have "rw_inv (rw_goto i W_unlock s)" by (rule rw_call [OF inv, of i W_held]) (use Rw_wrunlock ok in \<open>simp_all add: rw_defs\<close>)
    with Rw_wrunlock show ?thesis by simp
  qed
qed

text \<open>
  C24. \<open>ev_rwlock\<close> excludes: in every interleaving, while a thread holds the lock for writing no other thread holds it for
  writing or for reading; and the assertions of the two unlock functions never fail.
\<close>

theorem rwlock_excludes:
  assumes r: "rw_reach n s"
  shows "(\<forall>i<length (rw_threads s). \<forall>j<length (rw_threads s). i \<noteq> j \<and> rw_threads s ! i = W_held \<longrightarrow>
      rw_threads s ! j \<noteq> W_held \<and> rw_threads s ! j \<noteq> R_held) \<and>
    (\<forall>op. rw_ok op s \<longrightarrow> rw_exec op s \<noteq> Aborted)"
proof (intro conjI allI impI)
  have inv: "rw_inv s" using r unfolding rw_reach_def by (rule rw.reach_inv)
  fix i j assume ij: "i < length (rw_threads s)" "j < length (rw_threads s)" "i \<noteq> j \<and> rw_threads s ! i = W_held"
  show "rw_threads s ! j \<noteq> W_held" using one_writer [OF inv ij(1,2)] ij(3) by (auto simp: writes_in_def split: if_splits)
  show "rw_threads s ! j \<noteq> R_held" using inv ij by (auto simp: rw_inv_def wr_in_def rd_in_def)
next
  fix op assume "rw_ok op s"
  with r show "rw_exec op s \<noteq> Aborted" unfolding rw_reach_def using rw.reach_no_crash by blast
qed

theorem rwlock_excludes_witness:
  "\<exists>s. run_all rw_ok rw_exec id [Rw_wrlock 0, Rw_step 0, Rw_step 0, Rw_step 0, Rw_rdlock 1, Rw_step 1] (ev_rwlock_init 2) = Some s \<and>
     rw_threads s ! 0 = W_held \<and> rw_threads s ! 1 \<noteq> R_held"
proof -
  let ?ops = "[Rw_wrlock 0, Rw_step 0, Rw_step 0, Rw_step 0, Rw_rdlock 1, Rw_step 1]"
  have "\<exists>s. run_all rw_ok rw_exec id ?ops (ev_rwlock_init 2) = Some s \<and> rw_threads s = [W_held, R_load]"
    by (simp add: ev_rwlock_init_def numeral_2_eq_2 rw_goto_def ev_rwlock_wrlock_def ev_rwlock_rdlock_def)
  then obtain s where s: "run_all rw_ok rw_exec id ?ops (ev_rwlock_init 2) = Some s" "rw_threads s = [W_held, R_load]" by blast
  have "rw_reach 2 (ev_rwlock_init 2)" unfolding rw_reach_def by (rule reach_start) simp
  then have r: "rw_reach 2 s" unfolding rw_reach_def by (rule run_all_reach [OF _ s(1)])
  have "\<forall>i<length (rw_threads s). \<forall>j<length (rw_threads s). i \<noteq> j \<and> rw_threads s ! i = W_held \<longrightarrow>
      rw_threads s ! j \<noteq> W_held \<and> rw_threads s ! j \<noteq> R_held" using rwlock_excludes [OF r] by blast
  from this [rule_format, of 0 1] s show ?thesis by (simp del: run_all.simps)
qed

text \<open>
  C25. \<open>ev_spin_lock\<close> does not exclude: \<open>ev_spin_unlock\<close> looks at the lock again after it has released it, and releases it
  a second time when another thread has taken it in between, so that two threads come to hold the lock at once.
\<close>

theorem spin_lock_shared: "\<exists>s. spin_reach 2 s \<and> sp_threads s = [S_held, S_held]"
proof -
  let ?ops = "[Spin_call_lock 0, Spin_step 0, Spin_step 0, Spin_call_unlock 0, Spin_step 0, Spin_step 0,
    Spin_call_lock 1, Spin_step 1, Spin_step 1, Spin_step 0, Spin_step 0, Spin_step 0, Spin_call_lock 0, Spin_step 0, Spin_step 0]"
  have start: "spin_reach 2 (create_spin_lock 2)" unfolding spin_reach_def by (rule reach_start) simp
  have "\<exists>s. run_all spin_ok spin_exec id ?ops (create_spin_lock 2) = Some s \<and> sp_threads s = [S_held, S_held]"
    by (simp add: create_spin_lock_def numeral_2_eq_2 spin_goto_def ev_spin_lock_def ev_spin_unlock_def)
  then obtain s where s: "run_all spin_ok spin_exec id ?ops (create_spin_lock 2) = Some s" "sp_threads s = [S_held, S_held]" by blast
  have "spin_reach 2 s" using start unfolding spin_reach_def by (rule run_all_reach [OF _ s(1)])
  with s(2) show ?thesis by blast
qed

end
