(* ===== verification/McsLock.thy ===== *)
theory McsLock
  imports Prelude
begin

text \<open>
  The queue lock of \<open>src/evsync/ev_mcs_lock.c\<close>: a list of threads that call \<open>mcs_get_access\<close> and \<open>mcs_relinquish\<close>
  on one lock, one atomic access at a step, over a heap of the nodes they allocate and free. Using a node that is
  not allocated is \<open>Bad_access\<close>.
\<close>

subsection \<open>State and steps\<close>

record mcs_node =
  n_locked :: bool
  n_next :: "nat option"

text \<open>
  Where a thread is, with its node: in \<open>mcs_get_access\<close> before the exchange of the tail, before it marks its node
  as locked, before it links its node to its predecessor's, and in the loop that waits; in possession of the lock; in
  \<open>mcs_relinquish\<close> before the first look at \<open>next\<close>, before the exchange, in the loop that waits for a successor, before
  it unlocks the successor, and before it frees its node.
\<close>

datatype mcs_pc =
    M_idle
  | M_swap nat
  | M_lock nat nat
  | M_link nat nat
  | M_spin nat
  | M_held nat
  | M_rel nat
  | M_cas nat
  | M_wait nat
  | M_pass nat
  | M_free nat

record mcs =
  m_tail :: "nat option"
  m_heap :: "nat \<Rightarrow> mcs_node option"
  m_brk :: nat
  m_threads :: "mcs_pc list"

definition mcs_init :: "nat \<Rightarrow> mcs" where
  "mcs_init n = \<lparr>m_tail = None, m_heap = (\<lambda>_. None), m_brk = 0, m_threads = replicate n M_idle\<rparr>"

definition m_goto :: "nat \<Rightarrow> mcs_pc \<Rightarrow> mcs \<Rightarrow> mcs" where
  "m_goto i x s = s\<lparr>m_threads := (m_threads s)[i := x]\<rparr>"

definition node_at :: "mcs \<Rightarrow> nat \<Rightarrow> mcs_node outcome" where
  "node_at s p = (case m_heap s p of None \<Rightarrow> Bad_access | Some n \<Rightarrow> Done n)"

definition put_node :: "nat \<Rightarrow> mcs_node \<Rightarrow> mcs \<Rightarrow> mcs" where
  "put_node p n s = s\<lparr>m_heap := (m_heap s)(p \<mapsto> n)\<rparr>"

text \<open>The call allocates the node; the steps follow.\<close>

definition mcs_enter :: "nat \<Rightarrow> mcs \<Rightarrow> mcs" where
  "mcs_enter i s =
     m_goto i (M_swap (m_brk s)) (put_node (m_brk s) \<lparr>n_locked = False, n_next = None\<rparr> (s\<lparr>m_brk := Suc (m_brk s)\<rparr>))"

definition mcs_get_access :: "nat \<Rightarrow> mcs \<Rightarrow> mcs outcome" where
  "mcs_get_access i s =
     (case m_threads s ! i of
        M_swap p \<Rightarrow>
          Done (m_goto i (case m_tail s of None \<Rightarrow> M_held p | Some pred \<Rightarrow> M_lock p pred) (s\<lparr>m_tail := Some p\<rparr>))
      | M_lock p pred \<Rightarrow> obind (node_at s p) (\<lambda>n. Done (m_goto i (M_link p pred) (put_node p (n\<lparr>n_locked := True\<rparr>) s)))
      | M_link p pred \<Rightarrow> obind (node_at s pred) (\<lambda>n. Done (m_goto i (M_spin p) (put_node pred (n\<lparr>n_next := Some p\<rparr>) s)))
      | M_spin p \<Rightarrow> obind (node_at s p) (\<lambda>n. Done (m_goto i (if n_locked n then M_spin p else M_held p) s))
      | _ \<Rightarrow> Spins)"

definition mcs_relinquish :: "nat \<Rightarrow> mcs \<Rightarrow> mcs outcome" where
  "mcs_relinquish i s =
     (case m_threads s ! i of
        M_rel p \<Rightarrow> obind (node_at s p) (\<lambda>n. Done (m_goto i (if n_next n = None then M_cas p else M_wait p) s))
      | M_cas p \<Rightarrow>
          if m_tail s = Some p then Done (m_goto i (M_free p) (s\<lparr>m_tail := None\<rparr>)) else Done (m_goto i (M_wait p) s)
      | M_wait p \<Rightarrow> obind (node_at s p) (\<lambda>n. Done (m_goto i (if n_next n = None then M_wait p else M_pass p) s))
      | M_pass p \<Rightarrow>
          obind (node_at s p) (\<lambda>n.
            case n_next n of
              None \<Rightarrow> Bad_access
            | Some q \<Rightarrow> obind (node_at s q) (\<lambda>m. Done (m_goto i (M_free p) (put_node q (m\<lparr>n_locked := False\<rparr>) s))))
      | M_free p \<Rightarrow> obind (node_at s p) (\<lambda>n. Done (m_goto i M_idle (s\<lparr>m_heap := (m_heap s)(p := None)\<rparr>)))
      | _ \<Rightarrow> Spins)"

datatype mcs_op = Mcs_get nat | Mcs_release nat | Mcs_step nat

fun mcs_ok :: "mcs_op \<Rightarrow> mcs \<Rightarrow> bool" where
  "mcs_ok (Mcs_get i) s = (i < length (m_threads s) \<and> m_threads s ! i = M_idle)"
| "mcs_ok (Mcs_release i) s = (i < length (m_threads s) \<and> (\<exists>p. m_threads s ! i = M_held p))"
| "mcs_ok (Mcs_step i) s = (i < length (m_threads s))"

fun node_of :: "mcs_pc \<Rightarrow> nat option" where
  "node_of M_idle = None"
| "node_of (M_swap p) = Some p"
| "node_of (M_lock p q) = Some p"
| "node_of (M_link p q) = Some p"
| "node_of (M_spin p) = Some p"
| "node_of (M_held p) = Some p"
| "node_of (M_rel p) = Some p"
| "node_of (M_cas p) = Some p"
| "node_of (M_wait p) = Some p"
| "node_of (M_pass p) = Some p"
| "node_of (M_free p) = Some p"

fun getting :: "mcs_pc \<Rightarrow> bool" where
  "getting (M_swap p) = True"
| "getting (M_lock p q) = True"
| "getting (M_link p q) = True"
| "getting (M_spin p) = True"
| "getting _ = False"

fun mcs_exec :: "mcs_op \<Rightarrow> mcs \<Rightarrow> mcs outcome" where
  "mcs_exec (Mcs_get i) s = Done (mcs_enter i s)"
| "mcs_exec (Mcs_release i) s = Done (m_goto i (M_rel (the (node_of (m_threads s ! i)))) s)"
| "mcs_exec (Mcs_step i) s = (if getting (m_threads s ! i) then mcs_get_access i s else mcs_relinquish i s)"

definition mcs_reach :: "nat \<Rightarrow> mcs \<Rightarrow> bool" where
  "mcs_reach n = reach (\<lambda>s. s = mcs_init n) mcs_ok mcs_exec id"

subsection \<open>The queue of threads\<close>

definition mpc :: "mcs \<Rightarrow> nat \<Rightarrow> mcs_pc" where
  "mpc s i = m_threads s ! i"

definition nd :: "mcs \<Rightarrow> nat \<Rightarrow> nat" where
  "nd s i = the (node_of (mpc s i))"

definition nx :: "mcs \<Rightarrow> nat \<Rightarrow> nat option" where
  "nx s p = n_next (the (m_heap s p))"

definition lk :: "mcs \<Rightarrow> nat \<Rightarrow> bool" where
  "lk s p = n_locked (the (m_heap s p))"

fun in_queue :: "mcs_pc \<Rightarrow> bool" where
  "in_queue M_idle = False"
| "in_queue (M_swap p) = False"
| "in_queue (M_free p) = False"
| "in_queue _ = True"

text \<open>The thread \<open>t\<close> waits behind \<open>u\<close>.\<close>

definition behind :: "mcs \<Rightarrow> nat \<Rightarrow> nat \<Rightarrow> bool" where
  "behind s u t \<longleftrightarrow>
     (case mpc s t of
        M_lock p q \<Rightarrow> q = nd s u \<and> nx s (nd s u) = None
      | M_link p q \<Rightarrow> q = nd s u \<and> nx s (nd s u) = None \<and> lk s p
      | M_spin p \<Rightarrow> nx s (nd s u) = Some p \<and> lk s p
      | _ \<Rightarrow> False)"

text \<open>The first thread holds the lock, gives it up, or has been given it and does not know yet.\<close>

definition in_front :: "mcs \<Rightarrow> nat \<Rightarrow> bool" where
  "in_front s h \<longleftrightarrow>
     (case mpc s h of
        M_spin p \<Rightarrow> \<not> lk s p
      | M_held p \<Rightarrow> True
      | M_rel p \<Rightarrow> True
      | M_cas p \<Rightarrow> True
      | M_wait p \<Rightarrow> True
      | M_pass p \<Rightarrow> nx s p \<noteq> None
      | _ \<Rightarrow> False)"

definition mqueue :: "mcs \<Rightarrow> nat list \<Rightarrow> bool" where
  "mqueue s os \<longleftrightarrow>
     distinct os \<and> set os = {i. i < length (m_threads s) \<and> in_queue (mpc s i)} \<and>
     m_tail s = (if os = [] then None else Some (nd s (last os))) \<and>
     (\<forall>k. Suc k < length os \<longrightarrow> behind s (os ! k) (os ! Suc k)) \<and>
     (os \<noteq> [] \<longrightarrow> in_front s (hd os) \<and> nx s (nd s (last os)) = None)"

definition mnodes :: "mcs \<Rightarrow> bool" where
  "mnodes s \<longleftrightarrow>
     (\<forall>p. m_heap s p \<noteq> None \<longrightarrow> p < m_brk s) \<and>
     (\<forall>i<length (m_threads s). \<forall>p. node_of (mpc s i) = Some p \<longrightarrow> m_heap s p \<noteq> None) \<and>
     (\<forall>i<length (m_threads s). \<forall>j<length (m_threads s). \<forall>p.
        node_of (mpc s i) = Some p \<longrightarrow> node_of (mpc s j) = Some p \<longrightarrow> i = j) \<and>
     (\<forall>i<length (m_threads s). \<forall>p. mpc s i = M_swap p \<longrightarrow> m_heap s p = Some \<lparr>n_locked = False, n_next = None\<rparr>)"

definition mcs_inv :: "mcs \<Rightarrow> bool" where
  "mcs_inv s \<longleftrightarrow> mnodes s \<and> (\<exists>os. mqueue s os)"

lemma m_goto_simps [simp]:
  "length (m_threads (m_goto i x s)) = length (m_threads s)" "m_heap (m_goto i x s) = m_heap s" "m_tail (m_goto i x s) = m_tail s"
  "m_brk (m_goto i x s) = m_brk s" "m_heap (put_node p n s) = (m_heap s)(p \<mapsto> n)" "m_tail (put_node p n s) = m_tail s"
  "m_threads (put_node p n s) = m_threads s" "m_brk (put_node p n s) = m_brk s"
  by (simp_all add: m_goto_def put_node_def)

lemma mpc_goto: "i < length (m_threads s) \<Longrightarrow> mpc (m_goto i x s) j = (if j = i then x else mpc s j)"
  by (simp add: mpc_def m_goto_def)

lemma mpc_cong: "m_threads s' = m_threads s \<Longrightarrow> mpc s' = mpc s"
  by (simp add: mpc_def fun_eq_iff)

subsection \<open>The steps keep the queue\<close>

lemma mqueueD:
  assumes "mqueue s os"
  shows "distinct os" "set os = {i. i < length (m_threads s) \<and> in_queue (mpc s i)}"
    "m_tail s = (if os = [] then None else Some (nd s (last os)))" "Suc k < length os \<Longrightarrow> behind s (os ! k) (os ! Suc k)"
    "os \<noteq> [] \<Longrightarrow> in_front s (hd os)" "os \<noteq> [] \<Longrightarrow> nx s (nd s (last os)) = None"
  using assms unfolding mqueue_def by blast+

lemma mqueueI:
  assumes "distinct os" "set os = {i. i < length (m_threads s) \<and> in_queue (mpc s i)}"
    "m_tail s = (if os = [] then None else Some (nd s (last os)))" "\<And>k. Suc k < length os \<Longrightarrow> behind s (os ! k) (os ! Suc k)"
    "os \<noteq> [] \<Longrightarrow> in_front s (hd os) \<and> nx s (nd s (last os)) = None"
  shows "mqueue s os"
  using assms unfolding mqueue_def by blast

lemma mqueue_pos:
  assumes q: "mqueue s os" and i: "i < length (m_threads s)" "in_queue (mpc s i)"
  obtains "os \<noteq> []" "hd os = i" "in_front s i" | k where "Suc k < length os" "os ! Suc k = i" "behind s (os ! k) i"
proof -
  have "i \<in> set os" using q i by (simp add: mqueue_def)
  then obtain k where k: "k < length os" "os ! k = i" by (auto simp: in_set_conv_nth)
  show ?thesis
  proof (cases k)
    case 0
    with k q that(1) show ?thesis by (auto simp: mqueue_def hd_conv_nth)
  next
    case (Suc k')
    with k q have "behind s (os ! k') i" by (auto simp: mqueue_def)
    with that(2) k Suc show ?thesis by blast
  qed
qed

lemma mqueue_front:
  assumes "mqueue s os" "i < length (m_threads s)" "in_queue (mpc s i)" "\<And>u. \<not> behind s u i"
  shows "os \<noteq> []" "hd os = i"
  using mqueue_pos [OF assms(1-3)] assms(4) by metis+

lemma mqueue_behind:
  assumes "mqueue s os" "i < length (m_threads s)" "in_queue (mpc s i)" "\<not> in_front s i"
  obtains k where "Suc k < length os" "os ! Suc k = i" "behind s (os ! k) i"
  using mqueue_pos [OF assms(1-3)] assms(4) by metis

lemma queue_thread: "mqueue s os \<Longrightarrow> j \<in> set os \<Longrightarrow> j < length (m_threads s) \<and> in_queue (mpc s j)"
  by (simp add: mqueue_def)

lemma queue_node: "in_queue x \<Longrightarrow> node_of x = Some (the (node_of x))"
  by (cases x) simp_all

lemma nd_node: "mqueue s os \<Longrightarrow> j \<in> set os \<Longrightarrow> node_of (mpc s j) = Some (nd s j)"
  using queue_node [of "mpc s j"] queue_thread [of s os j] by (simp add: nd_def)

lemma nd_inj:
  assumes n: "mnodes s" and ij: "i < length (m_threads s)" "j < length (m_threads s)" "node_of (mpc s i) = Some p" "node_of (mpc s j) = Some p"
  shows "i = j"
  using n ij unfolding mnodes_def by blast

text \<open>Nodes keep their owners when a thread moves on with its node and no node of a thread before its exchange changes.\<close>

lemma mnodes_move:
  assumes n: "mnodes s" and i: "i < length (m_threads s)"
    and s': "\<And>j. mpc s' j = (if j = i then x else mpc s j)" "length (m_threads s') = length (m_threads s)" "m_brk s' = m_brk s"
    and x: "node_of x = node_of (mpc s i)" "\<And>p. x \<noteq> M_swap p"
    and h: "\<And>p. m_heap s' p \<noteq> None \<longleftrightarrow> m_heap s p \<noteq> None"
      "\<And>j p. j < length (m_threads s) \<Longrightarrow> j \<noteq> i \<Longrightarrow> mpc s j = M_swap p \<Longrightarrow> m_heap s' p = m_heap s p"
  shows "mnodes s'"
proof -
  have nd: "node_of (mpc s' j) = node_of (mpc s j)" for j using s'(1) x(1) by simp
  show ?thesis
    unfolding mnodes_def s'(2,3) nd h(1)
  proof (intro conjI allI impI)
    fix j p assume j: "j < length (m_threads s)" "mpc s' j = M_swap p"
    then have "j \<noteq> i" "mpc s j = M_swap p" using s'(1) x(2) by (auto split: if_splits)
    with h(2) [OF j(1)] n j(1) show "m_heap s' p = Some \<lparr>n_locked = False, n_next = None\<rparr>" by (simp add: mnodes_def)
  qed (use n in \<open>auto simp: mnodes_def\<close>)
qed

lemma swap_node_apart:
  assumes "mnodes s" "mqueue s os" "u \<in> set os" "j < length (m_threads s)" "mpc s j = M_swap p"
  shows "p \<noteq> nd s u"
  using nd_inj [OF assms(1) assms(4), of u p] nd_node [OF assms(2,3)] queue_thread [OF assms(2,3)] assms(5) by auto

text \<open>The first thread moves on without touching a node.\<close>

lemma front_step:
  assumes n: "mnodes s" and q: "mqueue s os" and i: "i < length (m_threads s)" "os \<noteq> []" "hd os = i"
    and x: "node_of x = node_of (mpc s i)" "in_queue x" "in_front (m_goto i x s) i"
  shows "mcs_inv (m_goto i x s)"
proof -
  let ?s = "m_goto i x s"
  have iq: "in_queue (mpc s i)" using queue_thread [OF q, of i] i by (auto simp: hd_in_set)
  have nd: "nd ?s j = nd s j" for j using x(1) i(1) by (simp add: nd_def mpc_goto)
  have nl: "nx ?s p = nx s p" "lk ?s p = lk s p" for p by (simp_all add: nx_def lk_def)
  have "behind ?s (os ! k) (os ! Suc k)" if k: "Suc k < length os" for k
  proof -
    have "os ! Suc k \<noteq> i" using q i(2,3) k by (auto simp: mqueue_def hd_conv_nth nth_eq_iff_index_eq)
    then have "mpc ?s (os ! Suc k) = mpc s (os ! Suc k)" using i(1) by (simp add: mpc_goto)
    then have "behind ?s (os ! k) (os ! Suc k) = behind s (os ! k) (os ! Suc k)" unfolding behind_def nd nl by simp
    with q k show ?thesis by (simp add: mqueue_def)
  qed
  moreover have "set os = {j. j < length (m_threads ?s) \<and> in_queue (mpc ?s j)}"
    using q x(2) iq i(1) by (auto simp: mqueue_def mpc_goto)
  ultimately have "mqueue ?s os" using q i x(3) by (simp add: mqueue_def nd nl)
  moreover have "mnodes ?s"
    by (rule mnodes_move [OF n i(1), where x = x]) (use x i(1) in \<open>auto simp: mpc_goto\<close>)
  ultimately show ?thesis by (auto simp: mcs_inv_def)
qed

text \<open>Threads outside the queue come and go with their nodes.\<close>

lemma queue_frame:
  assumes q: "mqueue s os" and l: "length (m_threads s') = length (m_threads s)" "m_tail s' = m_tail s"
    and f: "\<And>j. j \<in> set os \<Longrightarrow> mpc s' j = mpc s j \<and> m_heap s' (nd s j) = m_heap s (nd s j)"
    and o: "\<And>j. j < length (m_threads s) \<Longrightarrow> in_queue (mpc s' j) = in_queue (mpc s j)"
  shows "mqueue s' os"
proof -
  have nd: "nd s' j = nd s j" if "j \<in> set os" for j using f [OF that] by (simp add: nd_def)
  have nl: "nx s' (nd s j) = nx s (nd s j)" "lk s' (nd s j) = lk s (nd s j)" if "j \<in> set os" for j
    using f [OF that] by (simp_all add: nx_def lk_def)
  have own: "p = nd s j" if "j \<in> set os" "mpc s j = M_lock p r \<or> mpc s j = M_link p r \<or> mpc s j = M_spin p \<or> mpc s j = M_pass p" for j p r
    using that by (auto simp: nd_def)
  have b: "behind s' u t = behind s u t" if "u \<in> set os" "t \<in> set os" for u t
    using f [OF that(2)] nd [OF that(1)] nl [OF that(1)] nl [OF that(2)] own [OF that(2)]
    by (auto simp: behind_def split: mcs_pc.splits)
  have fr: "in_front s' h = in_front s h" if "h \<in> set os" for h
    using f [OF that] nl [OF that] own [OF that] by (cases "mpc s h") (simp_all add: in_front_def)
  show ?thesis
  proof (rule mqueueI)
    show "distinct os" by (rule mqueueD(1) [OF q])
    show "set os = {i. i < length (m_threads s') \<and> in_queue (mpc s' i)}" unfolding mqueueD(2) [OF q] l(1) using o by blast
    show "m_tail s' = (if os = [] then None else Some (nd s' (last os)))" using mqueueD(3) [OF q] l(2) nd [of "last os"] by simp
    show "behind s' (os ! k) (os ! Suc k)" if "Suc k < length os" for k
      using b [of "os ! k" "os ! Suc k"] mqueueD(4) [OF q that] that by simp
    show "in_front s' (hd os) \<and> nx s' (nd s' (last os)) = None" if "os \<noteq> []"
      using mqueueD(5,6) [OF q that] fr [OF hd_in_set [OF that]] nd [OF last_in_set [OF that]] nl [OF last_in_set [OF that]] by simp
  qed
qed

lemma enter_step:
  assumes inv: "mcs_inv s" and i: "i < length (m_threads s)" "m_threads s ! i = M_idle"
  shows "mcs_inv (mcs_enter i s)"
proof -
  let ?s = "mcs_enter i s" and ?p = "m_brk s"
  from inv obtain os where n: "mnodes s" and q: "mqueue s os" by (auto simp: mcs_inv_def)
  have g: "length (m_threads ?s) = length (m_threads s)" "m_tail ?s = m_tail s" "m_brk ?s = Suc ?p"
    "m_heap ?s = (m_heap s)(?p \<mapsto> \<lparr>n_locked = False, n_next = None\<rparr>)"
    by (simp_all add: mcs_enter_def)
  have pc: "mpc ?s j = (if j = i then M_swap ?p else mpc s j)" for j using i(1) by (simp add: mcs_enter_def mpc_def m_goto_def)
  have new: "node_of (mpc s j) \<noteq> Some ?p" if "j < length (m_threads s)" for j
    using n that unfolding mnodes_def by (metis less_irrefl)
  have ni: "\<not> in_queue (mpc s i)" using i(2) by (simp add: mpc_def)
  have "mqueue ?s os"
  proof (rule queue_frame [OF q g(1,2)])
    fix j assume j: "j \<in> set os"
    then have "j \<noteq> i" using queue_thread [OF q j] ni by auto
    moreover have "nd s j \<noteq> ?p" using new [of j] nd_node [OF q j] queue_thread [OF q j] by auto
    ultimately show "mpc ?s j = mpc s j \<and> m_heap ?s (nd s j) = m_heap s (nd s j)" by (simp add: pc g)
  qed (use ni in \<open>simp add: pc\<close>)
  moreover have "mnodes ?s"
    unfolding mnodes_def g pc
  proof (intro conjI allI impI)
    fix p assume "((m_heap s)(?p \<mapsto> \<lparr>n_locked = False, n_next = None\<rparr>)) p \<noteq> None"
    then show "p < Suc ?p" using n by (auto simp: mnodes_def less_Suc_eq split: if_splits)
  next
    fix j p assume "j < length (m_threads s)" "node_of (if j = i then M_swap ?p else mpc s j) = Some p"
    then show "((m_heap s)(?p \<mapsto> \<lparr>n_locked = False, n_next = None\<rparr>)) p \<noteq> None" using n by (auto simp: mnodes_def split: if_splits)
  next
    fix j k p assume "j < length (m_threads s)" "k < length (m_threads s)" "node_of (if j = i then M_swap ?p else mpc s j) = Some p"
      "node_of (if k = i then M_swap ?p else mpc s k) = Some p"
    then show "j = k" using new nd_inj [OF n, of j k p] by (auto split: if_splits)
  next
    fix j p assume "j < length (m_threads s)" "(if j = i then M_swap ?p else mpc s j) = M_swap p"
    then show "((m_heap s)(?p \<mapsto> \<lparr>n_locked = False, n_next = None\<rparr>)) p = Some \<lparr>n_locked = False, n_next = None\<rparr>"
      using n by (auto simp: mnodes_def split: if_splits)
  qed
  ultimately show ?thesis by (auto simp: mcs_inv_def)
qed

lemma free_step:
  assumes inv: "mcs_inv s" and i: "i < length (m_threads s)" "mpc s i = M_free p"
  shows "mcs_inv (m_goto i M_idle (s\<lparr>m_heap := (m_heap s)(p := None)\<rparr>))"
proof -
  let ?s = "m_goto i M_idle (s\<lparr>m_heap := (m_heap s)(p := None)\<rparr>)"
  from inv obtain os where n: "mnodes s" and q: "mqueue s os" by (auto simp: mcs_inv_def)
  have pc: "mpc ?s j = (if j = i then M_idle else mpc s j)" for j using i(1) by (simp add: mpc_def m_goto_def)
  have other: "node_of (mpc s j) \<noteq> Some p" if "j < length (m_threads s)" "j \<noteq> i" for j
    using nd_inj [OF n that(1) i(1), of p] i(2) that(2) by auto
  have "mqueue ?s os"
  proof (rule queue_frame [OF q])
    fix j assume j: "j \<in> set os"
    then have "j \<noteq> i" using queue_thread [OF q j] i(2) by auto
    moreover have "nd s j \<noteq> p" using other [of j] nd_node [OF q j] queue_thread [OF q j] \<open>j \<noteq> i\<close> by auto
    ultimately show "mpc ?s j = mpc s j \<and> m_heap ?s (nd s j) = m_heap s (nd s j)" by (simp add: pc)
  qed (use i(2) in \<open>simp_all add: pc\<close>)
  moreover have "mnodes ?s"
    unfolding mnodes_def pc
  proof (intro conjI allI impI)
    fix r assume "m_heap ?s r \<noteq> None"
    then show "r < m_brk ?s" using n by (auto simp: mnodes_def split: if_splits)
  next
    fix j r assume "j < length (m_threads ?s)" "node_of (if j = i then M_idle else mpc s j) = Some r"
    then show "m_heap ?s r \<noteq> None" using n other [of j] by (auto simp: mnodes_def split: if_splits)
  next
    fix j k r assume "j < length (m_threads ?s)" "k < length (m_threads ?s)" "node_of (if j = i then M_idle else mpc s j) = Some r"
      "node_of (if k = i then M_idle else mpc s k) = Some r"
    then show "j = k" using nd_inj [OF n, of j k r] by (auto split: if_splits)
  next
    fix j r assume "j < length (m_threads ?s)" "(if j = i then M_idle else mpc s j) = M_swap r"
    then show "m_heap ?s r = Some \<lparr>n_locked = False, n_next = None\<rparr>" using n other [of j] by (auto simp: mnodes_def split: if_splits)
  qed
  ultimately show ?thesis by (auto simp: mcs_inv_def)
qed

lemma swap_step:
  assumes inv: "mcs_inv s" and i: "i < length (m_threads s)" "mpc s i = M_swap p"
    and x: "x = (case m_tail s of None \<Rightarrow> M_held p | Some pred \<Rightarrow> M_lock p pred)"
  shows "mcs_inv (m_goto i x (s\<lparr>m_tail := Some p\<rparr>))"
proof -
  let ?s = "m_goto i x (s\<lparr>m_tail := Some p\<rparr>)"
  from inv obtain os where n: "mnodes s" and q: "mqueue s os" by (auto simp: mcs_inv_def)
  have pc: "mpc ?s j = (if j = i then x else mpc s j)" for j using i(1) by (simp add: mpc_def m_goto_def)
  have xp: "node_of x = Some p" "in_queue x" "\<And>r. x \<noteq> M_swap r" by (simp_all add: x split: option.splits)
  have nd: "nd ?s j = nd s j" for j using i(2) xp(1) by (simp add: nd_def pc)
  have nl: "nx ?s r = nx s r" "lk ?s r = lk s r" for r by (simp_all add: nx_def lk_def)
  have ni: "i \<notin> set os" using queue_thread [OF q, of i] i(2) by auto
  have np: "nx s p = None" "nd s i = p" using n i by (auto simp: mnodes_def nx_def nd_def)
  have b: "behind ?s u t = behind s u t" if "t \<noteq> i" for u t using that unfolding behind_def nd nl pc by simp
  have fr: "in_front ?s h = in_front s h" if "h \<noteq> i" for h using that unfolding in_front_def nl pc by simp
  note tail = mqueueD(3) [OF q]
  have "mqueue ?s (os @ [i])"
  proof (rule mqueueI)
    show "distinct (os @ [i])" using mqueueD(1) [OF q] ni by simp
    have "in_queue (mpc ?s j) \<longleftrightarrow> j = i \<or> in_queue (mpc s j)" for j using xp(2) pc by simp
    then show "set (os @ [i]) = {j. j < length (m_threads ?s) \<and> in_queue (mpc ?s j)}"
      unfolding set_append mqueueD(2) [OF q] using i(1) by auto
    show "m_tail ?s = (if os @ [i] = [] then None else Some (nd ?s (last (os @ [i]))))" using np by (simp add: nd)
    show "in_front ?s (hd (os @ [i])) \<and> nx ?s (nd ?s (last (os @ [i]))) = None"
    proof (cases os)
      case Nil
      have "x = M_held p" using tail Nil by (simp add: x)
      then have "in_front ?s i" unfolding in_front_def pc nl by simp
      with Nil np show ?thesis by (simp add: nd nl)
    next
      case (Cons h ts)
      with mqueueD(5) [OF q] ni fr [of h] np show ?thesis by (simp add: nd nl)
    qed
    fix k assume k: "Suc k < length (os @ [i])"
    show "behind ?s ((os @ [i]) ! k) ((os @ [i]) ! Suc k)"
    proof (cases "Suc k < length os")
      case True
      then have "os ! Suc k \<noteq> i" using ni by (metis nth_mem)
      with True b [of "os ! Suc k" "os ! k"] mqueueD(4) [OF q True] show ?thesis by (simp add: nth_append)
    next
      case False
      with k have e: "os \<noteq> []" "Suc k = length os" by auto
      then have l: "os ! k = last os" by (metis diff_Suc_1 last_conv_nth)
      have "x = M_lock p (nd s (last os))" using tail e(1) by (simp add: x)
      then have "behind ?s (last os) i" using mqueueD(6) [OF q e(1)] unfolding behind_def nd nl pc by simp
      with e l show ?thesis by (simp add: nth_append)
    qed
  qed
  moreover have "mnodes ?s"
    by (rule mnodes_move [OF n i(1), where x = x]) (use xp i in \<open>auto simp: pc\<close>)
  ultimately show ?thesis by (auto simp: mcs_inv_def)
qed

lemma lock_step:
  assumes inv: "mcs_inv s" and i: "i < length (m_threads s)" "mpc s i = M_lock p r" and h: "m_heap s p = Some n"
  shows "mcs_inv (m_goto i (M_link p r) (put_node p (n\<lparr>n_locked := True\<rparr>) s))"
proof -
  let ?s = "m_goto i (M_link p r) (put_node p (n\<lparr>n_locked := True\<rparr>) s)"
  from inv obtain os where nn: "mnodes s" and q: "mqueue s os" by (auto simp: mcs_inv_def)
  have pc: "mpc ?s j = (if j = i then M_link p r else mpc s j)" for j using i(1) by (simp add: mpc_def m_goto_def)
  have nd: "nd ?s j = nd s j" for j using i(2) by (simp add: nd_def pc)
  have nl: "nx ?s x = nx s x" "lk ?s x = (x = p \<or> lk s x)" for x using h by (auto simp: nx_def lk_def)
  have np: "nd s i = p" using i(2) by (simp add: nd_def)
  have iq: "in_queue (mpc s i)" "\<not> in_front s i" using i(2) by (simp_all add: in_front_def)
  obtain k where k: "Suc k < length os" "os ! Suc k = i" "behind s (os ! k) i" by (rule mqueue_behind [OF q i(1) iq])
  have b: "behind ?s u t" if "behind s u t" for u t
  proof (cases "t = i")
    case True
    with that i(2) show ?thesis unfolding behind_def nd nl pc by simp
  next
    case False
    with that show ?thesis unfolding behind_def nd nl pc by (cases "mpc s t") simp_all
  qed
  have h0: "hd os \<noteq> i" "os \<noteq> []"
  proof -
    show "os \<noteq> []" using k(1) by auto
    then show "hd os \<noteq> i" using mqueueD(1) [OF q] k(1,2) by (auto simp: hd_conv_nth nth_eq_iff_index_eq)
  qed
  have ho: "mpc s (hd os) = M_spin x \<Longrightarrow> x \<noteq> p" for x
    using nd_inj [OF nn _ i(1), of "hd os" p] queue_thread [OF q hd_in_set [OF h0(2)]] h0(1) i(2) by auto
  have "mqueue ?s os"
  proof (rule mqueueI)
    show "distinct os" by (rule mqueueD(1) [OF q])
    have "in_queue (mpc ?s j) = in_queue (mpc s j)" for j using i(2) by (simp add: pc)
    then show "set os = {j. j < length (m_threads ?s) \<and> in_queue (mpc ?s j)}" using mqueueD(2) [OF q] by simp
    show "m_tail ?s = (if os = [] then None else Some (nd ?s (last os)))" using mqueueD(3) [OF q] by (simp add: nd)
    show "behind ?s (os ! k) (os ! Suc k)" if "Suc k < length os" for k using b mqueueD(4) [OF q that] by blast
    have "in_front ?s (hd os)"
      using mqueueD(5) [OF q h0(2)] h0(1) ho unfolding in_front_def nl pc by (cases "mpc s (hd os)") simp_all
    then show "in_front ?s (hd os) \<and> nx ?s (nd ?s (last os)) = None" using mqueueD(6) [OF q h0(2)] by (simp add: nd nl)
  qed
  moreover have "mnodes ?s"
  proof (rule mnodes_move [OF nn i(1), where x = "M_link p r"])
    have "i \<in> set os" using k(1,2) by auto
    then show "m_heap ?s y = m_heap s y" if "j < length (m_threads s)" "mpc s j = M_swap y" for j y
      using swap_node_apart [OF nn q _ that] np by auto
  qed (use i h in \<open>simp_all add: pc\<close>)
  ultimately show ?thesis by (auto simp: mcs_inv_def)
qed

lemma link_step:
  assumes inv: "mcs_inv s" and i: "i < length (m_threads s)" "mpc s i = M_link p r"
  shows "\<exists>n. m_heap s r = Some n \<and> mcs_inv (m_goto i (M_spin p) (put_node r (n\<lparr>n_next := Some p\<rparr>) s))"
proof -
  from inv obtain os where nn: "mnodes s" and q: "mqueue s os" by (auto simp: mcs_inv_def)
  have iq: "in_queue (mpc s i)" "\<not> in_front s i" using i(2) by (simp_all add: in_front_def)
  obtain k where k: "Suc k < length os" "os ! Suc k = i" "behind s (os ! k) i" by (rule mqueue_behind [OF q i(1) iq])
  let ?u = "os ! k"
  have u: "?u \<in> set os" "r = nd s ?u" "lk s p" using k i(2) by (simp_all add: behind_def)
  have nu: "node_of (mpc s ?u) = Some r" "?u < length (m_threads s)" using nd_node [OF q u(1)] queue_thread [OF q u(1)] u(2) by simp_all
  then have "m_heap s r \<noteq> None" using nn unfolding mnodes_def by blast
  then obtain n where n: "m_heap s r = Some n" by blast
  let ?s = "m_goto i (M_spin p) (put_node r (n\<lparr>n_next := Some p\<rparr>) s)"
  have pc: "mpc ?s j = (if j = i then M_spin p else mpc s j)" for j using i(1) by (simp add: mpc_def m_goto_def)
  have nd: "nd ?s j = nd s j" for j using i(2) by (simp add: nd_def pc)
  have nl: "nx ?s x = (if x = r then Some p else nx s x)" "lk ?s x = lk s x" for x using n by (auto simp: nx_def lk_def)
  have du: "nd s j \<noteq> r" if "j \<in> set os" "j \<noteq> ?u" for j
    using nd_inj [OF nn _ nu(2), of j r] nu(1) nd_node [OF q that(1)] queue_thread [OF q that(1)] that(2) by auto
  have ne: "os \<noteq> []" using k(1) by auto
  have "mqueue ?s os"
  proof (rule mqueueI)
    show "distinct os" by (rule mqueueD(1) [OF q])
    have "in_queue (mpc ?s j) = in_queue (mpc s j)" for j using i(2) by (simp add: pc)
    then show "set os = {j. j < length (m_threads ?s) \<and> in_queue (mpc ?s j)}" using mqueueD(2) [OF q] by simp
    show "m_tail ?s = (if os = [] then None else Some (nd ?s (last os)))" using mqueueD(3) [OF q] by (simp add: nd)
    show "behind ?s (os ! j) (os ! Suc j)" if j: "Suc j < length os" for j
    proof (cases "j = k")
      case True
      then show ?thesis using k u unfolding behind_def nd nl pc by simp
    next
      case False
      then have "os ! j \<noteq> ?u" "os ! Suc j \<noteq> i" using mqueueD(1) [OF q] j k by (auto simp: nth_eq_iff_index_eq)
      moreover have "nd s (os ! j) \<noteq> r" by (rule du) (use j \<open>os ! j \<noteq> ?u\<close> in simp_all)
      ultimately show ?thesis using mqueueD(4) [OF q j] unfolding behind_def nd nl pc by simp
    qed
    have "hd os \<noteq> i" using mqueueD(1) [OF q] k(1,2) ne by (auto simp: hd_conv_nth nth_eq_iff_index_eq)
    then have "in_front ?s (hd os)"
      using mqueueD(5) [OF q ne] unfolding in_front_def nl pc by (cases "mpc s (hd os)") simp_all
    moreover have "last os \<noteq> ?u" using mqueueD(1) [OF q] k(1) ne by (auto simp: last_conv_nth nth_eq_iff_index_eq)
    ultimately show "in_front ?s (hd os) \<and> nx ?s (nd ?s (last os)) = None"
      using mqueueD(6) [OF q ne] du [OF last_in_set [OF ne]] by (simp add: nd nl)
  qed
  moreover have "mnodes ?s"
  proof (rule mnodes_move [OF nn i(1), where x = "M_spin p"])
    show "m_heap ?s y = m_heap s y" if "j < length (m_threads s)" "mpc s j = M_swap y" for j y
      using swap_node_apart [OF nn q u(1) that] u(2) by auto
  qed (use i n in \<open>simp_all add: pc\<close>)
  ultimately have "mcs_inv ?s" by (auto simp: mcs_inv_def)
  with n show ?thesis by blast
qed

lemma spin_step:
  assumes inv: "mcs_inv s" and i: "i < length (m_threads s)" "mpc s i = M_spin p" and h: "m_heap s p = Some n"
  shows "mcs_inv (m_goto i (if n_locked n then M_spin p else M_held p) s)"
proof (cases "n_locked n")
  case True
  have e: "m_threads s ! i = M_spin p" using i(2) by (simp add: mpc_def)
  have "(m_threads s)[i := M_spin p] = m_threads s" using list_update_id [of "m_threads s" i] unfolding e .
  then have "m_goto i (M_spin p) s = s" by (simp add: m_goto_def)
  with True inv show ?thesis by simp
next
  case False
  from inv obtain os where nn: "mnodes s" and q: "mqueue s os" by (auto simp: mcs_inv_def)
  have "\<not> behind s u i" for u using i(2) h False by (simp add: behind_def lk_def)
  then have "os \<noteq> []" "hd os = i" using mqueue_front [OF q i(1)] i(2) by simp_all
  then have "mcs_inv (m_goto i (M_held p) s)" by (intro front_step [OF nn q i(1)]) (use i in \<open>simp_all add: in_front_def mpc_goto\<close>)
  with False show ?thesis by simp
qed

fun front_pc :: "mcs_pc \<Rightarrow> bool" where
  "front_pc (M_held p) = True"
| "front_pc (M_rel p) = True"
| "front_pc (M_cas p) = True"
| "front_pc (M_wait p) = True"
| "front_pc (M_pass p) = True"
| "front_pc _ = False"

lemma front_pc_front:
  assumes q: "mqueue s os" and i: "i < length (m_threads s)" "front_pc (mpc s i)"
  shows "os \<noteq> []" "hd os = i"
proof -
  have "\<not> behind s u i" "in_queue (mpc s i)" for u using i(2) by (cases "mpc s i"; simp add: behind_def)+
  then show "os \<noteq> []" "hd os = i" using mqueue_front [OF q i(1)] by simp_all
qed

lemma own_move:
  assumes inv: "mcs_inv s" and i: "i < length (m_threads s)" "front_pc (mpc s i)" "front_pc x" "node_of x = node_of (mpc s i)"
    and p: "\<And>p. x = M_pass p \<Longrightarrow> nx s p \<noteq> None"
  shows "mcs_inv (m_goto i x s)"
proof -
  from inv obtain os where nn: "mnodes s" and q: "mqueue s os" by (auto simp: mcs_inv_def)
  have nl: "nx (m_goto i x s) r = nx s r" for r by (simp add: nx_def)
  have "in_queue x" using i(3) by (cases x) simp_all
  moreover have "in_front (m_goto i x s) i"
    unfolding in_front_def mpc_goto [OF i(1)] nl using i(3) p by (cases x) simp_all
  ultimately show ?thesis by (intro front_step [OF nn q i(1) front_pc_front [OF q i(1,2)]]) (use i in simp_all)
qed

lemma cas_step:
  assumes inv: "mcs_inv s" and i: "i < length (m_threads s)" "mpc s i = M_cas p" and t: "m_tail s = Some p"
  shows "mcs_inv (m_goto i (M_free p) (s\<lparr>m_tail := None\<rparr>))"
proof -
  let ?s = "m_goto i (M_free p) (s\<lparr>m_tail := None\<rparr>)"
  from inv obtain os where nn: "mnodes s" and q: "mqueue s os" by (auto simp: mcs_inv_def)
  have h: "os \<noteq> []" "hd os = i" using front_pc_front [OF q i(1)] i(2) by simp_all
  have pc: "mpc ?s j = (if j = i then M_free p else mpc s j)" for j using i(1) by (simp add: mpc_def m_goto_def)
  have l: "last os \<in> set os" "nd s (last os) = p" using h(1) mqueueD(3) [OF q] t by simp_all
  then have "last os = i" using nd_inj [OF nn _ i(1), of "last os" p] nd_node [OF q l(1)] queue_thread [OF q l(1)] i(2) by simp
  then have "os = [i]" using h mqueueD(1) [OF q] by (cases os) (auto split: if_splits)
  then have "{j. j < length (m_threads s) \<and> in_queue (mpc s j)} = {i}" using mqueueD(2) [OF q] by simp
  then have no: "\<not> in_queue (mpc s j)" if "j < length (m_threads s)" "j \<noteq> i" for j using that by blast
  have "mqueue ?s []" by (rule mqueueI) (use no in \<open>auto simp: pc\<close>)
  moreover have "mnodes ?s" by (rule mnodes_move [OF nn i(1), where x = "M_free p"]) (use i in \<open>simp_all add: pc\<close>)
  ultimately show ?thesis by (auto simp: mcs_inv_def)
qed

lemma pass_step:
  assumes inv: "mcs_inv s" and i: "i < length (m_threads s)" "mpc s i = M_pass p"
  shows "\<exists>r m. nx s p = Some r \<and> m_heap s r = Some m \<and> mcs_inv (m_goto i (M_free p) (put_node r (m\<lparr>n_locked := False\<rparr>) s))"
proof -
  from inv obtain os where nn: "mnodes s" and q: "mqueue s os" by (auto simp: mcs_inv_def)
  have h: "os \<noteq> []" "hd os = i" using front_pc_front [OF q i(1)] i(2) by simp_all
  have np: "nd s i = p" using i(2) by (simp add: nd_def)
  have nxt: "nx s p \<noteq> None" using mqueueD(5) [OF q h(1)] h(2) i(2) by (simp add: in_front_def)
  have "last os \<noteq> i" using mqueueD(6) [OF q h(1)] nxt np by auto
  then obtain t ts where os: "os = i # t # ts" using h by (cases os; cases "tl os") auto
  have b: "behind s i t" using mqueueD(4) [OF q, of 0] os by simp
  have ti: "t \<noteq> i" "t \<in> set os" using mqueueD(1) [OF q] os by auto
  obtain r where r: "mpc s t = M_spin r" "nx s p = Some r" using b np nxt by (cases "mpc s t") (simp_all add: behind_def)
  have tl: "t < length (m_threads s)" using queue_thread [OF q ti(2)] by simp
  then have "m_heap s r \<noteq> None" using nn r(1) unfolding mnodes_def by (metis node_of.simps(5))
  then obtain m where m: "m_heap s r = Some m" by blast
  let ?s = "m_goto i (M_free p) (put_node r (m\<lparr>n_locked := False\<rparr>) s)"
  have pc: "mpc ?s j = (if j = i then M_free p else mpc s j)" for j using i(1) by (simp add: mpc_def m_goto_def)
  have nd: "nd ?s j = nd s j" for j using i(2) by (simp add: nd_def pc)
  have nl: "nx ?s x = nx s x" "lk ?s x = (x \<noteq> r \<and> lk s x)" for x using m by (auto simp: nx_def lk_def)
  have "mqueue ?s (t # ts)"
  proof (rule mqueueI)
    show "distinct (t # ts)" using mqueueD(1) [OF q] os by simp
    have "in_queue (mpc ?s j) \<longleftrightarrow> j \<noteq> i \<and> in_queue (mpc s j)" for j by (simp add: pc)
    moreover have "set (t # ts) = set os - {i}" using mqueueD(1) [OF q] os by auto
    ultimately show "set (t # ts) = {j. j < length (m_threads ?s) \<and> in_queue (mpc ?s j)}" unfolding mqueueD(2) [OF q] by auto
    show "m_tail ?s = (if t # ts = [] then None else Some (nd ?s (last (t # ts))))" using mqueueD(3) [OF q] os by (simp add: nd)
    show "behind ?s ((t # ts) ! k) ((t # ts) ! Suc k)" if k: "Suc k < length (t # ts)" for k
    proof -
      let ?v = "(t # ts) ! Suc k"
      have v: "behind s ((t # ts) ! k) ?v" using mqueueD(4) [OF q, of "Suc k"] os k by simp
      have vs: "?v \<in> set os" "?v \<noteq> i" "?v \<noteq> t" using mqueueD(1) [OF q] os k by auto
      have "mpc s ?v \<noteq> M_link r x" "mpc s ?v \<noteq> M_spin r" for x
        using nd_inj [OF nn _ tl, of ?v r] queue_thread [OF q vs(1)] r(1) vs(3) by auto
      then show ?thesis using v vs(2) unfolding behind_def nd nl pc by (cases "mpc s ?v") auto
    qed
    have "in_front ?s t" unfolding in_front_def nl pc using r(1) ti(1) by simp
    then show "in_front ?s (hd (t # ts)) \<and> nx ?s (nd ?s (last (t # ts))) = None" using mqueueD(6) [OF q h(1)] os by (simp add: nd nl)
  qed
  moreover have "mnodes ?s"
  proof (rule mnodes_move [OF nn i(1), where x = "M_free p"])
    show "m_heap ?s y = m_heap s y" if "j < length (m_threads s)" "mpc s j = M_swap y" for j y
      using swap_node_apart [OF nn q ti(2) that] r(1) by (auto simp: nd_def)
  qed (use i m in \<open>simp_all add: pc\<close>)
  ultimately have "mcs_inv ?s" by (auto simp: mcs_inv_def)
  with m r(2) show ?thesis by blast
qed

subsection \<open>The lock as a guarded system\<close>

lemma mcs_step_inv:
  assumes inv: "mcs_inv s" and i: "i < length (m_threads s)"
  shows "mcs_exec (Mcs_step i) s = Spins \<or> (\<exists>s'. mcs_exec (Mcs_step i) s = Done s' \<and> mcs_inv s')"
proof -
  have own: "\<exists>n. m_heap s p = Some n" if "node_of (mpc s i) = Some p" for p
    using inv i that unfolding mcs_inv_def mnodes_def by blast
  show ?thesis
  proof (cases "mpc s i")
    case M_idle
    then show ?thesis by (simp add: mpc_def mcs_relinquish_def)
  next
    case (M_swap p)
    with swap_step [OF inv i M_swap refl] show ?thesis by (simp add: mpc_def mcs_get_access_def)
  next
    case (M_lock p r)
    then obtain n where n: "m_heap s p = Some n" using own by auto
    with M_lock lock_step [OF inv i M_lock n] show ?thesis by (simp add: mpc_def mcs_get_access_def node_at_def)
  next
    case (M_link p r)
    with link_step [OF inv i M_link] show ?thesis by (auto simp: mpc_def mcs_get_access_def node_at_def)
  next
    case (M_spin p)
    then obtain n where n: "m_heap s p = Some n" using own by auto
    with M_spin spin_step [OF inv i M_spin n] show ?thesis by (simp add: mpc_def mcs_get_access_def node_at_def)
  next
    case (M_held p)
    then show ?thesis by (simp add: mpc_def mcs_relinquish_def)
  next
    case (M_rel p)
    then obtain n where n: "m_heap s p = Some n" using own by auto
    have "mcs_inv (m_goto i (M_cas p) s)" "mcs_inv (m_goto i (M_wait p) s)" by (rule own_move [OF inv i]; simp add: M_rel)+
    with M_rel n show ?thesis by (simp add: mpc_def mcs_relinquish_def node_at_def)
  next
    case (M_cas p)
    have "mcs_inv (m_goto i (M_wait p) s)" by (rule own_move [OF inv i]) (simp_all add: M_cas)
    with M_cas cas_step [OF inv i M_cas] show ?thesis by (simp add: mpc_def mcs_relinquish_def)
  next
    case (M_wait p)
    then obtain n where n: "m_heap s p = Some n" using own by auto
    have "mcs_inv (m_goto i (M_wait p) s)" by (rule own_move [OF inv i]) (simp_all add: M_wait)
    moreover have "mcs_inv (m_goto i (M_pass p) s)" if "n_next n \<noteq> None"
      by (rule own_move [OF inv i]) (use M_wait n that in \<open>simp_all add: nx_def\<close>)
    ultimately show ?thesis using M_wait n by (simp add: mpc_def mcs_relinquish_def node_at_def)
  next
    case (M_pass p)
    then obtain n where n: "m_heap s p = Some n" using own by auto
    from pass_step [OF inv i M_pass] n obtain r m where
      "n_next n = Some r" "m_heap s r = Some m" "mcs_inv (m_goto i (M_free p) (put_node r (m\<lparr>n_locked := False\<rparr>) s))"
      by (auto simp: nx_def)
    with M_pass n show ?thesis by (simp add: mpc_def mcs_relinquish_def node_at_def)
  next
    case (M_free p)
    then obtain n where n: "m_heap s p = Some n" using own by auto
    with M_free free_step [OF inv i M_free] show ?thesis by (simp add: mpc_def mcs_relinquish_def node_at_def)
  qed
qed

interpretation mcs: guarded_system "\<lambda>s. s = mcs_init n" mcs_ok mcs_exec id mcs_inv for n
proof
  show "mcs_inv s" if "s = mcs_init n" for s
  proof -
    have pc: "mpc s i = M_idle" if "i < n" for i using that \<open>s = mcs_init n\<close> by (simp add: mpc_def mcs_init_def)
    have "length (m_threads s) = n" "m_tail s = None" "m_heap s = (\<lambda>_. None)" using that by (simp_all add: mcs_init_def)
    with pc have "mqueue s []" "mnodes s" by (auto simp: mqueue_def mnodes_def)
    then show ?thesis by (auto simp: mcs_inv_def)
  qed
  show "mcs_exec op s = Spins \<or> (\<exists>s'. mcs_exec op s = Done s' \<and> mcs_inv (id s'))" if inv: "mcs_inv s" and ok: "mcs_ok op s" for op s
  proof (cases op)
    case (Mcs_get i)
    with enter_step [OF inv, of i] ok show ?thesis by simp
  next
    case (Mcs_release i)
    with ok obtain p where p: "i < length (m_threads s)" "mpc s i = M_held p" by (auto simp: mpc_def)
    have "mcs_inv (m_goto i (M_rel p) s)" by (rule own_move [OF inv p(1)]) (simp_all add: p(2))
    with Mcs_release p(2) show ?thesis by (simp add: mpc_def)
  next
    case (Mcs_step i)
    with mcs_step_inv [OF inv, of i] ok show ?thesis by (simp del: mcs_exec.simps)
  qed
qed

text \<open>
  C23. The queue lock excludes: in every interleaving at most one thread holds it, and no step of \<open>mcs_get_access\<close> or
  \<open>mcs_relinquish\<close> uses a node that is freed or follows a null pointer, although each thread frees its node while
  others may still point to it.
\<close>

theorem mcs_lock_excludes:
  assumes r: "mcs_reach n s"
  shows "(\<forall>i<length (m_threads s). \<forall>j<length (m_threads s). \<forall>p q. m_threads s ! i = M_held p \<and> m_threads s ! j = M_held q \<longrightarrow> i = j) \<and>
    (\<forall>op. mcs_ok op s \<longrightarrow> mcs_exec op s \<noteq> Bad_access)"
proof (intro conjI allI impI)
  have "mcs_inv s" using r unfolding mcs_reach_def by (rule mcs.reach_inv)
  then obtain os where q: "mqueue s os" by (auto simp: mcs_inv_def)
  fix i j p r assume "i < length (m_threads s)" "j < length (m_threads s)" "m_threads s ! i = M_held p \<and> m_threads s ! j = M_held r"
  then show "i = j" using front_pc_front(2) [OF q, of i] front_pc_front(2) [OF q, of j] by (simp add: mpc_def)
next
  fix op assume "mcs_ok op s"
  with r show "mcs_exec op s \<noteq> Bad_access" unfolding mcs_reach_def using mcs.reach_no_crash by blast
qed

theorem mcs_lock_excludes_witness:
  "\<exists>s. run_all mcs_ok mcs_exec id [Mcs_get 0, Mcs_step 0, Mcs_get 1, Mcs_step 1, Mcs_step 1, Mcs_step 1, Mcs_step 1] (mcs_init 2) = Some s \<and>
     m_threads s = [M_held 0, M_spin 1] \<and> mcs_exec (Mcs_step 1) s \<noteq> Bad_access"
proof -
  let ?ops = "[Mcs_get 0, Mcs_step 0, Mcs_get 1, Mcs_step 1, Mcs_step 1, Mcs_step 1, Mcs_step 1]"
  have "\<exists>s. run_all mcs_ok mcs_exec id ?ops (mcs_init 2) = Some s \<and> m_threads s = [M_held 0, M_spin 1]"
    by (simp add: mcs_init_def numeral_2_eq_2 m_goto_def put_node_def mcs_enter_def mcs_get_access_def node_at_def)
  then obtain s where s: "run_all mcs_ok mcs_exec id ?ops (mcs_init 2) = Some s" "m_threads s = [M_held 0, M_spin 1]" by blast
  have "mcs_reach 2 (mcs_init 2)" unfolding mcs_reach_def by (rule reach_start) simp
  then have r: "mcs_reach 2 s" unfolding mcs_reach_def by (rule run_all_reach [OF _ s(1)])
  have "mcs_ok (Mcs_step 1) s" by (simp add: s(2))
  then have "mcs_exec (Mcs_step 1) s \<noteq> Bad_access" using mcs_lock_excludes [OF r] by blast
  with s show ?thesis by blast
qed

end
