(* ===== verification/Spec2Isabelle.thy ===== *)
theory Spec2Isabelle
  imports Prelude Hex Base64 EvQueue EvQueueRace LinkedLists PQueue Lanes PiQueue MpiQueue SpiQueue PaQueue EvStack Compression BinaryData Trigrams Kernel EfTypes EfWriter EfFile EfInv EfSteps EfRead EfOpen EfClose EfSystem EfProps EfCorrect ThreadPool EvSync McsLock
begin

text \<open>
  A verification library for efio, a C library for file access that does not block its caller.

  \<^bold>\<open>The program.\<close> A program calls \<open>ef_open\<close>, \<open>ef_read\<close>, \<open>ef_write\<close>, \<open>ef_sync\<close> and \<open>ef_close\<close>
  (\<open>src/evio/ef_file.c\<close>). A call that needs the disk queues a task for the threads of a pool
  (\<open>src/evthrpool/thread_pool.c\<close>) and returns at once, with \<open>EAGAIN\<close> when there is nothing to return yet. Writes go
  through a second thread, the file writer, which keeps at most one batch of writes of a file with the disk threads
  and hands the next one over when the disk thread reports the end of the last; a third thread asks every two seconds
  for what is pending to be flushed. The queues between the threads are \<open>src/evds/ev_queue.c\<close>. Beside it the
  library has a stack (\<open>src/evds/ev_stack.c\<close>), five queues of several lists (\<open>src/evds/ev_pqueue.c\<close> and, nothing in the library uses them, \<open>ev_piqueue.c\<close>, \<open>ev_mpiqueue.c\<close>, \<open>ev_spiqueue.c\<close>, \<open>ev_paqueue.c\<close>), three locks (\<open>src/evsync\<close>), two byte codecs, compression over zlib,
  guarded blocks of memory and a similarity of strings (\<open>src/core_utils\<close>).

  \<^bold>\<open>The theories.\<close>

    \<^item> \<open>Prelude\<close>: overwritten byte sequences, the outcomes of a C step (a result, \<open>abort\<close>, an endless wait, an
      access to memory that is not there), and the interfaces as locales: \<open>simulation\<close> (steps that refine a
      specification) and \<open>guarded_system\<close> (a system of calls that keeps an invariant and never crashes), with the
      predicate \<open>reach\<close> of reachable states.
    \<^item> \<open>Hex\<close>, \<open>Base64\<close>: \<open>hex.c\<close> and \<open>base64.c\<close>, with the tables of the source, the automaton of
      \<open>base64_decode\<close> and its treatment of padding. A read outside the text is an outcome of its own. Lemmas: round
      trips, what is accepted, bounds, and exactly when the line breaks of \<open>base64_encode\<close> break the round trip.
    \<^item> \<open>EvQueue\<close>: \<open>ev_queue.c\<close> over a heap of nodes, run by one thread; the locale \<open>fifo_queue\<close> is what the
      other components rely on, interpreted on the operations of the file. \<open>EvQueueRace\<close>: the same by several threads,
      one access to shared memory at a step, and the two interleavings of \<open>enqueue\<close> and \<open>dequeue\<close> that end in an \<open>abort\<close>.
    \<^item> \<open>LinkedLists\<close>: lists of nodes with a head and a tail pointer, in a heap. \<open>PQueue\<close>: \<open>ev_pqueue.c\<close>, \<open>N\<close> lists visited
      in turn, run by one thread; together they are one queue.
    \<^item> \<open>Lanes\<close>: the loop of a dequeue over an array of lists, with the interfaces \<open>lane_look\<close> and \<open>lane\<close> (what it needs of a
      list), \<open>bag_queue\<close> and \<open>fifo_rep\<close> (what the callers get). \<open>PiQueue\<close>, \<open>PaQueue\<close>: \<open>ev_piqueue.c\<close> over the operations of
      \<open>EvQueue\<close>, and \<open>ev_paqueue.c\<close>, each run by one thread; they are bags, and \<open>PaQueue\<close> has the run in which a later element
      overtakes. \<open>MpiQueue\<close>, \<open>SpiQueue\<close>: \<open>ev_mpiqueue.c\<close> and \<open>ev_spiqueue.c\<close>, which one thread uses as one list.
    \<^item> \<open>EvStack\<close>: \<open>ev_stack.c\<close> as a state machine of any number of threads, one access to shared memory at a
      step; the successful exchanges, in their order, are the pushes and pops of a list.
    \<^item> \<open>Compression\<close>: \<open>ev_compression.c\<close>; the streams of zlib are the parameter \<open>zlib\<close>, what its documentation promises is
      \<open>zlib_laws\<close>, and \<open>realloc\<close> is a parameter that may move the block. \<open>BinaryData\<close>: the guarded blocks of \<open>core.c\<close>.
      \<open>Trigrams\<close>: \<open>trigraph.c\<close> against the cosine of two vectors of counts; the operations on \<open>double\<close>s are a parameter,
      which the theorem takes to be those of the real numbers.
    \<^item> \<open>Kernel\<close>: the system calls of \<open>ef_file.c\<close> as Linux documents them (\<open>O_APPEND\<close>, \<open>O_DIRECT\<close>, short reads
      at the end of a file); which paths are denied and which devices fail is part of the state.
    \<^item> \<open>EfTypes\<close>, \<open>EfWriter\<close>, \<open>EfFile\<close>: \<open>ef_internals.h\<close> and \<open>ef_file.c\<close>. \<open>ef_state\<close> holds the static
      variables of the file (the table \<open>sg_open_files\<close>, the queue of free slots, the queues of the disk threads and of
      the writer), the heap of \<open>EF_FILE\<close> objects and the kernel. Every C function is a definition of the same name;
      parts of long functions have names of their own (\<open>accumulate\<close>, \<open>aligned_chunk\<close>, \<open>read_copy\<close>, \<open>close_wait\<close>).
    \<^item> \<open>EfInv\<close>, \<open>EfSteps\<close>, \<open>EfRead\<close>, \<open>EfOpen\<close>, \<open>EfClose\<close>, \<open>EfSystem\<close>: the invariant \<open>ef_inv\<close> of the layer, the
      contents of an open file (what the disk holds, overwritten by the page buffer and by every pending write in
      order), and one lemma per operation: it does not crash, keeps the invariant, and changes the contents as it should.
      \<open>EfSystem\<close> interprets \<open>guarded_system\<close> on the calls and the threads.
    \<^item> \<open>EfProps\<close>, \<open>EfCorrect\<close>: clients that read a file to its end or write, sync and close, and the properties.
    \<^item> \<open>ThreadPool\<close>: \<open>thread_pool.c\<close> as a state machine of its threads, the callers of \<open>enqueue_task\<close> and the
      caller of \<open>destroy_thread_pool\<close>, with its mutex and its condition variable.
    \<^item> \<open>EvSync\<close>, \<open>McsLock\<close>: \<open>ev_spin_lock.c\<close>, \<open>ev_rwlock.c\<close> and \<open>ev_mcs_lock.c\<close>, one atomic access at a step.

  \<^bold>\<open>What is shown.\<close> Whatever is written through a handle is on the disk when closing it returns, in the order
  of the calls, whatever the other threads did in between, and closing returns once they have taken enough turns. A
  file is read whole and in order. No call and no thread crashes in any reachable state. The errors of every call
  are exactly those of the code and leave the state alone. Handles are neither lost nor given out twice. The thread
  pool calls every task once, in the order they were queued, loses no wake-up, and can be destroyed. The queue lock
  and the reader-writer lock exclude; the spin lock does not, and the theorem exhibits the run. The stack is
  linearisable, the queue is a FIFO queue for one thread at a time, and the codecs invert each other. Compression is exact as long as
  \<open>realloc\<close> leaves the block in its place.

  \<^bold>\<open>Grain of the steps.\<close> In the file layer a call of the interface, a task of a disk thread, a turn of the writer
  and a flush are one step each. A place where a call waits for another thread is the outcome \<open>Spins\<close>, except in
  closing, where the steps other threads take during the wait are an argument of the call. A disk thread takes the tasks
  from a list, first in first out: that a task given to the pool is called exactly once is what \<open>ThreadPool\<close> shows.
  In both a call of the queue is one step, as \<open>EvQueue\<close> justifies for calls that do not overlap; \<open>EvQueueRace\<close> shows
  that the code does not bear every overlap.
  The thread pool, the locks and the stack are modelled one access to shared memory at a step, sequentially consistent.

  \<^bold>\<open>Bounds and fuel.\<close> \<open>accumulate\<close> has the number of bytes left as fuel, of which every round takes at least
  one. \<open>read_all\<close> has two calls for each byte and two more: each call either returns a byte or asks for the page,
  which the next turn of a disk thread brings. The rounds that closing and settling need are bounded by the queued work
  (\<open>load\<close>), those of the pool by \<open>pool_work\<close>, the rounds of the compression loops by the bytes they produce, the looks
  of a dequeue at an array of lists by their number, the steps of a thread alone on the stack by seven; the theorems show that these numbers are enough. Sizes and
  offsets are natural numbers below the width of \<open>off_t\<close>; the conversions of sizes to \<open>int\<close> are written out
  (\<open>c_int\<close>), and the theorems about writing have the bound as a hypothesis.

  \<^bold>\<open>Hypotheses.\<close> The invariant of the file layer is that of devices that do not fail, of files that no two
  handles share, and of the ways of opening that \<open>mode_ok\<close> lists (reading; appending; writing to an empty
  file; reading and writing). What the code does outside of them is in the definitions, not in the theorems.

  \<^bold>\<open>Not modelled.\<close> The semaphore build of \<open>thread_pool.c\<close>. Interleavings of \<open>try_dequeue\<close> and of the queues of several
  lists. \<open>destroy_ev_mpiqueue\<close> and \<open>destroy_ev_spiqueue\<close>, which only free an array. The C++ streams of \<open>src/evds\<close>.
  Rounding in \<open>str_cosine_similarity\<close>; \<open>float_limits.c\<close>. \<open>ev_globals.c\<close> (the page size and the clock
  of the system). The test framework, the tests and the programs under \<open>src/try\<close>.
\<close>

end
